(* ===== verification/Go_Lib.thy ===== *)
theory Go_Lib
  imports Prelude "HOL-Library.Log_Nat"
begin

text \<open>
  What the sources use of the Go language and its standard library: 64-bit integers,
  IEEE binary64 arithmetic, durations, decimal printing and parsing, error values with
  \<^verbatim>\<open>errors.Is\<close> and \<^verbatim>\<open>errors.As\<close>, calls that may panic, and a few string functions.
\<close>

section \<open>Integers\<close>

text \<open>Two's-complement wrap-around of a signed 64-bit operation (\<^verbatim>\<open>int\<close>, \<^verbatim>\<open>int64\<close>, \<^verbatim>\<open>time.Duration\<close>).\<close>

definition wrap64 :: "int \<Rightarrow> int" where
  "wrap64 x = (x + 2 ^ 63) mod 2 ^ 64 - 2 ^ 63"

text \<open>Conversion to a signed 32-bit integer, \<^verbatim>\<open>int32(x)\<close>.\<close>

definition wrap32 :: "int \<Rightarrow> int" where
  "wrap32 x = (x + 2 ^ 31) mod 2 ^ 32 - 2 ^ 31"

text \<open>Go's \<^verbatim>\<open>/\<close> and \<^verbatim>\<open>%\<close> truncate towards zero.\<close>

definition go_quot :: "int \<Rightarrow> int \<Rightarrow> int" where
  "go_quot a b = sgn a * sgn b * (\<bar>a\<bar> div \<bar>b\<bar>)"

definition go_rem :: "int \<Rightarrow> int \<Rightarrow> int" where
  "go_rem a b = a - go_quot a b * b"

lemma wrap64_id [simp]: "- (2 ^ 63) \<le> x \<Longrightarrow> x < 2 ^ 63 \<Longrightarrow> wrap64 x = x"
  by (simp add: wrap64_def)

lemma wrap64_range: "- (2 ^ 63) \<le> wrap64 x \<and> wrap64 x < 2 ^ 63"
proof -
  have "0 \<le> (x + 2 ^ 63) mod 2 ^ 64" and "(x + 2 ^ 63) mod 2 ^ 64 < 2 ^ 64"
    by simp_all
  then show ?thesis unfolding wrap64_def by simp
qed

lemma wrap32_id [simp]: "- (2 ^ 31) \<le> x \<Longrightarrow> x < 2 ^ 31 \<Longrightarrow> wrap32 x = x"
  by (simp add: wrap32_def)

lemma go_quot_nonneg: "0 \<le> a \<Longrightarrow> 0 < b \<Longrightarrow> go_quot a b = a div b"
  by (auto simp: go_quot_def sgn_if)

lemma go_rem_nonneg: "0 \<le> a \<Longrightarrow> 0 < b \<Longrightarrow> go_rem a b = a mod b"
  by (simp add: go_rem_def go_quot_nonneg minus_div_mult_eq_mod)

section \<open>Binary64 rounding\<close>

text \<open>
  A \<^verbatim>\<open>float64\<close> operation is the exact operation followed by \<open>fl\<close>: rounding to 53
  significant bits, ties to even. Every float in the sources is 0 or between \<open>2 ^ -53\<close>
  and \<open>2 ^ 94\<close> in magnitude, so the exponent range (overflow, subnormals) is not modelled.
\<close>

definition round_half_even :: "rat \<Rightarrow> int" where
  "round_half_even x =
     (let f = \<lfloor>x\<rfloor>; r = x - of_int f in
      if r < 1 / 2 then f else if 1 / 2 < r then f + 1
      else if even f then f else f + 1)"

text \<open>The exponent of a positive rational: \<open>2 powi ilog2 x \<le> x < 2 powi (ilog2 x + 1)\<close>.\<close>

definition ilog2 :: "rat \<Rightarrow> int" where
  "ilog2 x =
     (let (n, d) = quotient_of x; k = bitlen n - bitlen d in
      if 2 powi k \<le> x then k else k - 1)"

definition fl :: "rat \<Rightarrow> rat" where
  "fl x =
     (if x = 0 then 0
      else let u = 2 powi (ilog2 \<bar>x\<bar> - 52) in of_int (round_half_even (x / u)) * u)"

text \<open>A value that binary64 holds exactly.\<close>

definition representable :: "rat \<Rightarrow> bool" where
  "representable b \<longleftrightarrow> (\<exists>m k. b = of_int m * 2 powi k \<and> \<bar>m\<bar> \<le> 2 ^ 53)"

text \<open>\<^verbatim>\<open>int64(f)\<close> and \<^verbatim>\<open>time.Duration(f)\<close> discard the fraction.\<close>

definition trunc :: "rat \<Rightarrow> int" where
  "trunc x = (if x < 0 then \<lceil>x\<rceil> else \<lfloor>x\<rfloor>)"

lemma round_half_even_le: "x \<le> of_int n \<Longrightarrow> round_half_even x \<le> n"
proof -
  assume le: "x \<le> of_int n"
  have f: "\<lfloor>x\<rfloor> \<le> n" using le by linarith
  show ?thesis
  proof (cases "\<lfloor>x\<rfloor> = n")
    case True
    with le have "x - of_int \<lfloor>x\<rfloor> \<le> 0" by simp
    then show ?thesis using True by (simp add: round_half_even_def Let_def)
  next
    case False
    with f show ?thesis by (auto simp: round_half_even_def Let_def)
  qed
qed

lemma round_half_even_ge: "of_int n \<le> x \<Longrightarrow> n \<le> round_half_even x"
  by (auto simp: round_half_even_def Let_def) linarith+

lemma round_half_even_of_int [simp]: "round_half_even (of_int n) = n"
  by (simp add: round_half_even_def)

lemma pow2_less_iff: "(2::rat) powi a < 2 powi b \<longleftrightarrow> a < b"
  by (meson linorder_not_less one_le_numeral one_less_numeral_iff power_int_increasing
      power_int_strict_increasing semiring_norm(76))

lemma pow2_le_iff: "(2::rat) powi a \<le> 2 powi b \<longleftrightarrow> a \<le> b"
  by (meson linorder_not_less pow2_less_iff)

lemma bitlen_pos_bounds:
  assumes "0 < n"
  obtains a where "bitlen n = int a + 1" "2 ^ a \<le> n" "n < 2 ^ (a + 1)"
proof -
  have "0 < bitlen n"
    using assms by (metis bitlen_nonneg bitlen_eq_zero_iff linorder_not_less order_le_less)
  then have a: "bitlen n = int (nat (bitlen n - 1)) + 1" by simp
  then have "nat (bitlen n) = nat (bitlen n - 1) + 1" by linarith
  with bitlen_bounds [OF assms] a that show thesis by metis
qed

lemma ilog2_bounds:
  assumes "0 < x"
  shows "2 powi ilog2 x \<le> x" and "x < 2 powi (ilog2 x + 1)"
proof -
  obtain n d where q: "quotient_of x = (n, d)" by fastforce
  then have d: "0 < d" and x: "x = of_int n / of_int d"
    using quotient_of_denom_pos quotient_of_div by auto
  with assms have n: "0 < n" by (simp add: zero_less_divide_iff)
  obtain a where a: "bitlen n = int a + 1" "2 ^ a \<le> n" "n < 2 ^ (a + 1)"
    using n by (rule bitlen_pos_bounds)
  obtain b where b: "bitlen d = int b + 1" "2 ^ b \<le> d" "d < 2 ^ (b + 1)"
    using d by (rule bitlen_pos_bounds)
  let ?k = "bitlen n - bitlen d"
  have k: "?k = int a - int b" using a b by simp
  have a': "(2::rat) ^ a \<le> of_int n" "of_int n < (2::rat) ^ (a + 1)"
    using a by (metis of_int_le_iff of_int_less_iff of_int_numeral of_int_power)+
  have b': "(2::rat) ^ b \<le> of_int d" "of_int d < (2::rat) ^ (b + 1)"
    using b by (metis of_int_le_iff of_int_less_iff of_int_numeral of_int_power)+
  have "(2::rat) powi (?k - 1) = 2 ^ a / 2 ^ (b + 1)"
    by (simp add: k power_int_diff power_int_add)
  also have "\<dots> \<le> of_int n / of_int d"
    using a' b' n d by (intro frac_le) auto
  finally have lo: "2 powi (?k - 1) \<le> x" using x by simp
  have "of_int n / of_int d < (2::rat) ^ (a + 1) / 2 ^ b"
    using a' b' n d by (intro frac_less) auto
  also have "\<dots> = 2 powi (?k + 1)"
    by (simp add: k power_int_diff power_int_add)
  finally have hi: "x < 2 powi (?k + 1)" using x by simp
  show "2 powi ilog2 x \<le> x" using lo by (simp add: ilog2_def q Let_def)
  show "x < 2 powi (ilog2 x + 1)" using hi by (simp add: ilog2_def q Let_def)
qed

lemma ilog2_unique: "0 < x \<Longrightarrow> 2 powi e \<le> x \<Longrightarrow> x < 2 powi (e + 1) \<Longrightarrow> ilog2 x = e"
proof -
  assume x: "0 < x" "2 powi e \<le> x" "x < 2 powi (e + 1)"
  have "(2::rat) powi e < 2 powi (ilog2 x + 1)" "(2::rat) powi ilog2 x < 2 powi (e + 1)"
    using x ilog2_bounds [OF x(1)] by linarith+
  then have "e < ilog2 x + 1" "ilog2 x < e + 1"
    by (simp_all only: pow2_less_iff)
  then show ?thesis by simp
qed

lemma fl_0 [simp]: "fl 0 = 0"
  by (simp add: fl_def)

lemma round_half_even_uminus: "round_half_even (- x) = - round_half_even x"
proof (cases "x = of_int \<lfloor>x\<rfloor>")
  case True
  then show ?thesis by (metis of_int_minus round_half_even_of_int)
next
  case False
  then have "\<lfloor>- x\<rfloor> = - \<lfloor>x\<rfloor> - 1"
    by (intro floor_unique) (simp_all, linarith+)
  then show ?thesis by (auto simp: round_half_even_def Let_def)
qed

lemma fl_uminus: "fl (- x) = - fl x"
  by (simp add: fl_def Let_def round_half_even_uminus)

lemma representable_multiple:
  assumes "representable b" and "2 powi e \<le> b" and "b < 2 powi (e + 1)"
  shows "\<exists>n. b = of_int n * 2 powi (e - 52)"
proof -
  obtain m k where b: "b = of_int m * 2 powi k" and m: "\<bar>m\<bar> \<le> 2 ^ 53"
    using assms(1) by (auto simp: representable_def)
  show ?thesis
  proof (cases "e - 52 \<le> k")
    case True
    then have "(2::rat) powi k = 2 ^ nat (k - (e - 52)) * 2 powi (e - 52)"
      by (simp flip: power_int_of_nat power_int_add)
    then have "b = of_int (m * 2 ^ nat (k - (e - 52))) * 2 powi (e - 52)"
      using b by simp
    then show ?thesis by blast
  next
    case False
    have "of_int m \<le> (2::rat) ^ 53" using m by (metis abs_le_D1 of_int_le_iff of_int_numeral of_int_power)
    then have "b \<le> 2 ^ 53 * 2 powi k" unfolding b by (intro mult_right_mono) auto
    also have "\<dots> = 2 powi (k + 53)" by (simp add: power_int_add)
    also have "\<dots> \<le> 2 powi e" using False by (simp only: pow2_le_iff)
    finally have "b = 2 powi e" using assms(2) by simp
    also have "\<dots> = of_int (2 ^ 52) * 2 powi (e - 52)" by (simp add: power_int_diff)
    finally show ?thesis by blast
  qed
qed

text \<open>Rounding never crosses a representable value.\<close>

lemma fl_le_pos:
  assumes "0 < x" and "x \<le> b" and "representable b"
  shows "fl x \<le> b"
proof -
  define e where "e = ilog2 x"
  define u :: rat where "u = 2 powi (e - 52)"
  have u: "0 < u" by (simp add: u_def)
  have lo: "2 powi e \<le> x" and hi: "x < 2 powi (e + 1)"
    using ilog2_bounds [OF assms(1)] by (simp_all add: e_def)
  have fl: "fl x = of_int (round_half_even (x / u)) * u"
    using assms(1) by (simp add: fl_def Let_def e_def u_def)
  obtain n where n: "x \<le> of_int n * u" "of_int n * u \<le> b"
  proof (cases "b < 2 powi (e + 1)")
    case True
    have "\<exists>n. b = of_int n * 2 powi (e - 52)"
      using assms lo True by (intro representable_multiple) linarith+
    then show ?thesis using that assms(2) unfolding u_def by auto
  next
    case False
    have "of_int (2 ^ 53) * u = 2 powi (e + 1)"
      by (simp add: u_def power_int_diff power_int_add)
    then show ?thesis using that [of "2 ^ 53"] hi False by (metis less_imp_le linorder_not_less)
  qed
  from n(1) u have "x / u \<le> of_int n" by (simp add: pos_divide_le_eq)
  then have "round_half_even (x / u) \<le> n" by (rule round_half_even_le)
  then have "of_int (round_half_even (x / u)) * u \<le> of_int n * u" using u by simp
  with n(2) fl show ?thesis by simp
qed

lemma fl_ge_pos:
  assumes "0 < b" and "b \<le> x" and "representable b"
  shows "b \<le> fl x"
proof -
  define e where "e = ilog2 x"
  define u :: rat where "u = 2 powi (e - 52)"
  have x: "0 < x" using assms by simp
  have u: "0 < u" by (simp add: u_def)
  have lo: "2 powi e \<le> x" and hi: "x < 2 powi (e + 1)"
    using ilog2_bounds [OF x] by (simp_all add: e_def)
  have fl: "fl x = of_int (round_half_even (x / u)) * u"
    using x by (simp add: fl_def Let_def e_def u_def)
  obtain n where n: "of_int n * u \<le> x" "b \<le> of_int n * u"
  proof (cases "2 powi e \<le> b")
    case True
    have "\<exists>n. b = of_int n * 2 powi (e - 52)"
      using assms hi True by (intro representable_multiple) linarith+
    then show ?thesis using that assms(2) unfolding u_def by auto
  next
    case False
    have "of_int (2 ^ 52) * u = 2 powi e" by (simp add: u_def power_int_diff)
    then show ?thesis using that [of "2 ^ 52"] lo False by (metis less_imp_le linorder_not_less)
  qed
  from n(1) u have "of_int n \<le> x / u" by (simp add: pos_le_divide_eq)
  then have "n \<le> round_half_even (x / u)" by (rule round_half_even_ge)
  then have "of_int n * u \<le> of_int (round_half_even (x / u)) * u" using u by simp
  with n(2) fl show ?thesis by simp
qed

lemma representable_uminus [simp]: "representable (- b) \<longleftrightarrow> representable b"
proof -
  have *: "representable c \<Longrightarrow> representable (- c)" for c
    unfolding representable_def by (metis abs_minus_cancel mult_minus_left of_int_minus)
  from * [of b] * [of "- b"] show ?thesis by auto
qed

lemma fl_nonneg: "0 \<le> x \<Longrightarrow> 0 \<le> fl x"
proof -
  assume x: "0 \<le> x"
  let ?u = "2 powi (ilog2 \<bar>x\<bar> - 52) :: rat"
  have "0 \<le> round_half_even (x / ?u)"
    using x by (intro round_half_even_ge) simp
  then show ?thesis by (simp add: fl_def Let_def)
qed

lemma fl_le:
  assumes "x \<le> b" and "representable b"
  shows "fl x \<le> b"
proof (cases x "0 :: rat" rule: linorder_cases)
  case less
  show ?thesis
  proof (cases "b < 0")
    case True
    with assms have "- b \<le> fl (- x)" by (intro fl_ge_pos) auto
    then show ?thesis by (simp add: fl_uminus)
  next
    case False
    from less have "0 \<le> fl (- x)" by (intro fl_nonneg) simp
    with False show ?thesis by (simp add: fl_uminus)
  qed
qed (use assms fl_le_pos in auto)

lemma fl_ge:
  assumes "b \<le> x" and "representable b"
  shows "b \<le> fl x"
proof -
  have "fl (- x) \<le> - b" using assms by (intro fl_le) auto
  then show ?thesis by (simp add: fl_uminus)
qed

lemma fl_representable: "representable x \<Longrightarrow> fl x = x"
  by (meson fl_ge fl_le order.antisym order.refl)

lemma representable_of_int: "\<bar>n\<bar> \<le> 2 ^ 53 \<Longrightarrow> representable (of_int n)"
  unfolding representable_def by (intro exI [of _ n] exI [of _ 0]) simp

lemma representable_scale: "\<bar>n\<bar> \<le> 2 ^ 53 \<Longrightarrow> representable (of_int n * 2 powi k)"
  unfolding representable_def by blast

lemma representable_dyadic: "\<bar>m\<bar> \<le> 2 ^ 53 \<Longrightarrow> representable (of_int m * 2 ^ n / 2 ^ k)"
proof -
  assume "\<bar>m\<bar> \<le> 2 ^ 53"
  moreover have "(2::rat) ^ n / 2 ^ k = 2 powi (int n - int k)"
    by (simp add: power_int_diff)
  ultimately show ?thesis
    using representable_scale [of m "int n - int k"] by (metis times_divide_eq_right)
qed

lemma trunc_mono: "x \<le> y \<Longrightarrow> trunc x \<le> trunc y"
proof (cases "x < 0 \<and> \<not> y < 0")
  case True
  then have "trunc x \<le> 0" and "0 \<le> trunc y" by (simp_all add: trunc_def)
  then show ?thesis by linarith
next
  case False
  assume "x \<le> y"
  with False show ?thesis by (auto simp: trunc_def intro: floor_mono ceiling_mono)
qed

lemma trunc_of_int [simp]: "trunc (of_int n) = n"
  by (simp add: trunc_def)

lemma trunc_between: "of_int a \<le> x \<Longrightarrow> x \<le> of_int b \<Longrightarrow> a \<le> trunc x \<and> trunc x \<le> b"
  using trunc_mono [of "of_int a" x] trunc_mono [of x "of_int b"] by simp

text \<open>
  \<^verbatim>\<open>time.Duration(f)\<close>: truncation; a value outside the 64-bit range is converted to an
  implementation-dependent integer, the parameter \<open>oor\<close>.
\<close>

definition float_to_int64 :: "(rat \<Rightarrow> int) \<Rightarrow> rat \<Rightarrow> int" where
  "float_to_int64 oor x =
     (if - (2 ^ 63) \<le> trunc x \<and> trunc x < 2 ^ 63 then trunc x else oor x)"

lemma half_representable: "representable (1 / 2)" "representable (- (1 / 2))"
  "representable (1 / 4)" "representable (- (1 / 4))"
  using representable_dyadic [of 1 0 1] representable_dyadic [of 1 0 2] by simp_all

lemma trunc_abs: "\<bar>of_int (trunc x)\<bar> \<le> \<bar>x\<bar>"
proof (cases "x < 0")
  case True
  then have "x \<le> of_int \<lceil>x\<rceil>" "of_int \<lceil>x\<rceil> \<le> (0 :: rat)" by (simp_all add: ceiling_le_zero)
  with True show ?thesis by (simp only: trunc_def if_True)
next
  case False
  then have "of_int \<lfloor>x\<rfloor> \<le> x" "(0 :: rat) \<le> of_int \<lfloor>x\<rfloor>" by simp_all
  with False show ?thesis by (simp add: trunc_def)
qed

text \<open>A draw from the unit interval, centred, lies within a half; this is how jitter is made.\<close>

lemma centred_draw:
  assumes "0 \<le> u" and "u < 1"
  shows "\<bar>fl (u - 1 / 2)\<bar> \<le> 1 / 2"
proof -
  have "- (1 / 2) \<le> fl (u - 1 / 2)" "fl (u - 1 / 2) \<le> 1 / 2"
    using assms by (intro fl_ge fl_le half_representable; simp)+
  then show ?thesis by (simp add: abs_le_iff)
qed

lemma fl_abs_le: "\<bar>x\<bar> \<le> b \<Longrightarrow> representable b \<Longrightarrow> \<bar>fl x\<bar> \<le> b"
  using fl_le [of x b] fl_ge [of "- b" x] by (simp add: abs_le_iff)

lemma float_to_int64_small:
  assumes "\<bar>x\<bar> \<le> of_int b" and "b < 2 ^ 63"
  shows "float_to_int64 oor x = trunc x"
proof -
  have "of_int \<bar>trunc x\<bar> \<le> (of_int b :: rat)" using trunc_abs [of x] assms(1) by simp
  then have "\<bar>trunc x\<bar> \<le> b" by (simp only: of_int_le_iff)
  with assms(2) show ?thesis by (auto simp: float_to_int64_def)
qed

section \<open>Durations\<close>

text \<open>
  \<^verbatim>\<open>Duration.Seconds()\<close>: the whole seconds and the remaining nanoseconds are converted
  to floats and added; \<^verbatim>\<open>int(d.Seconds())\<close> truncates. \<^verbatim>\<open>Duration.Milliseconds()\<close> is an
  integer division.
\<close>

definition duration_seconds :: "duration \<Rightarrow> rat" where
  "duration_seconds d =
     fl (fl (of_int (go_quot d Second)) + fl (fl (of_int (go_rem d Second)) / 1000000000))"

definition int_seconds :: "duration \<Rightarrow> int" where
  "int_seconds d = trunc (duration_seconds d)"

definition duration_milliseconds :: "duration \<Rightarrow> int" where
  "duration_milliseconds d = go_quot d Millisecond"

lemma int_seconds_whole:
  assumes "0 \<le> s" and "s \<le> 2 ^ 53"
  shows "int_seconds (s * Second) = s"
proof -
  have "fl (of_int s) = of_int s"
    using assms by (intro fl_representable representable_of_int) simp
  then show ?thesis
    using assms by (simp add: int_seconds_def duration_seconds_def go_quot_nonneg go_rem_nonneg)
qed

lemma int_seconds_nonneg: "0 \<le> d \<Longrightarrow> 0 \<le> int_seconds d"
proof -
  assume d: "0 \<le> d"
  have "0 \<le> duration_seconds d"
    unfolding duration_seconds_def
    by (intro fl_nonneg add_nonneg_nonneg divide_nonneg_nonneg)
       (use d in \<open>simp_all add: go_quot_nonneg go_rem_nonneg\<close>)
  then show ?thesis by (simp add: int_seconds_def trunc_def)
qed

section \<open>Strings\<close>

text \<open>
  A Go string is a sequence of bytes; a HOL \<open>string\<close> is a list of \<open>char\<close>, and a \<open>char\<close> is
  a byte. \<open>itoa\<close> is \<^verbatim>\<open>strconv.Itoa\<close> and \<^verbatim>\<open>%d\<close>; \<open>atoi\<close> is \<^verbatim>\<open>strconv.Atoi\<close>: an optional sign,
  at least one decimal digit, a value that fits in 64 bits.
\<close>

fun digits :: "nat \<Rightarrow> string" where
  "digits n = (if n < 10 then [char_of (48 + n)] else digits (n div 10) @ [char_of (48 + n mod 10)])"

declare digits.simps [simp del]

definition itoa :: "int \<Rightarrow> string" where
  "itoa i = (if i < 0 then CHR ''-'' # digits (nat (- i)) else digits (nat i))"

definition is_digit :: "char \<Rightarrow> bool" where
  "is_digit c \<longleftrightarrow> 48 \<le> (of_char c :: nat) \<and> (of_char c :: nat) \<le> 57"

fun digits_value :: "string \<Rightarrow> nat" where
  "digits_value s = foldl (\<lambda>acc c. 10 * acc + (of_char c - 48)) 0 s"

definition parse_digits :: "string \<Rightarrow> nat option" where
  "parse_digits s = (if s \<noteq> [] \<and> list_all is_digit s then Some (digits_value s) else None)"

definition int64_range :: "int \<Rightarrow> int option" where
  "int64_range i = (if - (2 ^ 63) \<le> i \<and> i < 2 ^ 63 then Some i else None)"

definition atoi :: "string \<Rightarrow> int option" where
  "atoi s =
     (case s of
        [] \<Rightarrow> None
      | c # cs \<Rightarrow>
          if c = CHR ''-'' then Option.bind (parse_digits cs) (\<lambda>n. int64_range (- int n))
          else if c = CHR ''+'' then Option.bind (parse_digits cs) (\<lambda>n. int64_range (int n))
          else Option.bind (parse_digits s) (\<lambda>n. int64_range (int n)))"

text \<open>\<^verbatim>\<open>strings.ToLower\<close> on ASCII letters; \<^verbatim>\<open>strings.Contains\<close>, \<^verbatim>\<open>TrimPrefix\<close>, \<^verbatim>\<open>HasSuffix\<close>, \<^verbatim>\<open>TrimSuffix\<close>.\<close>

definition lower_char :: "char \<Rightarrow> char" where
  "lower_char c =
     (let n = (of_char c :: nat) in if 65 \<le> n \<and> n \<le> 90 then char_of (n + 32) else c)"

definition to_lower :: "string \<Rightarrow> string" where
  "to_lower = map lower_char"

fun contains :: "string \<Rightarrow> string \<Rightarrow> bool" where
  "contains sub [] = (sub = [])"
| "contains sub (c # cs) = (take (length sub) (c # cs) = sub \<or> contains sub cs)"

definition has_suffix :: "string \<Rightarrow> string \<Rightarrow> bool" where
  "has_suffix s suf \<longleftrightarrow> length suf \<le> length s \<and> drop (length s - length suf) s = suf"

definition trim_suffix :: "string \<Rightarrow> string \<Rightarrow> string" where
  "trim_suffix s suf = (if has_suffix s suf then take (length s - length suf) s else s)"

definition trim_prefix :: "string \<Rightarrow> string \<Rightarrow> string" where
  "trim_prefix s p = (if take (length p) s = p then drop (length p) s else s)"

lemma digit_char: "n < 10 \<Longrightarrow> of_char (char_of (48 + n :: nat) :: char) = 48 + n"
  by (simp add: of_char_of)

lemma is_digit_char: "n < 10 \<Longrightarrow> is_digit (char_of (48 + n :: nat))"
  by (simp only: is_digit_def digit_char) simp

lemma digits_are_digits: "list_all is_digit (digits n)"
proof (induction n rule: digits.induct)
  case (1 n)
  then show ?case
    by (subst digits.simps) (auto simp: is_digit_char)
qed

lemma digits_not_Nil [simp]: "digits n \<noteq> []"
  by (subst digits.simps) simp

lemma digits_value_digits: "digits_value (digits n) = n"
proof (induction n rule: digits.induct)
  case (1 n)
  then show ?case
    by (subst digits.simps) (auto simp: digit_char)
qed

lemma digits_inj: "digits m = digits n \<longleftrightarrow> m = n"
  by (metis digits_value_digits)

lemma parse_digits_digits [simp]: "parse_digits (digits n) = Some n"
  by (simp only: parse_digits_def digits_are_digits digits_value_digits) simp

lemma digits_hd: "digits n = c # cs \<Longrightarrow> is_digit c"
  using digits_are_digits [of n] by simp

lemma sign_not_digit: "\<not> is_digit CHR ''-''" "\<not> is_digit CHR ''+''" "\<not> is_digit CHR ''_''"
  by (simp_all add: is_digit_def)

text \<open>Printing then parsing a 64-bit integer gives it back; printing is injective.\<close>

lemma atoi_itoa:
  assumes "- (2 ^ 63) \<le> i" and "i < 2 ^ 63"
  shows "atoi (itoa i) = Some i"
proof (cases "i < 0")
  case True
  with assms show ?thesis by (simp add: itoa_def atoi_def int64_range_def)
next
  case False
  obtain c cs where d: "digits (nat i) = c # cs" by (cases "digits (nat i)") auto
  then have "c \<noteq> CHR ''-''" "c \<noteq> CHR ''+''"
    using digits_hd sign_not_digit by metis+
  moreover have "parse_digits (c # cs) = Some (nat i)"
    using parse_digits_digits [of "nat i"] d by simp
  ultimately show ?thesis
    using False assms d by (simp add: itoa_def atoi_def int64_range_def)
qed

lemma itoa_inj: "itoa i = itoa j \<longleftrightarrow> i = j"
proof
  assume eq: "itoa i = itoa j"
  have neg: "itoa k = CHR ''-'' # digits (nat (- k))" if "k < 0" for k
    using that by (simp add: itoa_def)
  have pos: "itoa k = digits (nat k)" "hd (itoa k) \<noteq> CHR ''-''" if "\<not> k < 0" for k
    using that digits_hd sign_not_digit
    by (simp_all add: itoa_def) (metis digits_not_Nil list.collapse)
  consider "i < 0" "j < 0" | "\<not> i < 0" "\<not> j < 0"
    using eq neg pos(2) by (metis list.sel(1))
  then show "i = j"
    by cases (use eq neg pos in \<open>auto simp: digits_inj\<close>)
qed simp

section \<open>Errors and panics\<close>

text \<open>
  A Go \<^verbatim>\<open>error\<close> value. The first constructors are the sentinels the sources compare with;
  \<open>TextprotoError\<close> is \<^verbatim>\<open>*textproto.Error\<close> with its reply code and message; \<open>PlainErr\<close> is any
  other leaf; \<open>Wrapf\<close> is a wrapping error with its whole text and the errors it wraps
  (one for each \<^verbatim>\<open>%w\<close>).
\<close>

datatype go_error =
    ErrSkippable
  | ErrPermanent
  | ErrNotExist
  | ErrCanceled
  | ErrDeadlineExceeded
  | ErrUnknownProtocol
  | ErrPoolClosed
  | TextprotoError int string
  | PlainErr string
  | Wrapf string "go_error list"

text \<open>\<^verbatim>\<open>errors.Is\<close> for a sentinel target, and \<^verbatim>\<open>errors.As\<close> for \<^verbatim>\<open>*textproto.Error\<close>: depth first.\<close>

fun errors_is :: "go_error \<Rightarrow> go_error \<Rightarrow> bool" where
  "errors_is (Wrapf m es) t = list_ex (\<lambda>e. errors_is e t) es"
| "errors_is e t = (e = t)"

fun as_textproto :: "go_error \<Rightarrow> (int \<times> string) option" and
  as_textproto_list :: "go_error list \<Rightarrow> (int \<times> string) option" where
  "as_textproto (TextprotoError c m) = Some (c, m)"
| "as_textproto (Wrapf m es) = as_textproto_list es"
| "as_textproto _ = None"
| "as_textproto_list [] = None"
| "as_textproto_list (e # es) =
     (case as_textproto e of None \<Rightarrow> as_textproto_list es | Some t \<Rightarrow> Some t)"

text \<open>\<^verbatim>\<open>err.Error()\<close>.\<close>

fun err_text :: "go_error \<Rightarrow> string" where
  "err_text ErrSkippable = ''skippable: job intentionally not transferred, audit only''"
| "err_text ErrPermanent = ''permanent: do not retry, mark dead''"
| "err_text ErrNotExist = ''file does not exist''"
| "err_text ErrCanceled = ''context canceled''"
| "err_text ErrDeadlineExceeded = ''context deadline exceeded''"
| "err_text ErrUnknownProtocol = ''unknown protocol''"
| "err_text ErrPoolClosed = ''ftp pool: closed''"
| "err_text (TextprotoError c m) = itoa c @ '' '' @ m"
| "err_text (PlainErr m) = m"
| "err_text (Wrapf m es) = m"

text \<open>\<^verbatim>\<open>fmt.Errorf(prefix + "%w", err)\<close>.\<close>

definition wrap_err :: "string \<Rightarrow> go_error \<Rightarrow> go_error" where
  "wrap_err p e = Wrapf (p @ err_text e) [e]"

lemma errors_is_wrap_err [simp]: "errors_is (wrap_err p e) t \<longleftrightarrow> errors_is e t"
  by (simp add: wrap_err_def)

text \<open>The result of a call that may panic.\<close>

datatype 'a go = Ret 'a | Panic string

end
