(* ===== verification/Queue_DB.thy ===== *)
theory Queue_DB
  imports Go_Lib
begin

text \<open>
  The two tables of the control database (\<^verbatim>\<open>migrations/0001_initial.up.sql\<close>), the SQL
  statement shapes the program issues on them, and the invariant of the tables:
  the schema's constraints, the lock columns, the retry budget and the audit trail.
\<close>

section \<open>Schema\<close>

datatype job_status = Pending | Leased | Succeeded | Skipped | Dead

datatype event_status =
  Ev_enqueue | Ev_lease | Ev_success | Ev_skip | Ev_fail | Ev_expire | Ev_dead

text \<open>
  A row of \<^verbatim>\<open>transfer_jobs\<close>, which is also the \<^verbatim>\<open>Job\<close> snapshot that \<^verbatim>\<open>LeaseJob\<close> scans
  from it. \<^verbatim>\<open>NULL\<close> lock columns are \<open>None\<close>.
\<close>

record Job =
  ID :: int
  TraceID :: string
  Src :: string
  Dst :: string
  SrcProtocol :: string
  DstProtocol :: string
  Payload :: string
  Status :: job_status
  Attempts :: int
  MaxAttempts :: int
  LockedAt :: "timestamp option"
  LockedBy :: "string option"
  NextRunAt :: timestamp
  CreatedAt :: timestamp
  UpdatedAt :: timestamp

text \<open>The JSON value in \<^verbatim>\<open>transfer_events.detail\<close>: an object the worker builds, or a raw payload.\<close>

datatype jval = JStr string | JInt int
datatype detail = JObj "(string \<times> jval) list" | JRaw string

record transfer_event =
  ev_trace_id :: string
  ev_job_id :: int
  ev_ts :: timestamp
  ev_status :: event_status
  ev_detail :: detail

text \<open>
  The database: both tables in insertion order, and the \<^verbatim>\<open>BIGSERIAL\<close> sequence behind
  \<^verbatim>\<open>transfer_jobs.id\<close>.
\<close>

record db =
  transfer_jobs :: "Job list"
  transfer_events :: "transfer_event list"
  next_id :: int

definition empty_db :: db where
  "empty_db = \<lparr>transfer_jobs = [], transfer_events = [], next_id = 1\<rparr>"

fun terminal :: "job_status \<Rightarrow> bool" where
  "terminal Pending = False"
| "terminal Leased = False"
| "terminal _ = True"

section \<open>Statements\<close>

text \<open>
  What a client sees of one statement sent to the server: it ran; it did not run and an
  error came back; or it ran and the reply was lost, so the client sees an error.
\<close>

datatype db_outcome = DB_Ok | DB_Fail go_error | DB_Lost go_error

fun pg_exec :: "db_outcome \<Rightarrow> ('d \<Rightarrow> 'r \<times> 'd) \<Rightarrow> 'd \<Rightarrow> (go_error + 'r) \<times> 'd" where
  "pg_exec DB_Ok f d = (let (r, d') = f d in (Inr r, d'))"
| "pg_exec (DB_Fail e) f d = (Inl e, d)"
| "pg_exec (DB_Lost e) f d = (Inl e, snd (f d))"

text \<open>A row as \<^verbatim>\<open>INSERT INTO transfer_jobs\<close> makes it, with the schema's defaults.\<close>

definition new_row ::
  "timestamp \<Rightarrow> int \<Rightarrow> string \<Rightarrow> string \<Rightarrow> string \<Rightarrow> string \<Rightarrow> string \<Rightarrow> string \<Rightarrow> int \<Rightarrow> Job"
where
  "new_row now i tid s d sp dp pl mx =
     \<lparr>ID = i, TraceID = tid, Src = s, Dst = d, SrcProtocol = sp, DstProtocol = dp,
      Payload = pl, Status = Pending, Attempts = 0, MaxAttempts = mx,
      LockedAt = None, LockedBy = None,
      NextRunAt = now, CreatedAt = now, UpdatedAt = now\<rparr>"

text \<open>
  \<^verbatim>\<open>INSERT ... ON CONFLICT (trace_id, dst) DO NOTHING RETURNING id\<close>. The sequence
  advances whether or not the row conflicts.
\<close>

definition key_taken :: "string \<Rightarrow> string \<Rightarrow> db \<Rightarrow> bool" where
  "key_taken tid d D \<longleftrightarrow> list_ex (\<lambda>j. TraceID j = tid \<and> Dst j = d) (transfer_jobs D)"

definition insert_job ::
  "timestamp \<Rightarrow> string \<Rightarrow> string \<Rightarrow> string \<Rightarrow> string \<Rightarrow> string \<Rightarrow> string \<Rightarrow> int \<Rightarrow>
   db \<Rightarrow> int option \<times> db"
where
  "insert_job now tid s d sp dp pl mx D =
     (let i = next_id D; D' = D\<lparr>next_id := i + 1\<rparr> in
      if key_taken tid d D then (None, D')
      else (Some i, D'\<lparr>transfer_jobs := transfer_jobs D @ [new_row now i tid s d sp dp pl mx]\<rparr>))"

definition insert_event ::
  "timestamp \<Rightarrow> string \<Rightarrow> int \<Rightarrow> event_status \<Rightarrow> detail \<Rightarrow> db \<Rightarrow> db"
where
  "insert_event now tid i st det D =
     D\<lparr>transfer_events := transfer_events D @
        [\<lparr>ev_trace_id = tid, ev_job_id = i, ev_ts = now, ev_status = st, ev_detail = det\<rparr>]\<rparr>"

text \<open>
  The writable CTE of the worker's outcome writes: \<^verbatim>\<open>UPDATE ... WHERE id=$1 AND
  status='leased' AND locked_by=$2 RETURNING trace_id\<close>, and one event for every row the
  update matched. The result is the number of inserted events.
\<close>

definition holds_lease :: "int \<Rightarrow> string \<Rightarrow> Job \<Rightarrow> bool" where
  "holds_lease i w j \<longleftrightarrow> ID j = i \<and> Status j = Leased \<and> LockedBy j = Some w"

definition guarded_write ::
  "timestamp \<Rightarrow> int \<Rightarrow> string \<Rightarrow> (Job \<Rightarrow> Job) \<Rightarrow> event_status \<Rightarrow> detail \<Rightarrow> db \<Rightarrow> int \<times> db"
where
  "guarded_write now i w f st det D =
     (let u = filter (holds_lease i w) (transfer_jobs D) in
      (int (length u),
       D\<lparr>transfer_jobs := upd_where (holds_lease i w) f (transfer_jobs D),
         transfer_events := transfer_events D @
           map (\<lambda>j. \<lparr>ev_trace_id = TraceID j, ev_job_id = i, ev_ts = now,
                     ev_status = st, ev_detail = det\<rparr>) u\<rparr>))"

text \<open>\<^verbatim>\<open>DELETE FROM transfer_jobs\<close> with the events' \<^verbatim>\<open>ON DELETE CASCADE\<close>.\<close>

definition delete_jobs :: "int list \<Rightarrow> db \<Rightarrow> db" where
  "delete_jobs is D =
     D\<lparr>transfer_jobs := filter (\<lambda>j. ID j \<notin> set is) (transfer_jobs D),
       transfer_events := filter (\<lambda>e. ev_job_id e \<notin> set is) (transfer_events D)\<rparr>"

text \<open>A rolled-back transaction leaves the tables; sequence values are not given back.\<close>

definition rollback :: "db \<Rightarrow> db \<Rightarrow> db" where
  "rollback D0 D1 = D0\<lparr>next_id := next_id D1\<rparr>"

text \<open>\<^verbatim>\<open>COMMIT\<close> of a transaction that began in \<open>D0\<close> and has reached \<open>D1\<close>, with the source's error prefix.\<close>

fun commit :: "string \<Rightarrow> db_outcome \<Rightarrow> 'r \<Rightarrow> db \<Rightarrow> db \<Rightarrow> (go_error + 'r) \<times> db" where
  "commit pre DB_Ok r D0 D1 = (Inr r, D1)"
| "commit pre (DB_Fail e) r D0 D1 = (Inl (wrap_err pre e), rollback D0 D1)"
| "commit pre (DB_Lost e) r D0 D1 = (Inl (wrap_err pre e), D1)"

section \<open>The invariant of the tables\<close>

text \<open>The schema: primary key, unique key, foreign key of the events.\<close>

definition schema_ok :: "db \<Rightarrow> bool" where
  "schema_ok D \<longleftrightarrow>
     distinct (map ID (transfer_jobs D)) \<and>
     (\<forall>j \<in> set (transfer_jobs D). ID j < next_id D) \<and>
     distinct (map (\<lambda>j. (TraceID j, Dst j)) (transfer_jobs D)) \<and>
     (\<forall>e \<in> set (transfer_events D). \<exists>j \<in> set (transfer_jobs D).
        ID j = ev_job_id e \<and> TraceID j = ev_trace_id e)"

text \<open>One row: a row is locked exactly while it is leased, and has budget until it is terminal.\<close>

definition row_ok :: "Job \<Rightarrow> bool" where
  "row_ok j \<longleftrightarrow>
     (LockedBy j \<noteq> None \<longleftrightarrow> Status j = Leased) \<and>
     (LockedAt j \<noteq> None \<longleftrightarrow> Status j = Leased) \<and>
     0 \<le> Attempts j \<and> Attempts j \<le> MaxAttempts j \<and>
     (terminal (Status j) \<or> Attempts j < MaxAttempts j)"

text \<open>The audit trail of one row: how many events of a kind it has.\<close>

definition ev_count :: "event_status \<Rightarrow> int \<Rightarrow> transfer_event list \<Rightarrow> nat" where
  "ev_count st i es = count_if (\<lambda>e. ev_job_id e = i \<and> ev_status e = st) es"

definition audit_ok :: "db \<Rightarrow> Job \<Rightarrow> bool" where
  "audit_ok D j \<longleftrightarrow>
     ev_count Ev_success (ID j) (transfer_events D) = (if Status j = Succeeded then 1 else 0) \<and>
     ev_count Ev_skip (ID j) (transfer_events D) = (if Status j = Skipped then 1 else 0) \<and>
     ev_count Ev_dead (ID j) (transfer_events D) = (if Status j = Dead then 1 else 0) \<and>
     int (ev_count Ev_fail (ID j) (transfer_events D)) +
       int (ev_count Ev_dead (ID j) (transfer_events D)) = Attempts j"

definition db_ok :: "db \<Rightarrow> bool" where
  "db_ok D \<longleftrightarrow> schema_ok D \<and> (\<forall>j \<in> set (transfer_jobs D). row_ok j \<and> audit_ok D j)"

section \<open>Counting events\<close>

lemma ev_count_append [simp]: "ev_count st i (xs @ ys) = ev_count st i xs + ev_count st i ys"
  by (simp add: ev_count_def)

lemma ev_count_Nil [simp]: "ev_count st i [] = 0"
  by (simp add: ev_count_def)

lemma ev_count_Cons [simp]:
  "ev_count st i (e # es) =
     (if ev_job_id e = i \<and> ev_status e = st then Suc (ev_count st i es) else ev_count st i es)"
  by (simp add: ev_count_def)

lemma ev_count_other_id: "(\<And>e. e \<in> set es \<Longrightarrow> ev_job_id e \<noteq> i) \<Longrightarrow> ev_count st i es = 0"
  by (auto simp: ev_count_def count_if_zero_iff)

lemma ev_count_filter_id: "q i \<Longrightarrow> ev_count st i (filter (\<lambda>e. q (ev_job_id e)) es) = ev_count st i es"
  by (induction es) auto

lemma audit_ok_cong:
  "(\<And>st. st \<in> {Ev_success, Ev_skip, Ev_fail, Ev_dead} \<Longrightarrow>
      ev_count st (ID j) (transfer_events D') = ev_count st (ID j) (transfer_events D)) \<Longrightarrow>
   audit_ok D' j \<longleftrightarrow> audit_ok D j"
  by (simp add: audit_ok_def)

lemma audit_ok_frame [simp]:
  "audit_ok (D\<lparr>transfer_jobs := js\<rparr>) j \<longleftrightarrow> audit_ok D j"
  "audit_ok (D\<lparr>next_id := n\<rparr>) j \<longleftrightarrow> audit_ok D j"
  by (simp_all add: audit_ok_def)

text \<open>The audit of a row does not depend on which non-terminal status it has.\<close>

lemma audit_ok_nonterminal:
  "ID k = ID j \<Longrightarrow> Attempts k = Attempts j \<Longrightarrow> \<not> terminal (Status j) \<Longrightarrow> \<not> terminal (Status k) \<Longrightarrow>
   audit_ok D k \<longleftrightarrow> audit_ok D j"
  by (cases "Status j"; cases "Status k") (simp_all add: audit_ok_def)

section \<open>Preservation by the statements\<close>

lemma db_okD:
  assumes "db_ok D"
  shows "distinct (map ID (transfer_jobs D))"
    and "distinct (map (\<lambda>j. (TraceID j, Dst j)) (transfer_jobs D))"
    and "j \<in> set (transfer_jobs D) \<Longrightarrow> row_ok j"
    and "j \<in> set (transfer_jobs D) \<Longrightarrow> audit_ok D j"
    and "j \<in> set (transfer_jobs D) \<Longrightarrow> ID j < next_id D"
    and "e \<in> set (transfer_events D) \<Longrightarrow>
           \<exists>j \<in> set (transfer_jobs D). ID j = ev_job_id e \<and> TraceID j = ev_trace_id e"
  using assms by (auto simp: db_ok_def schema_ok_def)

lemma db_ok_empty [simp]: "db_ok empty_db"
  by (simp add: db_ok_def schema_ok_def empty_db_def)

lemma db_ok_next_id: "db_ok D \<Longrightarrow> next_id D \<le> n \<Longrightarrow> db_ok (D\<lparr>next_id := n\<rparr>)"
  by (fastforce simp: db_ok_def schema_ok_def)

text \<open>Updating rows without touching keys or events.\<close>

definition same_key :: "Job \<Rightarrow> Job \<Rightarrow> bool" where
  "same_key k j \<longleftrightarrow> ID k = ID j \<and> TraceID k = TraceID j \<and> Dst k = Dst j"

lemma schema_ok_upd_where:
  assumes "schema_ok D"
    and key: "\<And>j. j \<in> set (transfer_jobs D) \<Longrightarrow> p j \<Longrightarrow> same_key (f j) j"
  shows "schema_ok (D\<lparr>transfer_jobs := upd_where p f (transfer_jobs D)\<rparr>)"
proof -
  let ?js = "transfer_jobs D"
  have "map ID (upd_where p f ?js) = map ID ?js"
    and "map (\<lambda>j. (TraceID j, Dst j)) (upd_where p f ?js) = map (\<lambda>j. (TraceID j, Dst j)) ?js"
    by (rule map_upd_where; simp add: key [unfolded same_key_def])+
  moreover have "\<exists>k \<in> set (upd_where p f ?js). ID k = ID j \<and> TraceID k = TraceID j"
    if "j \<in> set ?js" for j
    using that key [OF that]
    by (auto simp: set_upd_where same_key_def intro!: rev_bexI [OF that] split: if_splits)
  moreover have "ID k < next_id D" if "k \<in> set (upd_where p f ?js)" for k
    using that assms(1) key
    by (auto elim!: in_upd_whereE simp: schema_ok_def same_key_def)
  ultimately show ?thesis
    using assms(1) unfolding schema_ok_def by simp metis
qed

lemma db_ok_upd_where:
  assumes "db_ok D"
    and "\<And>j. j \<in> set (transfer_jobs D) \<Longrightarrow> p j \<Longrightarrow> row_ok j \<Longrightarrow> audit_ok D j \<Longrightarrow>
           same_key (f j) j \<and> row_ok (f j) \<and> audit_ok D (f j)"
  shows "db_ok (D\<lparr>transfer_jobs := upd_where p f (transfer_jobs D)\<rparr>)"
proof -
  let ?D = "D\<lparr>transfer_jobs := upd_where p f (transfer_jobs D)\<rparr>"
  have "schema_ok ?D"
    using assms by (intro schema_ok_upd_where) (auto simp: db_ok_def)
  moreover have "row_ok k \<and> audit_ok ?D k" if "k \<in> set (transfer_jobs ?D)" for k
    using that assms by (auto elim!: in_upd_whereE simp: db_ok_def)
  ultimately show ?thesis by (simp add: db_ok_def)
qed

text \<open>Events that are not outcomes (enqueue, lease, expire) do not disturb the audit.\<close>

definition neutral :: "event_status \<Rightarrow> bool" where
  "neutral st \<longleftrightarrow> st \<in> {Ev_enqueue, Ev_lease, Ev_expire}"

lemma db_ok_neutral_events:
  assumes "db_ok D"
    and "\<And>e. e \<in> set es \<Longrightarrow> neutral (ev_status e) \<and>
           (\<exists>j \<in> set (transfer_jobs D). ID j = ev_job_id e \<and> TraceID j = ev_trace_id e)"
  shows "db_ok (D\<lparr>transfer_events := transfer_events D @ es\<rparr>)"
proof -
  have "ev_count st i es = 0" if "st \<in> {Ev_success, Ev_skip, Ev_fail, Ev_dead}" for st i
    using assms(2) that by (fastforce simp: ev_count_def count_if_zero_iff neutral_def)
  then have "audit_ok (D\<lparr>transfer_events := transfer_events D @ es\<rparr>) j \<longleftrightarrow> audit_ok D j" for j
    by (intro audit_ok_cong) simp
  then show ?thesis
    using assms by (auto simp: db_ok_def schema_ok_def)
qed

lemma db_ok_insert_event [step_intros]:
  assumes "db_ok D" and "neutral st"
    and "\<exists>j \<in> set (transfer_jobs D). ID j = i \<and> TraceID j = tid"
  shows "db_ok (insert_event now tid i st det D)"
  unfolding insert_event_def using assms by (intro db_ok_neutral_events) auto

lemma key_taken_iff: "key_taken tid d D \<longleftrightarrow> (tid, d) \<in> (\<lambda>j. (TraceID j, Dst j)) ` set (transfer_jobs D)"
  by (auto simp: key_taken_def list_ex_iff image_iff)

lemma fresh_id_no_events:
  assumes "db_ok D"
  shows "ev_count st (next_id D) (transfer_events D) = 0"
proof (rule ev_count_other_id)
  fix e assume "e \<in> set (transfer_events D)"
  then obtain j where "j \<in> set (transfer_jobs D)" "ID j = ev_job_id e"
    using db_okD(6) [OF assms] by blast
  then show "ev_job_id e \<noteq> next_id D" using db_okD(5) [OF assms, of j] by simp
qed

lemma db_ok_insert_job [step_intros]:
  assumes "db_ok D" and "1 \<le> mx"
  shows "db_ok (snd (insert_job now tid s d sp dp pl mx D))"
proof (cases "key_taken tid d D")
  case True
  then show ?thesis
    using assms db_ok_next_id [of D "next_id D + 1"] by (simp add: insert_job_def Let_def)
next
  case False
  let ?r = "new_row now (next_id D) tid s d sp dp pl mx"
  let ?D = "D\<lparr>next_id := next_id D + 1, transfer_jobs := transfer_jobs D @ [?r]\<rparr>"
  have id: "next_id D \<notin> ID ` set (transfer_jobs D)"
    using db_okD(5) [OF assms(1)] by fastforce
  have "schema_ok ?D"
    using db_okD [OF assms(1)] id False
    by (fastforce simp: schema_ok_def key_taken_iff new_row_def)
  moreover have "row_ok ?r \<and> audit_ok ?D ?r"
    using assms(2) fresh_id_no_events [OF assms(1)]
    by (simp add: row_ok_def audit_ok_def new_row_def)
  moreover have "row_ok j \<and> audit_ok ?D j" if "j \<in> set (transfer_jobs D)" for j
    using that assms(1) by (simp add: db_ok_def)
  ultimately have "db_ok ?D" by (auto simp: db_ok_def)
  with False show ?thesis by (simp add: insert_job_def Let_def)
qed

lemma next_id_insert_job [simp]: "next_id (snd (insert_job now t s d sp dp pl mx D)) = next_id D + 1"
  by (simp add: insert_job_def Let_def)

lemma next_id_insert_event [simp]: "next_id (insert_event now t i st det D) = next_id D"
  by (simp add: insert_event_def)

lemma insert_job_Some:
  "insert_job now t s d sp dp pl mx D = (Some i, D1) \<longleftrightarrow>
     \<not> key_taken t d D \<and> i = next_id D \<and>
     D1 = D\<lparr>next_id := next_id D + 1,
            transfer_jobs := transfer_jobs D @ [new_row now (next_id D) t s d sp dp pl mx]\<rparr>"
  by (auto simp: insert_job_def Let_def)

lemma insert_job_None:
  "insert_job now t s d sp dp pl mx D = (None, D1) \<longleftrightarrow>
     key_taken t d D \<and> D1 = D\<lparr>next_id := next_id D + 1\<rparr>"
  by (auto simp: insert_job_def Let_def)

lemma db_ok_delete_jobs [step_intros]:
  assumes "db_ok D"
  shows "db_ok (delete_jobs is D)"
proof -
  let ?D = "delete_jobs is D"
  have "audit_ok ?D j \<longleftrightarrow> audit_ok D j" if "ID j \<notin> set is" for j
    using that by (intro audit_ok_cong) (simp add: delete_jobs_def ev_count_filter_id [where q = "\<lambda>i. i \<notin> set is"])
  then show ?thesis
    using assms by (fastforce simp: db_ok_def schema_ok_def delete_jobs_def distinct_map_filter)
qed

lemma db_ok_rollback [step_intros]: "db_ok D \<Longrightarrow> next_id D \<le> next_id D' \<Longrightarrow> db_ok (rollback D D')"
  by (simp add: rollback_def db_ok_next_id)

lemma rollback_tables [simp]:
  "transfer_jobs (rollback D0 D1) = transfer_jobs D0"
  "transfer_events (rollback D0 D1) = transfer_events D0"
  "next_id (rollback D0 D1) = next_id D1"
  by (simp_all add: rollback_def)

lemma rollback_same [simp]: "next_id D1 = next_id D0 \<Longrightarrow> rollback D0 D1 = D0"
  by (simp add: rollback_def)

lemma commit_Inr: "commit pre c r D0 D1 = (Inr s, D2) \<longleftrightarrow> c = DB_Ok \<and> s = r \<and> D2 = D1"
  by (cases c) auto

lemma commit_cases:
  obtains "snd (commit pre c r D0 D1) = D1" | "snd (commit pre c r D0 D1) = rollback D0 D1"
  by (cases c) auto

lemma db_ok_commit [step_intros]:
  "db_ok D0 \<Longrightarrow> db_ok D1 \<Longrightarrow> next_id D0 \<le> next_id D1 \<Longrightarrow> db_ok (snd (commit pre c r D0 D1))"
  by (cases c) (auto intro: db_ok_rollback)

lemma pg_exec_cases:
  obtains (ran) "snd (pg_exec o' f D) = snd (f D)" | (skipped) "snd (pg_exec o' f D) = D"
  by (cases o') (auto simp: case_prod_unfold Let_def)

lemma db_ok_pg_exec [step_intros]:
  "db_ok D \<Longrightarrow> db_ok (snd (f D)) \<Longrightarrow> db_ok (snd (pg_exec o' f D))"
  by (cases o') (simp_all add: case_prod_unfold Let_def)

section \<open>Outcome writes\<close>

text \<open>The status an outcome event goes with, and the attempts it charges.\<close>

fun outcome_status :: "event_status \<Rightarrow> job_status option" where
  "outcome_status Ev_success = Some Succeeded"
| "outcome_status Ev_skip = Some Skipped"
| "outcome_status Ev_dead = Some Dead"
| "outcome_status Ev_fail = Some Pending"
| "outcome_status _ = None"

fun charge :: "event_status \<Rightarrow> int" where
  "charge Ev_dead = 1"
| "charge Ev_fail = 1"
| "charge _ = 0"

text \<open>
  The contract between the guarded write and the \<^verbatim>\<open>SET\<close> clause of an outcome: the clause
  keeps the key and the budget, clears both lock columns, moves to the outcome's status and
  stores the attempts it was given when they are the row's attempts plus the charge.
\<close>

locale lease_outcome =
  fixes set_row :: "timestamp \<Rightarrow> int \<Rightarrow> Job \<Rightarrow> Job"
    and ev :: event_status
  assumes keeps_key: "same_key (set_row t a j) j"
    and keeps_budget: "MaxAttempts (set_row t a j) = MaxAttempts j"
    and unlocks: "LockedBy (set_row t a j) = None" "LockedAt (set_row t a j) = None"
    and moves: "outcome_status ev = Some (Status (set_row t a j))"
    and charges: "a = Attempts j + charge ev \<Longrightarrow> Attempts (set_row t a j) = a"
begin

lemma row_ok_set_row:
  assumes "row_ok j" and "Status j = Leased" and "a = Attempts j + charge ev"
    and "ev = Ev_fail \<Longrightarrow> a < MaxAttempts j"
  shows "row_ok (set_row t a j)"
  using assms unlocks [of t a j] keeps_budget [of t a j] moves [of t a j] charges [OF assms(3), of t]
  by (cases ev) (auto simp: row_ok_def)

lemma audit_ok_set_row:
  assumes "audit_ok D j" and "Status j = Leased" and "a = Attempts j + charge ev"
    and "transfer_events D' = transfer_events D @ [e]"
    and "ev_job_id e = ID j" and "ev_status e = ev"
  shows "audit_ok D' (set_row t a j)"
  using assms keeps_key [of t a j] moves [of t a j] charges [OF assms(3), of t]
  by (cases ev) (auto simp: audit_ok_def same_key_def)

text \<open>Without the lease the write does nothing.\<close>

lemma write_lost:
  assumes "\<And>j. j \<in> set (transfer_jobs D) \<Longrightarrow> \<not> holds_lease i w j"
  shows "guarded_write now i w (set_row now a) ev det D = (0, D)"
proof -
  from assms have "filter (holds_lease i w) (transfer_jobs D) = []"
    by (simp add: filter_empty_conv)
  moreover from assms have "upd_where (holds_lease i w) (set_row now a) (transfer_jobs D) = transfer_jobs D"
    by (rule upd_where_none)
  ultimately show ?thesis by (simp add: guarded_write_def)
qed

text \<open>With the lease it moves exactly that row and adds exactly one event.\<close>

lemma write_held:
  assumes "distinct (map ID (transfer_jobs D))" and "j \<in> set (transfer_jobs D)"
    and "holds_lease i w j"
  shows "guarded_write now i w (set_row now a) ev det D =
    (1, D\<lparr>transfer_jobs := upd_where (\<lambda>k. ID k = i) (set_row now a) (transfer_jobs D),
          transfer_events := transfer_events D @
            [\<lparr>ev_trace_id = TraceID j, ev_job_id = i, ev_ts = now, ev_status = ev, ev_detail = det\<rparr>]\<rparr>)"
proof -
  have only: "holds_lease i w k \<longleftrightarrow> ID k = i" if "k \<in> set (transfer_jobs D)" for k
    using that assms distinct_map_eq [OF assms(1), of k j] by (auto simp: holds_lease_def)
  have "filter (holds_lease i w) (transfer_jobs D) = filter (\<lambda>k. ID k = ID j) (transfer_jobs D)"
    using only assms(3) by (intro filter_cong) (auto simp: holds_lease_def)
  then have "filter (holds_lease i w) (transfer_jobs D) = [j]"
    using filter_key_single [OF assms(1,2)] by simp
  moreover have "upd_where (holds_lease i w) (set_row now a) (transfer_jobs D) =
      upd_where (\<lambda>k. ID k = i) (set_row now a) (transfer_jobs D)"
    using only by (auto simp: upd_where_def)
  ultimately show ?thesis by (simp add: guarded_write_def)
qed

lemma write_ok:
  assumes ok: "db_ok D"
    and a: "\<And>j. j \<in> set (transfer_jobs D) \<Longrightarrow> holds_lease i w j \<Longrightarrow>
        a = Attempts j + charge ev \<and> (ev = Ev_fail \<longrightarrow> a < MaxAttempts j)"
  shows "db_ok (snd (guarded_write now i w (set_row now a) ev det D))"
proof (cases "\<exists>j \<in> set (transfer_jobs D). holds_lease i w j")
  case False
  then show ?thesis using ok write_lost by simp
next
  case True
  then obtain j where j: "j \<in> set (transfer_jobs D)" "holds_lease i w j" by blast
  note d = db_okD(1) [OF ok]
  let ?D = "snd (guarded_write now i w (set_row now a) ev det D)"
  note D' = write_held [OF d j, of now a det]
  have ij: "ID j = i" "Status j = Leased" using j by (simp_all add: holds_lease_def)
  have "schema_ok (D\<lparr>transfer_jobs := upd_where (\<lambda>k. ID k = i) (set_row now a) (transfer_jobs D)\<rparr>)"
    using ok keeps_key by (intro schema_ok_upd_where) (auto simp: db_ok_def)
  moreover have "\<exists>k \<in> set (upd_where (\<lambda>k. ID k = i) (set_row now a) (transfer_jobs D)).
      ID k = i \<and> TraceID k = TraceID j"
    using j ij keeps_key [of now a j] by (force simp: set_upd_where same_key_def)
  ultimately have "schema_ok ?D"
    unfolding D' by (auto simp: schema_ok_def)
  moreover have "row_ok k \<and> audit_ok ?D k" if "k \<in> set (transfer_jobs ?D)" for k
  proof -
    from that have "k \<in> set (upd_where (\<lambda>k. ID k = i) (set_row now a) (transfer_jobs D))"
      by (simp add: D')
    then show ?thesis
    proof (cases rule: in_upd_whereE)
      case (hit x)
      then have x: "k = set_row now a j" using distinct_map_eq [OF d _ j(1)] ij by simp
      from a [OF j] have aj: "a = Attempts j + charge ev" "ev = Ev_fail \<Longrightarrow> a < MaxAttempts j"
        by auto
      have "row_ok k"
        unfolding x using db_okD(3) [OF ok j(1)] ij(2) aj by (rule row_ok_set_row)
      moreover have "audit_ok ?D k"
        unfolding x using db_okD(4) [OF ok j(1)] ij(2) aj(1)
        by (rule audit_ok_set_row) (simp add: D', simp_all add: ij(1))
      ultimately show ?thesis ..
    next
      case miss
      then have "audit_ok ?D k \<longleftrightarrow> audit_ok D k"
        by (intro audit_ok_cong) (simp add: D')
      with miss show ?thesis using db_okD(3,4) [OF ok] by simp
    qed
  qed
  ultimately show ?thesis by (simp add: db_ok_def)
qed

end

end
