(* ===== verification/Jobs.thy ===== *)
theory Jobs
  imports Queue_DB
begin

text \<open>
  \<^verbatim>\<open>internal/jobs/enqueue.go\<close>: the idempotent producer behind \<^verbatim>\<open>imgsync enqueue\<close>. One
  transaction inserts the row and its \<^verbatim>\<open>enqueue\<close> event, or finds the row that already has
  the key \<^verbatim>\<open>(trace_id, dst)\<close>.
\<close>

record EnqueueArgs =
  a_TraceID :: string
  a_Src :: string
  a_Dst :: string
  a_SrcProtocol :: string
  a_DstProtocol :: string
  a_Payload :: string
  a_MaxAttempts :: int

text \<open>
  How the server answers the statements of one call: the time of the transaction, the error
  of each statement if it has one, and the outcome of \<^verbatim>\<open>COMMIT\<close>.
\<close>

record tx_env =
  tx_now :: timestamp
  tx_begin :: "go_error option"
  tx_insert :: "go_error option"
  tx_event :: "go_error option"
  tx_lookup :: "go_error option"
  tx_commit :: db_outcome

definition enqueue_max_attempts :: "EnqueueArgs \<Rightarrow> int" where
  "enqueue_max_attempts a = (if a_MaxAttempts a \<le> 0 then 5 else a_MaxAttempts a)"

definition enqueue_payload :: "EnqueueArgs \<Rightarrow> string" where
  "enqueue_payload a = (if a_Payload a = [] then ''{}'' else a_Payload a)"

definition Enqueue :: "tx_env \<Rightarrow> EnqueueArgs \<Rightarrow> db \<Rightarrow> (go_error + int \<times> bool) \<times> db" where
  "Enqueue x a D =
     (if a_TraceID a = [] \<or> a_Src a = [] \<or> a_Dst a = [] then
        (Inl (PlainErr ''enqueue: trace_id, src, dst are required''), D)
      else if a_SrcProtocol a = [] \<or> a_DstProtocol a = [] then
        (Inl (PlainErr ''enqueue: src_protocol and dst_protocol are required''), D)
      else case tx_begin x of Some e \<Rightarrow> (Inl (wrap_err ''begin: '' e), D)
      | None \<Rightarrow>
        (case tx_insert x of Some e \<Rightarrow> (Inl (wrap_err ''insert: '' e), D)
         | None \<Rightarrow>
           (case insert_job (tx_now x) (a_TraceID a) (a_Src a) (a_Dst a) (a_SrcProtocol a)
                   (a_DstProtocol a) (enqueue_payload a) (enqueue_max_attempts a) D of
              (Some i, D1) \<Rightarrow>
                (case tx_event x of
                   Some e \<Rightarrow> (Inl (wrap_err ''emit enqueue event: '' e), rollback D D1)
                 | None \<Rightarrow>
                     commit ''commit: '' (tx_commit x) (i, True) D
                       (insert_event (tx_now x) (a_TraceID a) i Ev_enqueue
                          (JRaw (enqueue_payload a)) D1))
            | (None, D1) \<Rightarrow>
                (case tx_lookup x of
                   Some e \<Rightarrow> (Inl (wrap_err ''lookup existing: '' e), rollback D D1)
                 | None \<Rightarrow>
                   (case find (\<lambda>j. TraceID j = a_TraceID a \<and> Dst j = a_Dst a) (transfer_jobs D1) of
                      None \<Rightarrow>
                        (Inl (wrap_err ''lookup existing: '' (PlainErr ''no rows in result set'')),
                         rollback D D1)
                    | Some j \<Rightarrow> commit ''commit: '' (tx_commit x) (ID j, False) D D1)))))"

text \<open>The arguments pass validation.\<close>

definition args_ok :: "EnqueueArgs \<Rightarrow> bool" where
  "args_ok a \<longleftrightarrow> a_TraceID a \<noteq> [] \<and> a_Src a \<noteq> [] \<and> a_Dst a \<noteq> [] \<and>
     a_SrcProtocol a \<noteq> [] \<and> a_DstProtocol a \<noteq> []"

definition no_faults :: "timestamp \<Rightarrow> tx_env" where
  "no_faults now = \<lparr>tx_now = now, tx_begin = None, tx_insert = None, tx_event = None,
     tx_lookup = None, tx_commit = DB_Ok\<rparr>"

section \<open>Lemmas\<close>

lemma enqueue_max_attempts_pos: "1 \<le> enqueue_max_attempts a"
  by (simp add: enqueue_max_attempts_def)

lemma db_ok_Enqueue [step_intros]:
  assumes ok: "db_ok D"
  shows "db_ok (snd (Enqueue x a D))"
proof -
  define R where "R = insert_job (tx_now x) (a_TraceID a) (a_Src a) (a_Dst a) (a_SrcProtocol a)
     (a_DstProtocol a) (enqueue_payload a) (enqueue_max_attempts a) D"
  have ok1: "db_ok (snd R)"
    unfolding R_def using ok enqueue_max_attempts_pos by (intro step_intros)
  have nid: "next_id (snd R) = next_id D + 1" by (simp add: R_def)
  have ok2: "db_ok (insert_event now (a_TraceID a) i Ev_enqueue det (snd R))"
    if "fst R = Some i" for i now det
  proof (rule db_ok_insert_event [OF ok1])
    show "\<exists>j \<in> set (transfer_jobs (snd R)). ID j = i \<and> TraceID j = a_TraceID a"
      using that unfolding R_def
      by (auto simp: insert_job_def Let_def new_row_def split: if_splits)
  qed (simp add: neutral_def)
  show ?thesis
  proof (cases R)
    case (Pair r D1)
    then show ?thesis
      using ok ok1 ok2 nid
      by (auto simp: Enqueue_def R_def [symmetric]
          intro!: db_ok_commit db_ok_rollback split: option.splits)
  qed
qed

lemma Enqueue_success:
  assumes "Enqueue x a D = (Inr (i, ins), D')"
  shows "args_ok a"
    and "ins \<longleftrightarrow> \<not> key_taken (a_TraceID a) (a_Dst a) D"
    and "ins \<Longrightarrow> i = next_id D \<and>
           transfer_jobs D' = transfer_jobs D @
             [new_row (tx_now x) (next_id D) (a_TraceID a) (a_Src a) (a_Dst a) (a_SrcProtocol a)
                (a_DstProtocol a) (enqueue_payload a) (enqueue_max_attempts a)] \<and>
           transfer_events D' = transfer_events D @
             [\<lparr>ev_trace_id = a_TraceID a, ev_job_id = i, ev_ts = tx_now x,
               ev_status = Ev_enqueue, ev_detail = JRaw (enqueue_payload a)\<rparr>]"
    and "\<not> ins \<Longrightarrow> transfer_jobs D' = transfer_jobs D \<and> transfer_events D' = transfer_events D \<and>
           (\<exists>j \<in> set (transfer_jobs D). ID j = i \<and> TraceID j = a_TraceID a \<and> Dst j = a_Dst a)"
  using assms
  by (auto simp: Enqueue_def args_ok_def insert_event_def commit_Inr insert_job_Some insert_job_None
      dest!: find_SomeD split: if_splits option.splits prod.splits)

section \<open>Properties\<close>

lemma Enqueue_rows:
  assumes "Enqueue x a D = (res, D')" and "k \<in> set (transfer_jobs D')"
  shows "k \<in> set (transfer_jobs D) \<or> Status k = Pending"
  using assms
  by (cases "tx_commit x")
     (auto simp: Enqueue_def insert_event_def insert_job_Some insert_job_None new_row_def
      split: option.splits prod.splits if_splits)

lemma Enqueue_holds_key:
  assumes "Enqueue x a D = (Inr (i, ins), D1)"
  shows "\<exists>j \<in> set (transfer_jobs D1). ID j = i \<and> TraceID j = a_TraceID a \<and> Dst j = a_Dst a"
  using Enqueue_success(3,4) [OF assms] by (cases ins) (auto simp: new_row_def)

lemma find_by_key:
  assumes "db_ok D" and "j \<in> set (transfer_jobs D)"
  shows "find (\<lambda>k. TraceID k = TraceID j \<and> Dst k = Dst j) (transfer_jobs D) = Some j"
  using find_key_Some [OF db_okD(2) [OF assms(1)] assms(2)] by simp

lemma Enqueue_again:
  assumes "db_ok D" and "Enqueue x a D = (Inr (i, ins), D1)"
    and "args_ok b" and "a_TraceID b = a_TraceID a" and "a_Dst b = a_Dst a"
  shows "Enqueue (no_faults now) b D1 = (Inr (i, False), D1\<lparr>next_id := next_id D1 + 1\<rparr>)"
proof -
  obtain j where j: "j \<in> set (transfer_jobs D1)" "ID j = i" "TraceID j = a_TraceID b" "Dst j = a_Dst b"
    using Enqueue_holds_key [OF assms(2)] assms(4,5) by auto
  have "db_ok D1" using db_ok_Enqueue [OF assms(1), of x a] assms(2) by simp
  note found = find_by_key [OF this j(1)]
  have "key_taken (a_TraceID b) (a_Dst b) D1" using j by (force simp: key_taken_iff)
  then show ?thesis
    using assms(3) found j by (simp add: Enqueue_def no_faults_def args_ok_def insert_job_def Let_def)
qed

text \<open>
  C20. Enqueue is idempotent: after a call that returned id \<open>i\<close>, repeating it with the same trace
  id and destination (the other arguments may differ) returns \<open>i\<close> with \<open>inserted = false\<close>, and
  changes neither the jobs nor the audit log; only a sequence value is used up.
\<close>

theorem enqueue_idempotent:
  assumes "db_ok D" and "Enqueue x a D = (Inr (i, ins), D1)"
    and "args_ok b" and "a_TraceID b = a_TraceID a" and "a_Dst b = a_Dst a"
  shows "Enqueue (no_faults now) b D1 = (Inr (i, False), D1\<lparr>next_id := next_id D1 + 1\<rparr>)"
  by (rule Enqueue_again [OF assms])

text \<open>
  C21. Enqueue is atomic, whatever statement fails and whether or not the reply to the commit
  is lost: either the jobs and the audit log are untouched, or exactly the new pending row of the
  key is appended together with exactly its one \<open>enqueue\<close> event. A call that reports an
  insertion has done the second; one that reports an existing row the first.
\<close>

theorem enqueue_atomic:
  "case Enqueue x a D of (r, D') \<Rightarrow>
     (transfer_jobs D' = transfer_jobs D \<and> transfer_events D' = transfer_events D \<and>
        (\<forall>i. r \<noteq> Inr (i, True))) \<or>
     (args_ok a \<and> \<not> key_taken (a_TraceID a) (a_Dst a) D \<and>
      transfer_jobs D' = transfer_jobs D @
        [new_row (tx_now x) (next_id D) (a_TraceID a) (a_Src a) (a_Dst a) (a_SrcProtocol a)
           (a_DstProtocol a) (enqueue_payload a) (enqueue_max_attempts a)] \<and>
      transfer_events D' = transfer_events D @
        [\<lparr>ev_trace_id = a_TraceID a, ev_job_id = next_id D, ev_ts = tx_now x,
          ev_status = Ev_enqueue, ev_detail = JRaw (enqueue_payload a)\<rparr>] \<and>
      (\<forall>i. r \<noteq> Inr (i, False)))"
  by (cases "tx_commit x")
     (auto simp: Enqueue_def args_ok_def insert_event_def insert_job_Some insert_job_None
      split: option.splits prod.splits)

text \<open>The queue, the call and the repeated call with another source that the witness uses.\<close>

definition example_args :: "string \<Rightarrow> EnqueueArgs" where
  "example_args s = \<lparr>a_TraceID = ''t'', a_Src = s, a_Dst = ''/d'', a_SrcProtocol = ''localfs'',
     a_DstProtocol = ''localfs'', a_Payload = [], a_MaxAttempts = 0\<rparr>"

theorem enqueue_idempotent_witness:
  "case Enqueue (no_faults 7) (example_args ''/a'') empty_db of
     (r, D1) \<Rightarrow> r = Inr (1, True) \<and>
       Enqueue (no_faults 8) (example_args ''/b'') D1 = (Inr (1, False), D1\<lparr>next_id := 3\<rparr>)"
proof -
  define D1 where "D1 = snd (Enqueue (no_faults 7) (example_args ''/a'') empty_db)"
  have 1: "Enqueue (no_faults 7) (example_args ''/a'') empty_db = (Inr (1, True), D1)"
    and n: "next_id D1 = 2"
    by (simp_all add: D1_def Enqueue_def no_faults_def example_args_def insert_job_def key_taken_def
        empty_db_def Let_def insert_event_def)
  show ?thesis
    using enqueue_idempotent [OF db_ok_empty 1, of "example_args ''/b''" 8] 1 n
    by (simp add: args_ok_def example_args_def)
qed

end
