(* ===== verification/Sniffer.thy ===== *)
theory Sniffer
  imports Queue_DB
begin

text \<open>
  \<^verbatim>\<open>internal/sniffer\<close>: the watermark store (\<^verbatim>\<open>state.go\<close>), the windowed query on the source
  table (\<^verbatim>\<open>query.go\<close>), rendering (\<^verbatim>\<open>traceid.go\<close>), the deduplicating inserts (\<^verbatim>\<open>enqueue.go\<close>)
  and one poll (\<^verbatim>\<open>sniffer.go\<close>).
\<close>

section \<open>Trace ids and templates (traceid.go)\<close>

definition TraceID_of :: "string \<Rightarrow> string \<Rightarrow> string" where
  "TraceID_of sourceTable pk = sourceTable @ ''-'' @ pk"

definition ShadowSuffix :: string where
  "ShadowSuffix = ''.imgsync_shadow_v1''"

record DstTemplate =
  Pattern :: string
  Shadow :: bool

text \<open>
  The \<^verbatim>\<open>text/template\<close> engine with \<^verbatim>\<open>missingkey=error\<close>: parsing a pattern and executing a
  parsed template on the fields of a row.
\<close>

record 't engine =
  tmpl_parse :: "string \<Rightarrow> go_error + 't"
  tmpl_execute :: "'t \<Rightarrow> (string \<rightharpoonup> string) \<Rightarrow> go_error + string"

definition Render :: "'t engine \<Rightarrow> DstTemplate \<Rightarrow> (string \<rightharpoonup> string) \<Rightarrow> go_error + string" where
  "Render eng t fs =
     (if Pattern t = [] then Inl (PlainErr ''dst template: empty pattern'')
      else case tmpl_parse eng (Pattern t) of
        Inl e \<Rightarrow> Inl (wrap_err ''parse pattern: '' e)
      | Inr tm \<Rightarrow>
          (case tmpl_execute eng tm fs of
             Inl e \<Rightarrow> Inl (wrap_err ''render: '' e)
           | Inr out \<Rightarrow> Inr (if Shadow t then out @ ShadowSuffix else out)))"

section \<open>Inserting jobs (enqueue.go)\<close>

record JobSpec =
  js_TraceID :: string
  js_Src :: string
  js_Dst :: string
  js_SrcProtocol :: string
  js_DstProtocol :: string

text \<open>One row of \<^verbatim>\<open>INSERT ... ON CONFLICT (trace_id, dst) DO NOTHING\<close>, with the schema's default payload and budget.\<close>

definition insert_spec :: "timestamp \<Rightarrow> JobSpec \<Rightarrow> db \<Rightarrow> int \<times> db" where
  "insert_spec now j D =
     (case insert_job now (js_TraceID j) (js_Src j) (js_Dst j) (js_SrcProtocol j) (js_DstProtocol j)
             ''{}'' 5 D of
        (None, D') \<Rightarrow> (0, D')
      | (Some _, D') \<Rightarrow> (1, D'))"

fun insert_specs :: "timestamp \<Rightarrow> JobSpec list \<Rightarrow> db \<Rightarrow> int \<times> db" where
  "insert_specs now [] D = (0, D)"
| "insert_specs now (j # js) D =
     (case insert_spec now j D of (n, D1) \<Rightarrow>
        case insert_specs now js D1 of (m, D2) \<Rightarrow> (n + m, D2))"

definition sniffer_Enqueue :: "db_outcome \<Rightarrow> timestamp \<Rightarrow> JobSpec \<Rightarrow> db \<Rightarrow> (go_error + bool) \<times> db" where
  "sniffer_Enqueue out now j D =
     (case pg_exec out (insert_spec now j) D of
        (Inl e, D') \<Rightarrow> (Inl (wrap_err (''enqueue '' @ js_TraceID j @ ''->'' @ js_Dst j @ '': '') e), D')
      | (Inr rows, D') \<Rightarrow> (Inr (rows = 1), D'))"

text \<open>The statement text: five numbered placeholders for each row.\<close>

definition placeholders :: "nat \<Rightarrow> string" where
  "placeholders i =
     (let n = int i * 5 in
      ''($'' @ itoa (n + 1) @ '',$'' @ itoa (n + 2) @ '',$'' @ itoa (n + 3) @ '',$'' @ itoa (n + 4)
        @ '',$'' @ itoa (n + 5) @ '')'')"

fun values_text :: "nat \<Rightarrow> JobSpec list \<Rightarrow> string" where
  "values_text i [] = []"
| "values_text i (j # js) = (if i > 0 then '','' else []) @ placeholders i @ values_text (Suc i) js"

definition batch_sql :: "JobSpec list \<Rightarrow> string" where
  "batch_sql specs =
     ''INSERT INTO transfer_jobs (trace_id, src, dst, src_protocol, dst_protocol) VALUES ''
       @ values_text 0 specs @ '' ON CONFLICT (trace_id, dst) DO NOTHING''"

definition batch_args :: "JobSpec list \<Rightarrow> string list" where
  "batch_args specs =
     concat (map (\<lambda>j. [js_TraceID j, js_Src j, js_Dst j, js_SrcProtocol j, js_DstProtocol j]) specs)"

definition EnqueueBatch ::
  "db_outcome \<Rightarrow> timestamp \<Rightarrow> JobSpec list \<Rightarrow> db \<Rightarrow> (go_error + int) \<times> db"
where
  "EnqueueBatch out now specs D =
     (if specs = [] then (Inr 0, D)
      else case pg_exec out (insert_specs now specs) D of
        (Inl e, D') \<Rightarrow>
          (Inl (wrap_err (''enqueue batch of '' @ itoa (int (length specs)) @ '': '') e), D')
      | (Inr rows, D') \<Rightarrow> (Inr rows, D'))"

section \<open>The watermark store (state.go)\<close>

record State =
  st_SourceID :: string
  LastRunTS :: timestamp
  LastRunPK :: string

text \<open>
  \<^verbatim>\<open>sniffer_state\<close>: the watermark per source, its tie-break key \<^verbatim>\<open>NULL\<close> or text. Go's zero
  \<^verbatim>\<open>time.Time\<close> is the first instant of year 1.
\<close>

type_synonym state_table = "string \<rightharpoonup> timestamp \<times> string option"

definition zero_time :: timestamp where
  "zero_time = - 62135596800000000"

definition Load :: "go_error option \<Rightarrow> string \<Rightarrow> state_table \<Rightarrow> go_error + State" where
  "Load err sid T =
     (case err of
        Some e \<Rightarrow> Inl (wrap_err (''load \"'' @ sid @ ''\": '') e)
      | None \<Rightarrow>
        (case T sid of
           None \<Rightarrow> Inr \<lparr>st_SourceID = sid, LastRunTS = zero_time, LastRunPK = []\<rparr>
         | Some (ts, pk) \<Rightarrow>
             Inr \<lparr>st_SourceID = sid, LastRunTS = ts, LastRunPK = (case pk of None \<Rightarrow> [] | Some p \<Rightarrow> p)\<rparr>))"

definition Upsert :: "db_outcome \<Rightarrow> State \<Rightarrow> state_table \<Rightarrow> go_error option \<times> state_table" where
  "Upsert out s T =
     (let pk = (if LastRunPK s = [] then None else Some (LastRunPK s)) in
      case pg_exec out (\<lambda>T. ((), T(st_SourceID s \<mapsto> (LastRunTS s, pk)))) T of
        (Inl e, T') \<Rightarrow> (Some (wrap_err (''upsert \"'' @ st_SourceID s @ ''\": '') e), T')
      | (Inr _, T') \<Rightarrow> (None, T'))"

section \<open>The windowed query (query.go)\<close>

text \<open>
  A row of the source table: a \<^verbatim>\<open>BIGINT\<close> key and a \<^verbatim>\<open>TIMESTAMPTZ\<close> watermark column (what the
  query is documented for), and the printed value of every other column (\<open>None\<close> for \<^verbatim>\<open>NULL\<close>,
  which the scan turns into the empty text). A column the table does not have is a query error.
\<close>

record source_row =
  r_pk :: int
  r_ts :: timestamp
  r_cols :: "string \<rightharpoonup> string"

record Row =
  PK :: string
  TS :: timestamp
  Fields :: "string \<rightharpoonup> string"

record Query =
  Table :: string
  PKColumn :: string
  TSColumn :: string
  ExtraColumns :: "string list"
  BatchSize :: int
  BiasDuration :: duration

text \<open>
  The window. With no carried-over key only the timestamp is compared; otherwise ties on the
  timestamp are broken by the key, compared as a number.
\<close>

definition after_watermark :: "timestamp \<Rightarrow> int option \<Rightarrow> source_row \<Rightarrow> bool" where
  "after_watermark ts pk r \<longleftrightarrow>
     (case pk of None \<Rightarrow> r_ts r > ts | Some p \<Rightarrow> r_ts r > ts \<or> (r_ts r = ts \<and> r_pk r > p))"

definition in_window :: "timestamp \<Rightarrow> int \<Rightarrow> timestamp \<Rightarrow> int option \<Rightarrow> source_row \<Rightarrow> bool" where
  "in_window now biasSec ts pk r \<longleftrightarrow> after_watermark ts pk r \<and> r_ts r \<le> now - biasSec * 1000000"

text \<open>\<open>fmt_time\<close> prints a timestamp as RFC 3339.\<close>

definition scan_row :: "(timestamp \<Rightarrow> string) \<Rightarrow> Query \<Rightarrow> source_row \<Rightarrow> Row" where
  "scan_row fmt_time q r =
     (let fs = (\<lambda>c. if c = TSColumn q then Some (fmt_time (r_ts r))
                        else if c = PKColumn q then Some (itoa (r_pk r))
                        else if c \<in> set (ExtraColumns q)
                             then Some (case r_cols r c of None \<Rightarrow> [] | Some v \<Rightarrow> v)
                        else None)
      in \<lparr>PK = (case fs (PKColumn q) of None \<Rightarrow> [] | Some v \<Rightarrow> v), TS = r_ts r, Fields = fs\<rparr>)"

text \<open>
  A fetch can fail when the query is sent (\<^verbatim>\<open>query: ...\<close>) or while its rows are read, which
  includes a carried-over key that is not a number.
\<close>

definition Fetch ::
  "go_error option \<Rightarrow> go_error option \<Rightarrow> (timestamp \<Rightarrow> string) \<Rightarrow> timestamp \<Rightarrow> Query \<Rightarrow> source_row list \<Rightarrow> State \<Rightarrow>
   go_error + Row list"
where
  "Fetch qerr rerr fmt_time now q S from =
     (if BatchSize q \<le> 0 then Inl (PlainErr ''batch_size must be > 0'')
      else case qerr of Some e \<Rightarrow> Inl (wrap_err ''query: '' e)
      | None \<Rightarrow>
       (case rerr of Some e \<Rightarrow> Inl e
        | None \<Rightarrow>
        let biasSec = int_seconds (BiasDuration q);
            rows = (\<lambda>pk. map (scan_row fmt_time q)
              (take (nat (BatchSize q))
                (sort_key (\<lambda>r. (r_ts r, r_pk r)) (filter (in_window now biasSec (LastRunTS from) pk) S))))
        in if LastRunPK from = [] then Inr (rows None)
           else case atoi (LastRunPK from) of
             None \<Rightarrow> Inl (PlainErr ''invalid input syntax for type bigint'')
           | Some p \<Rightarrow> Inr (rows (Some p))))"

section \<open>One poll (sniffer.go)\<close>

record 't SnifferConfig =
  sc_SourceID :: string
  sc_Query :: Query
  sc_Dst :: DstTemplate
  sc_SrcPattern :: string
  sc_SrcProtocol :: string
  sc_DstProtocol :: string
  sc_engine :: "'t engine"
  sc_fmt_time :: "timestamp \<Rightarrow> string"

text \<open>The job of a row, or \<open>None\<close> for a row whose destination or source does not render.\<close>

definition row_spec :: "'t SnifferConfig \<Rightarrow> Row \<Rightarrow> JobSpec option" where
  "row_spec c r =
     (case Render (sc_engine c) (sc_Dst c) (Fields r) of
        Inl _ \<Rightarrow> None
      | Inr dst \<Rightarrow>
          (case Render (sc_engine c) \<lparr>Pattern = sc_SrcPattern c, Shadow = False\<rparr> (Fields r) of
             Inl _ \<Rightarrow> None
           | Inr src \<Rightarrow>
               Some \<lparr>js_TraceID = TraceID_of (Table (sc_Query c)) (PK r), js_Src = src, js_Dst = dst,
                     js_SrcProtocol = sc_SrcProtocol c, js_DstProtocol = sc_DstProtocol c\<rparr>))"

fun row_specs :: "'t SnifferConfig \<Rightarrow> Row list \<Rightarrow> JobSpec list" where
  "row_specs c [] = []"
| "row_specs c (r # rs) =
     (case row_spec c r of None \<Rightarrow> row_specs c rs | Some j \<Rightarrow> j # row_specs c rs)"

record poll_env =
  po_now_src :: timestamp
  po_now :: timestamp
  po_load :: "go_error option"
  po_query :: "go_error option"
  po_rows :: "go_error option"
  po_enqueue :: db_outcome
  po_upsert :: db_outcome

definition runOnceImpl ::
  "poll_env \<Rightarrow> 't SnifferConfig \<Rightarrow> source_row list \<Rightarrow> state_table \<times> db \<Rightarrow>
   (int \<times> go_error option) \<times> state_table \<times> db"
where
  "runOnceImpl x c S TD =
     (case TD of (T, D) \<Rightarrow>
        case Load (po_load x) (sc_SourceID c) T of
          Inl e \<Rightarrow> ((0, Some (wrap_err ''load state: '' e)), T, D)
        | Inr st \<Rightarrow>
            (case Fetch (po_query x) (po_rows x) (sc_fmt_time c) (po_now_src x) (sc_Query c) S st of
               Inl e \<Rightarrow> ((0, Some (wrap_err ''fetch: '' e)), T, D)
             | Inr rows \<Rightarrow>
                 if rows = [] then ((0, None), T, D)
                 else
                   (case EnqueueBatch (po_enqueue x) (po_now x) (row_specs c rows) D of
                      (Inl e, D') \<Rightarrow> ((0, Some (wrap_err ''enqueue batch: '' e)), T, D')
                    | (Inr inserted, D') \<Rightarrow>
                        (case Upsert (po_upsert x)
                                \<lparr>st_SourceID = sc_SourceID c, LastRunTS = TS (last rows),
                                 LastRunPK = PK (last rows)\<rparr> T of
                           (Some e, T') \<Rightarrow> ((inserted, Some (wrap_err ''upsert state: '' e)), T', D')
                         | (None, T') \<Rightarrow> ((inserted, None), T', D')))))"

text \<open>\<^verbatim>\<open>RunOnce\<close> adds the callback: \<^verbatim>\<open>OnError(source)\<close> or \<^verbatim>\<open>OnEnqueue(source, n)\<close>.\<close>

datatype sniff_callback = OnError string | OnEnqueue string int

definition RunOnce ::
  "poll_env \<Rightarrow> 't SnifferConfig \<Rightarrow> source_row list \<Rightarrow> state_table \<times> db \<Rightarrow>
   (int \<times> go_error option) \<times> sniff_callback \<times> state_table \<times> db"
where
  "RunOnce x c S TD =
     (case runOnceImpl x c S TD of
        ((n, Some e), T, D) \<Rightarrow> ((n, Some e), OnError (sc_SourceID c), T, D)
      | ((n, None), T, D) \<Rightarrow> ((n, None), OnEnqueue (sc_SourceID c) n, T, D))"

section \<open>Lemmas on the inserts\<close>

lemma insert_spec_cases:
  obtains (taken) "key_taken (js_TraceID j) (js_Dst j) D"
      "insert_spec now j D = (0, D\<lparr>next_id := next_id D + 1\<rparr>)"
  | (fresh) r where "\<not> key_taken (js_TraceID j) (js_Dst j) D"
      "r = new_row now (next_id D) (js_TraceID j) (js_Src j) (js_Dst j) (js_SrcProtocol j)
             (js_DstProtocol j) ''{}'' 5"
      "insert_spec now j D =
         (1, D\<lparr>next_id := next_id D + 1, transfer_jobs := transfer_jobs D @ [r]\<rparr>)"
  by (cases "key_taken (js_TraceID j) (js_Dst j) D")
     (auto simp: insert_spec_def insert_job_def Let_def)

lemma insert_spec_key: "key_taken (js_TraceID j) (js_Dst j) (snd (insert_spec now j D))"
  by (rule insert_spec_cases [of j D now]) (auto simp: key_taken_def new_row_def)

lemma insert_spec_keeps: "key_taken t d D \<Longrightarrow> key_taken t d (snd (insert_spec now j D))"
  by (rule insert_spec_cases [of j D now]) (auto simp: key_taken_def)

lemma db_ok_insert_spec [step_intros]: "db_ok D \<Longrightarrow> db_ok (snd (insert_spec now j D))"
  using db_ok_insert_job [of D 5 now "js_TraceID j" "js_Src j" "js_Dst j" "js_SrcProtocol j"
      "js_DstProtocol j" "''{}''"]
  by (auto simp: insert_spec_def split: prod.splits option.splits)

lemma insert_specs_keeps: "key_taken t d D \<Longrightarrow> key_taken t d (snd (insert_specs now js D))"
  by (induction js arbitrary: D) (auto simp: case_prod_unfold intro: insert_spec_keeps)

lemma insert_specs_keys:
  "j \<in> set js \<Longrightarrow> key_taken (js_TraceID j) (js_Dst j) (snd (insert_specs now js D))"
  by (induction js arbitrary: D)
     (auto simp: case_prod_unfold intro: insert_spec_key insert_specs_keeps)

lemma db_ok_insert_specs [step_intros]: "db_ok D \<Longrightarrow> db_ok (snd (insert_specs now js D))"
  by (induction js arbitrary: D) (auto simp: case_prod_unfold intro: db_ok_insert_spec)

text \<open>The rows a batch appends, and that their number is what the statement reports.\<close>

lemma insert_specs_rows:
  "\<exists>new. transfer_jobs (snd (insert_specs now js D)) = transfer_jobs D @ new \<and>
     fst (insert_specs now js D) = int (length new) \<and>
     (\<forall>r \<in> set new. Status r = Pending \<and> LockedBy r = None \<and>
        (\<exists>j \<in> set js. TraceID r = js_TraceID j \<and> Dst r = js_Dst j \<and> Src r = js_Src j))"
proof (induction js arbitrary: D)
  case Nil
  show ?case by simp
next
  case (Cons j js)
  obtain new where new: "transfer_jobs (snd (insert_specs now js (snd (insert_spec now j D)))) =
       transfer_jobs (snd (insert_spec now j D)) @ new"
    "fst (insert_specs now js (snd (insert_spec now j D))) = int (length new)"
    "\<forall>r \<in> set new. Status r = Pending \<and> LockedBy r = None \<and>
        (\<exists>j \<in> set js. TraceID r = js_TraceID j \<and> Dst r = js_Dst j \<and> Src r = js_Src j)"
    using Cons.IH by blast
  show ?case
  proof (cases rule: insert_spec_cases [of j D now])
    case taken
    with new show ?thesis by (intro exI [of _ new]) (auto simp: case_prod_unfold)
  next
    case (fresh r)
    with new show ?thesis
      by (intro exI [of _ "r # new"]) (auto simp: case_prod_unfold new_row_def)
  qed
qed

lemma insert_specs_events [simp]:
  "transfer_events (snd (insert_specs now js D)) = transfer_events D"
proof (induction js arbitrary: D)
  case (Cons j js)
  then show ?case
    by (cases rule: insert_spec_cases [of j D now]) (auto simp: case_prod_unfold)
qed simp

lemma insert_specs_all_taken:
  assumes "\<And>j. j \<in> set js \<Longrightarrow> key_taken (js_TraceID j) (js_Dst j) D"
  shows "insert_specs now js D = (0, D\<lparr>next_id := next_id D + int (length js)\<rparr>)"
  using assms
proof (induction js arbitrary: D)
  case (Cons j js)
  have "insert_spec now j D = (0, D\<lparr>next_id := next_id D + 1\<rparr>)"
    using Cons.prems [of j] by (rule_tac insert_spec_cases [of j D now]) auto
  moreover have "insert_specs now js (D\<lparr>next_id := next_id D + 1\<rparr>) =
      (0, D\<lparr>next_id := next_id D + 1 + int (length js)\<rparr>)"
    using Cons.IH [of "D\<lparr>next_id := next_id D + 1\<rparr>"] Cons.prems by (simp add: key_taken_def)
  ultimately show ?case by (simp add: algebra_simps)
qed simp

lemma EnqueueBatch_db:
  obtains (ran) "snd (EnqueueBatch out now specs D) = snd (insert_specs now specs D)"
  | (skipped) "snd (EnqueueBatch out now specs D) = D"
  by (cases out) (auto simp: EnqueueBatch_def case_prod_unfold Let_def split: sum.splits)

lemma EnqueueBatch_Inr:
  "EnqueueBatch out now specs D = (Inr n, D') \<longleftrightarrow>
     insert_specs now specs D = (n, D') \<and> (specs = [] \<or> out = DB_Ok)"
  by (cases out) (auto simp: EnqueueBatch_def split: prod.splits sum.splits)

lemma db_ok_EnqueueBatch [step_intros]: "db_ok D \<Longrightarrow> db_ok (snd (EnqueueBatch out now specs D))"
  by (rule EnqueueBatch_db [of out now specs D]) (simp_all add: db_ok_insert_specs)

lemma EnqueueBatch_keeps: "key_taken t d D \<Longrightarrow> key_taken t d (snd (EnqueueBatch out now specs D))"
  by (rule EnqueueBatch_db [of out now specs D]) (simp_all add: insert_specs_keeps)

lemma set_row_specs: "set (row_specs c rs) = {j. \<exists>r \<in> set rs. row_spec c r = Some j}"
  by (induction rs) (auto split: option.splits)

section \<open>The watermark\<close>

definition watermark :: "string \<Rightarrow> state_table \<Rightarrow> timestamp \<times> int option" where
  "watermark sid T =
     (case T sid of
        None \<Rightarrow> (zero_time, None)
      | Some (ts, None) \<Rightarrow> (ts, None)
      | Some (ts, Some p) \<Rightarrow> (ts, if p = [] then None else atoi p))"

definition passed :: "timestamp \<times> int option \<Rightarrow> source_row \<Rightarrow> bool" where
  "passed w r \<longleftrightarrow> \<not> after_watermark (fst w) (snd w) r"

text \<open>A stored tie-break key that the source can compare with its own keys.\<close>

definition state_ok :: "string \<Rightarrow> state_table \<Rightarrow> bool" where
  "state_ok sid T \<longleftrightarrow> (case T sid of Some (_, Some p) \<Rightarrow> p = [] \<or> atoi p \<noteq> None | _ \<Rightarrow> True)"

text \<open>Key and watermark columns differ, and keys are \<^verbatim>\<open>BIGINT\<close> values that identify their row.\<close>

definition source_ok :: "source_row list \<Rightarrow> bool" where
  "source_ok S \<longleftrightarrow> distinct (map r_pk S) \<and> (\<forall>r \<in> set S. - (2 ^ 63) \<le> r_pk r \<and> r_pk r < 2 ^ 63)"

definition query_ok :: "Query \<Rightarrow> bool" where
  "query_ok q \<longleftrightarrow> PKColumn q \<noteq> TSColumn q \<and> 0 < BatchSize q"

definition order_key :: "source_row \<Rightarrow> timestamp \<times> int" where
  "order_key r = (r_ts r, r_pk r)"

text \<open>The source rows one poll looks at.\<close>

definition batch :: "timestamp \<Rightarrow> Query \<Rightarrow> source_row list \<Rightarrow> timestamp \<times> int option \<Rightarrow> source_row list" where
  "batch now q S w =
     take (nat (BatchSize q))
       (sort_key order_key (filter (in_window now (int_seconds (BiasDuration q)) (fst w) (snd w)) S))"

lemma itoa_nonempty [simp]: "itoa i \<noteq> []"
  by (simp add: itoa_def)

lemma scan_row_simps [simp]:
  assumes "query_ok q"
  shows "PK (scan_row f q r) = itoa (r_pk r)" and "TS (scan_row f q r) = r_ts r"
  using assms by (auto simp: scan_row_def query_ok_def Let_def)

lemma Fetch_batch:
  assumes "state_ok sid T" and "query_ok q" and "Load lerr sid T = Inr st"
    and "Fetch qerr rerr f now q S st = Inr rows"
  shows "rows = map (scan_row f q) (batch now q S (watermark sid T))"
  using assms
  by (auto simp: Load_def Fetch_def batch_def watermark_def state_ok_def query_ok_def Let_def
      order_key_def [abs_def] split: option.splits if_splits prod.splits)

text \<open>A poll without errors sees the batch.\<close>

lemma Fetch_total:
  assumes "state_ok sid T" and "query_ok q" and "Load None sid T = Inr st"
  shows "\<exists>rows. Fetch None None f now q S st = Inr rows"
  using assms
  by (auto simp: Load_def Fetch_def state_ok_def query_ok_def Let_def split: option.splits)

lemma passed_Some: "passed (ts, Some p) r \<longleftrightarrow> order_key r \<le> (ts, p)"
  by (auto simp: passed_def after_watermark_def order_key_def less_eq_prod_def)

lemma order_key_inj: "source_ok S \<Longrightarrow> r \<in> set S \<Longrightarrow> r' \<in> set S \<Longrightarrow> order_key r = order_key r' \<Longrightarrow> r = r'"
  by (auto simp: source_ok_def order_key_def intro: distinct_map_eq)

lemma take_sorted_downward:
  assumes "sorted (map k xs)" and "inj_on k (set xs)" and "x \<in> set xs" and "ys = take n xs" and "ys \<noteq> []"
    and "k x \<le> k (last ys)"
  shows "x \<in> set ys"
proof (rule ccontr)
  assume "x \<notin> set ys"
  with assms(3,4) have x: "x \<in> set (drop n xs)"
    by (metis append_take_drop_id Un_iff set_append)
  have "sorted (map k ys @ map k (drop n xs))"
    using assms(1,4) by (metis append_take_drop_id map_append)
  with x assms(5) have "k (last ys) \<le> k x"
    by (force simp: sorted_append)
  with assms(6) have "k x = k (last ys)" by simp
  moreover have "last ys \<in> set ys" using assms(5) by simp
  ultimately show False
    using assms(2-4) \<open>x \<notin> set ys\<close> by (metis in_set_takeD inj_onD)
qed

text \<open>
  The rows the new watermark has passed are those the old one had passed and those of the batch.
\<close>

lemma batch_passed:
  assumes S: "source_ok S" and B: "batch now q S w \<noteq> []"
  defines "l \<equiv> last (batch now q S w)"
  assumes r: "r \<in> set S" and p: "passed (r_ts l, Some (r_pk l)) r"
  shows "passed w r \<or> r \<in> set (batch now q S w)"
proof (cases "passed w r")
  case False
  let ?F = "filter (in_window now (int_seconds (BiasDuration q)) (fst w) (snd w)) S"
  have le: "order_key r \<le> order_key l" using p by (simp add: passed_Some order_key_def)
  have "l \<in> set ?F"
    using B unfolding l_def batch_def by (metis in_set_takeD last_in_set set_sort)
  with le False r have F: "r \<in> set ?F"
    by (auto simp: passed_def in_window_def order_key_def less_eq_prod_def)
  have "r \<in> set (batch now q S w)"
  proof (rule take_sorted_downward)
    show "sorted (map order_key (sort_key order_key ?F))" by simp
    show "inj_on order_key (set (sort_key order_key ?F))"
      using S by (auto simp: inj_on_def intro: order_key_inj)
    show "r \<in> set (sort_key order_key ?F)" using F by simp
    show "batch now q S w = take (nat (BatchSize q)) (sort_key order_key ?F)" by (simp add: batch_def)
  qed (use B le l_def in simp_all)
  then show ?thesis ..
qed simp

lemma batch_members: "r \<in> set (batch now q S w) \<Longrightarrow>
    r \<in> set S \<and> \<not> passed w r \<and> r_ts r \<le> now - int_seconds (BiasDuration q) * 1000000"
  by (auto simp: batch_def in_window_def passed_def dest!: in_set_takeD)

section \<open>The sniffer as a transition system\<close>

text \<open>The job of a source row, if it renders.\<close>

definition source_spec :: "'t SnifferConfig \<Rightarrow> source_row \<Rightarrow> JobSpec option" where
  "source_spec c r = row_spec c (scan_row (sc_fmt_time c) (sc_Query c) r)"

definition spec_queued :: "db \<Rightarrow> JobSpec option \<Rightarrow> bool" where
  "spec_queued D s \<longleftrightarrow> (case s of None \<Rightarrow> True | Some j \<Rightarrow> key_taken (js_TraceID j) (js_Dst j) D)"

definition keys_kept :: "db \<Rightarrow> db \<Rightarrow> bool" where
  "keys_kept D D' \<longleftrightarrow> (\<forall>t d. key_taken t d D \<longrightarrow> key_taken t d D')"

lemma spec_queued_mono: "spec_queued D s \<Longrightarrow> keys_kept D D' \<Longrightarrow> spec_queued D' s"
  by (auto simp: spec_queued_def keys_kept_def split: option.splits)

lemma keys_kept_refl [simp]: "keys_kept D D"
  by (simp add: keys_kept_def)

lemma Upsert_table:
  "LastRunPK st \<noteq> [] \<Longrightarrow>
   snd (Upsert out st T) = T \<or> snd (Upsert out st T) = T(st_SourceID st \<mapsto> (LastRunTS st, Some (LastRunPK st)))"
  by (cases out) (auto simp: Upsert_def Let_def)

text \<open>
  What a poll can do, whatever fails in it: keep the watermark (and perhaps insert jobs), or
  insert the job of every row of the batch and move the watermark to the last row of the batch.
\<close>

lemma runOnceImpl_cases:
  assumes T: "state_ok (sc_SourceID c) T" and q: "query_ok (sc_Query c)"
    and run: "runOnceImpl x c S (T, D) = (res, T', D')"
  defines "B \<equiv> batch (po_now_src x) (sc_Query c) S (watermark (sc_SourceID c) T)"
  obtains (kept) "T' = T" "keys_kept D D'"
  | (advanced) "B \<noteq> []" "keys_kept D D'"
      "T' = T(sc_SourceID c \<mapsto> (r_ts (last B), Some (itoa (r_pk (last B)))))"
      "\<And>r. r \<in> set B \<Longrightarrow> spec_queued D' (source_spec c r)"
proof -
  define spec where "spec = row_specs c (map (scan_row (sc_fmt_time c) (sc_Query c)) B)"
  consider (stop) "T' = T" "D' = D"
    | (go) st where "Load (po_load x) (sc_SourceID c) T = Inr st" "B \<noteq> []"
        "Fetch (po_query x) (po_rows x) (sc_fmt_time c) (po_now_src x) (sc_Query c) S st =
           Inr (map (scan_row (sc_fmt_time c) (sc_Query c)) B)"
    using run Fetch_batch [OF T q, of "po_load x" _ "po_query x" "po_rows x" "sc_fmt_time c" "po_now_src x" S]
    by (auto simp: runOnceImpl_def B_def split: sum.splits if_splits)
  then show thesis
  proof cases
    case stop
    then show thesis by (intro kept) simp_all
  next
    case go
    show thesis
    proof (cases "EnqueueBatch (po_enqueue x) (po_now x) spec D")
      case (Pair r D1)
      have D1: "D1 = snd (EnqueueBatch (po_enqueue x) (po_now x) spec D)" using Pair by simp
      have kk: "keys_kept D D1" by (simp add: keys_kept_def D1 EnqueueBatch_keeps)
      show thesis
      proof (cases r)
        case (Inl e)
        then show thesis
          using run go Pair kk by (intro kept) (auto simp: runOnceImpl_def spec_def)
      next
        case (Inr n)
        have eq: "D' = D1" and T': "T' = snd (Upsert (po_upsert x) \<lparr>st_SourceID = sc_SourceID c,
            LastRunTS = r_ts (last B), LastRunPK = itoa (r_pk (last B))\<rparr> T)"
          using run go Pair Inr q by (auto simp: runOnceImpl_def spec_def last_map split: prod.splits option.splits)
        from Pair Inr have D1': "D1 = snd (insert_specs (po_now x) spec D)"
          by (auto simp: EnqueueBatch_Inr)
        have qd: "spec_queued D' (source_spec c r)" if "r \<in> set B" for r
          using that insert_specs_keys [of _ spec "po_now x" D]
          by (auto simp: spec_queued_def source_spec_def eq D1' spec_def set_row_specs split: option.splits)
        show thesis
        proof (cases "T' = T")
          case True
          then show thesis using kk eq by (intro kept) simp_all
        next
          case False
          then show thesis
            using T' go kk eq qd Upsert_table [of "\<lparr>st_SourceID = sc_SourceID c,
              LastRunTS = r_ts (last B), LastRunPK = itoa (r_pk (last B))\<rparr>" "po_upsert x" T]
            by (intro advanced) auto
        qed
      qed
    qed
  qed
qed

text \<open>
  The source table, the watermark table, the queue and the clock of the source database. Rows are
  written (inserted or updated) with a watermark column newer than the bias window, which is what
  the bias is for; rows may disappear; polls may fail at any statement; and everything else that
  runs on the queue keeps the keys of its rows.
\<close>

record sniff_state =
  sn_source :: "source_row list"
  sn_table :: state_table
  sn_db :: db
  sn_now :: timestamp

definition bias_us :: "'t SnifferConfig \<Rightarrow> int" where
  "bias_us c = int_seconds (BiasDuration (sc_Query c)) * 1000000"

inductive sniff_step :: "'t SnifferConfig \<Rightarrow> sniff_state \<Rightarrow> sniff_state \<Rightarrow> bool"
  for c :: "'t SnifferConfig" where
  sn_tick: "sn_now s \<le> t \<Longrightarrow> sniff_step c s (s\<lparr>sn_now := t\<rparr>)"
| sn_write: "sn_now s - bias_us c < r_ts r \<Longrightarrow> - (2 ^ 63) \<le> r_pk r \<Longrightarrow> r_pk r < 2 ^ 63 \<Longrightarrow>
    sniff_step c s (s\<lparr>sn_source := r # filter (\<lambda>r'. r_pk r' \<noteq> r_pk r) (sn_source s)\<rparr>)"
| sn_remove: "sniff_step c s (s\<lparr>sn_source := filter p (sn_source s)\<rparr>)"
| sn_poll: "po_now_src x = sn_now s \<Longrightarrow>
    RunOnce x c (sn_source s) (sn_table s, sn_db s) = (res, cb, T', D') \<Longrightarrow>
    sniff_step c s (s\<lparr>sn_table := T', sn_db := D'\<rparr>)"
| sn_queue: "keys_kept (sn_db s) D' \<Longrightarrow> sniff_step c s (s\<lparr>sn_db := D'\<rparr>)"

definition sniff_init :: "'t SnifferConfig \<Rightarrow> sniff_state \<Rightarrow> bool" where
  "sniff_init c s \<longleftrightarrow> query_ok (sc_Query c) \<and> source_ok (sn_source s) \<and>
     (\<forall>r \<in> set (sn_source s). zero_time < r_ts r) \<and> sn_table s (sc_SourceID c) = None \<and>
     zero_time \<le> sn_now s - bias_us c"

abbreviation mark :: "'t SnifferConfig \<Rightarrow> sniff_state \<Rightarrow> timestamp \<times> int option" where
  "mark c s \<equiv> watermark (sc_SourceID c) (sn_table s)"

definition caught_up :: "'t SnifferConfig \<Rightarrow> sniff_state \<Rightarrow> bool" where
  "caught_up c s \<longleftrightarrow>
     (\<forall>r \<in> set (sn_source s). passed (mark c s) r \<longrightarrow> spec_queued (sn_db s) (source_spec c r))"

definition sniff_inv :: "'t SnifferConfig \<Rightarrow> sniff_state \<Rightarrow> bool" where
  "sniff_inv c s \<longleftrightarrow> query_ok (sc_Query c) \<and> source_ok (sn_source s) \<and>
     state_ok (sc_SourceID c) (sn_table s) \<and> fst (mark c s) \<le> sn_now s - bias_us c \<and> caught_up c s"

lemma RunOnce_impl:
  "RunOnce x c S TD = (res, cb, T', D') \<longleftrightarrow>
     runOnceImpl x c S TD = (res, T', D') \<and>
     cb = (case snd res of None \<Rightarrow> OnEnqueue (sc_SourceID c) (fst res) | Some _ \<Rightarrow> OnError (sc_SourceID c))"
  by (auto simp: RunOnce_def split: prod.splits option.splits)

lemma last_batch:
  assumes "source_ok S" and "batch now q S w \<noteq> []"
  shows "atoi (itoa (r_pk (last (batch now q S w)))) = Some (r_pk (last (batch now q S w)))"
    and "r_ts (last (batch now q S w)) \<le> now - int_seconds (BiasDuration q) * 1000000"
  using assms batch_members [of "last (batch now q S w)" now q S w]
  by (auto simp: source_ok_def intro!: atoi_itoa)

lemma poll_keeps_inv:
  assumes inv: "sniff_inv c s" and x: "po_now_src x = sn_now s"
    and run: "runOnceImpl x c (sn_source s) (sn_table s, sn_db s) = (res, T', D')"
  shows "sniff_inv c (s\<lparr>sn_table := T', sn_db := D'\<rparr>)"
proof -
  from inv have q: "query_ok (sc_Query c)" and S: "source_ok (sn_source s)"
    and T: "state_ok (sc_SourceID c) (sn_table s)" by (auto simp: sniff_inv_def)
  from T q run show ?thesis
  proof (cases rule: runOnceImpl_cases)
    case kept
    then show ?thesis
      using inv by (auto simp: sniff_inv_def caught_up_def intro: spec_queued_mono)
  next
    case advanced
    let ?B = "batch (po_now_src x) (sc_Query c) (sn_source s) (mark c s)"
    note l = last_batch [OF S advanced(1)]
    have w: "watermark (sc_SourceID c) T' = (r_ts (last ?B), Some (r_pk (last ?B)))"
      using l by (simp add: watermark_def advanced(3))
    have "spec_queued D' (source_spec c r)" if "r \<in> set (sn_source s)"
        "passed (watermark (sc_SourceID c) T') r" for r
      using batch_passed [OF S advanced(1) that(1)] that inv advanced w
      by (auto simp: sniff_inv_def caught_up_def intro: spec_queued_mono)
    then show ?thesis
      using q S l x w by (simp add: sniff_inv_def caught_up_def state_ok_def advanced(3) bias_us_def)
  qed
qed

interpretation sniffer_inv: inductive_invariant "sniff_init c" "sniff_step c" "sniff_inv c" for c
proof
  show "sniff_inv c s" if "sniff_init c s" for s
    using that by (auto simp: sniff_init_def sniff_inv_def caught_up_def state_ok_def watermark_def
        passed_def after_watermark_def)
  show "sniff_inv c t" if "sniff_step c s t" "sniff_inv c s" for s t
    using that
  proof cases
    case (sn_write r)
    have "\<not> passed (mark c s) r"
      using that(2) sn_write(2)
      by (cases "snd (mark c s)") (auto simp: sniff_inv_def passed_def after_watermark_def)
    with that(2) sn_write show ?thesis
      by (auto simp: sniff_inv_def source_ok_def caught_up_def distinct_map_filter)
  next
    case (sn_remove p)
    with that(2) show ?thesis
      by (auto simp: sniff_inv_def source_ok_def caught_up_def distinct_map_filter)
  next
    case (sn_poll x res cb T' D')
    with that(2) show ?thesis by (auto simp: RunOnce_impl intro: poll_keeps_inv)
  qed (auto simp: sniff_inv_def caught_up_def intro: spec_queued_mono)
qed

section \<open>Draining\<close>

text \<open>A poll at time \<open>now\<close> in which no statement fails, and \<open>n\<close> such polls.\<close>

definition clean_poll :: "timestamp \<Rightarrow> poll_env" where
  "clean_poll now = \<lparr>po_now_src = now, po_now = now, po_load = None, po_query = None, po_rows = None,
     po_enqueue = DB_Ok, po_upsert = DB_Ok\<rparr>"

fun clean_polls :: "nat \<Rightarrow> timestamp \<Rightarrow> 't SnifferConfig \<Rightarrow> source_row list \<Rightarrow> state_table \<times> db \<Rightarrow> state_table \<times> db" where
  "clean_polls 0 now c S TD = TD"
| "clean_polls (Suc n) now c S TD = clean_polls n now c S (snd (runOnceImpl (clean_poll now) c S TD))"

definition waiting :: "timestamp \<Rightarrow> 't SnifferConfig \<Rightarrow> source_row list \<Rightarrow> state_table \<Rightarrow> source_row list" where
  "waiting now c S T = filter (\<lambda>r. \<not> passed (watermark (sc_SourceID c) T) r \<and> r_ts r \<le> now - bias_us c) S"

lemma batch_waiting:
  "batch now (sc_Query c) S (watermark (sc_SourceID c) T) =
     take (nat (BatchSize (sc_Query c))) (sort_key order_key (waiting now c S T))"
  by (simp add: batch_def waiting_def in_window_def [abs_def] passed_def bias_us_def)

lemma batch_Nil: "query_ok (sc_Query c) \<Longrightarrow>
    batch now (sc_Query c) S (watermark (sc_SourceID c) T) = [] \<longleftrightarrow> waiting now c S T = []"
  by (auto simp: batch_waiting query_ok_def simp flip: length_0_conv)

lemma clean_poll_run:
  assumes T: "state_ok (sc_SourceID c) T" and q: "query_ok (sc_Query c)"
    and B: "B = batch now (sc_Query c) S (watermark (sc_SourceID c) T)"
  shows "runOnceImpl (clean_poll now) c S (T, D) =
    (if B = [] then ((0, None), T, D)
     else case insert_specs now (row_specs c (map (scan_row (sc_fmt_time c) (sc_Query c)) B)) D of
       (n, D') \<Rightarrow> ((n, None), T(sc_SourceID c \<mapsto> (r_ts (last B), Some (itoa (r_pk (last B))))), D'))"
proof -
  obtain st where st: "Load None (sc_SourceID c) T = Inr st"
    by (cases "T (sc_SourceID c)") (auto simp: Load_def)
  with Fetch_total [OF T q st] Fetch_batch [OF T q st]
  have F: "Fetch None None (sc_fmt_time c) now (sc_Query c) S st =
      Inr (map (scan_row (sc_fmt_time c) (sc_Query c)) B)"
    by (force simp: B)
  show ?thesis
    using st F q
    by (cases "insert_specs now (row_specs c (map (scan_row (sc_fmt_time c) (sc_Query c)) B)) D")
       (simp add: runOnceImpl_def clean_poll_def last_map Upsert_def Let_def
        EnqueueBatch_Inr [of DB_Ok, THEN iffD2])
qed

lemma passed_before: "passed w r \<Longrightarrow> \<not> passed w l \<Longrightarrow> order_key r \<le> order_key l"
  by (cases w; cases "snd w")
     (auto simp: passed_def after_watermark_def order_key_def less_eq_prod_def)

lemma passed_after_batch:
  assumes S: "source_ok S" and B: "B = batch now q S w" "B \<noteq> []" and r: "r \<in> set S"
  shows "passed (r_ts (last B), Some (r_pk (last B))) r \<longleftrightarrow> passed w r \<or> r \<in> set B"
proof
  assume "passed (r_ts (last B), Some (r_pk (last B))) r"
  then show "passed w r \<or> r \<in> set B" using batch_passed [OF S B(2) [unfolded B(1)] r] B(1) by simp
next
  have "sorted (map order_key B)"
    unfolding B(1) batch_def take_map [symmetric] by (rule sorted_wrt_take) simp
  then have "order_key r \<le> order_key (last B)" if "r \<in> set B"
    using that by (induction B rule: rev_induct) (auto simp: sorted_append)
  moreover have "\<not> passed w (last B)"
    using batch_members [of "last B" now q S w] B by simp
  moreover assume "passed w r \<or> r \<in> set B"
  ultimately show "passed (r_ts (last B), Some (r_pk (last B))) r"
    by (auto simp: passed_Some order_key_def [symmetric] intro: passed_before)
qed

lemma length_filter_member:
  assumes "distinct xs" and "distinct ys" and "set ys \<subseteq> set xs"
  shows "length (filter (\<lambda>x. x \<notin> set ys) xs) + length ys = length xs"
proof -
  have "length (filter (\<lambda>x. x \<in> set ys) xs) = length ys"
    using assms by (simp add: distinct_length_filter distinct_card inf.absorb1 flip: Collect_mem_eq)
  then show ?thesis using sum_length_filter_compl [of "\<lambda>x. x \<in> set ys" xs] by simp
qed

lemma waiting_after_batch:
  assumes S: "source_ok S" and B: "B = batch now (sc_Query c) S (watermark (sc_SourceID c) T)" "B \<noteq> []"
    and w: "watermark (sc_SourceID c) T' = (r_ts (last B), Some (r_pk (last B)))"
  shows "length (waiting now c S T') + length B = length (waiting now c S T)"
proof -
  have "waiting now c S T' = filter (\<lambda>r. r \<notin> set B) (waiting now c S T)"
    using passed_after_batch [OF S B] by (auto simp: waiting_def w intro: filter_cong)
  moreover have "distinct (waiting now c S T)"
    using S by (auto simp: waiting_def source_ok_def distinct_map)
  moreover have "distinct B" "set B \<subseteq> set (waiting now c S T)"
    using \<open>distinct (waiting now c S T)\<close> by (auto simp: B(1) batch_waiting dest: in_set_takeD)
  ultimately show ?thesis using length_filter_member by metis
qed

text \<open>Each clean poll takes a batch off what is waiting.\<close>

lemma clean_polls_drain:
  assumes "sniff_inv c s" and "clean_polls n (sn_now s) c (sn_source s) (sn_table s, sn_db s) = (T', D')"
  shows "sniff_inv c (s\<lparr>sn_table := T', sn_db := D'\<rparr>) \<and>
    length (waiting (sn_now s) c (sn_source s) T') =
      length (waiting (sn_now s) c (sn_source s) (sn_table s)) - n * nat (BatchSize (sc_Query c))"
  using assms
proof (induction n arbitrary: s)
  case (Suc n)
  let ?S = "sn_source s" and ?T = "sn_table s"
  define B where "B = batch (sn_now s) (sc_Query c) ?S (mark c s)"
  obtain res T1 D1 where run: "runOnceImpl (clean_poll (sn_now s)) c ?S (?T, sn_db s) = (res, T1, D1)"
    by (metis prod_cases3)
  let ?s1 = "s\<lparr>sn_table := T1, sn_db := D1\<rparr>"
  have q: "query_ok (sc_Query c)" "state_ok (sc_SourceID c) ?T" "source_ok ?S"
    using Suc.prems(1) by (auto simp: sniff_inv_def)
  have inv1: "sniff_inv c ?s1"
    using poll_keeps_inv [OF Suc.prems(1) _ run] by (simp add: clean_poll_def)
  have len: "length B = min (nat (BatchSize (sc_Query c))) (length (waiting (sn_now s) c ?S ?T))"
    by (simp add: B_def batch_waiting min.commute)
  have "length (waiting (sn_now s) c ?S T1) + length B = length (waiting (sn_now s) c ?S ?T)"
  proof (cases "B = []")
    case True
    then show ?thesis using run clean_poll_run [OF q(2,1) B_def] by simp
  next
    case False
    then have "T1 = ?T(sc_SourceID c \<mapsto> (r_ts (last B), Some (itoa (r_pk (last B)))))"
      using run clean_poll_run [OF q(2,1) B_def] by (auto split: prod.splits)
    then have "watermark (sc_SourceID c) T1 = (r_ts (last B), Some (r_pk (last B)))"
      using last_batch(1) [OF q(3), folded B_def] False by (simp add: watermark_def B_def)
    then show ?thesis by (rule waiting_after_batch [OF q(3) B_def False])
  qed
  moreover note Suc.IH [OF inv1] Suc.prems(2)
  ultimately show ?case using run len by (auto simp: algebra_simps)
next
  case 0
  then have eq: "s\<lparr>sn_table := T', sn_db := D'\<rparr> = s" by (cases s) simp
  from 0 show ?case unfolding eq by simp
qed

lemma inv_drained:
  assumes "sniff_inv c s" and "waiting (sn_now s) c (sn_source s) (sn_table s) = []"
    and "r \<in> set (sn_source s)" and "r_ts r \<le> sn_now s - bias_us c"
  shows "spec_queued (sn_db s) (source_spec c r)"
  using assms by (auto simp: sniff_inv_def caught_up_def waiting_def filter_empty_conv)

section \<open>Properties\<close>

text \<open>The set-up the witnesses run: two rows with equal timestamps and batches of one row.\<close>

definition example_engine :: "string engine" where
  "example_engine = \<lparr>tmpl_parse = (\<lambda>p. if p = ''{{'' then Inl (PlainErr ''unclosed action'') else Inr p),
     tmpl_execute = (\<lambda>t fs. case fs t of None \<Rightarrow> Inl (PlainErr ''no entry for key'') | Some v \<Rightarrow> Inr v)\<rparr>"

definition example_config :: "string \<Rightarrow> string SnifferConfig" where
  "example_config pat = \<lparr>sc_SourceID = ''s'',
     sc_Query = \<lparr>Table = ''images'', PKColumn = ''id'', TSColumn = ''ts'', ExtraColumns = [''path''],
                 BatchSize = 1, BiasDuration = 2 * Second\<rparr>,
     sc_Dst = \<lparr>Pattern = pat, Shadow = False\<rparr>, sc_SrcPattern = ''path'',
     sc_SrcProtocol = ''ftp'', sc_DstProtocol = ''localfs'',
     sc_engine = example_engine, sc_fmt_time = itoa\<rparr>"

definition example_rows :: "source_row list" where
  "example_rows = [\<lparr>r_pk = 10, r_ts = 5, r_cols = [''path'' \<mapsto> ''/b'']\<rparr>,
                   \<lparr>r_pk = 9, r_ts = 5, r_cols = [''path'' \<mapsto> ''/a'']\<rparr>]"

definition example_sniff :: sniff_state where
  "example_sniff = \<lparr>sn_source = example_rows, sn_table = Map.empty, sn_db = empty_db, sn_now = 3000000\<rparr>"

lemma example_bias [simp]: "int_seconds 2000000000 = 2"
  using int_seconds_whole [of 2] by simp

lemma example_init: "sniff_init (example_config pat) example_sniff"
  by (simp add: sniff_init_def example_sniff_def example_config_def example_rows_def query_ok_def
      source_ok_def zero_time_def bias_us_def)

lemma example_reach:
  "reach (sniff_init (example_config pat)) (sniff_step (example_config pat)) example_sniff"
  by (rule reach_init) (rule example_init)

lemma example_waiting:
  "length (waiting now (example_config pat) example_rows T) \<le>
     2 * nat (BatchSize (sc_Query (example_config pat)))"
proof -
  have "length (waiting now (example_config pat) example_rows T) \<le> length example_rows"
    unfolding waiting_def by (rule length_filter_le)
  also have "\<dots> = 2" by (simp add: example_rows_def)
  finally show ?thesis by (simp add: example_config_def)
qed

lemma example_spec:
  "source_spec (example_config ''path'') r =
     (case r_cols r ''path'' of
        None \<Rightarrow> Some \<lparr>js_TraceID = ''images-'' @ itoa (r_pk r), js_Src = [], js_Dst = [],
                   js_SrcProtocol = ''ftp'', js_DstProtocol = ''localfs''\<rparr>
      | Some p \<Rightarrow> Some \<lparr>js_TraceID = ''images-'' @ itoa (r_pk r), js_Src = p, js_Dst = p,
                   js_SrcProtocol = ''ftp'', js_DstProtocol = ''localfs''\<rparr>)"
  by (simp add: source_spec_def row_spec_def Render_def example_config_def example_engine_def
      scan_row_def TraceID_of_def Let_def split: option.split)

lemma example_polled:
  "\<exists>D. reach (sniff_init (example_config pat)) (sniff_step (example_config pat))
     (example_sniff\<lparr>sn_table := [''s'' \<mapsto> (5, Some (itoa 9))], sn_db := D\<rparr>)"
proof -
  let ?c = "example_config pat" and ?s = example_sniff
  have B: "batch 3000000 (sc_Query ?c) example_rows (watermark (sc_SourceID ?c) Map.empty) =
      [\<lparr>r_pk = 9, r_ts = 5, r_cols = [''path'' \<mapsto> ''/a'']\<rparr>]"
    by (simp add: batch_def example_config_def example_rows_def watermark_def zero_time_def in_window_def
        after_watermark_def order_key_def)
  have ok: "state_ok ''s'' Map.empty" "query_ok (sc_Query ?c)" "sc_SourceID ?c = ''s''"
    by (simp_all add: state_ok_def query_ok_def example_config_def)
  obtain n D where run: "runOnceImpl (clean_poll 3000000) ?c example_rows (Map.empty, empty_db) =
      ((n, None), [''s'' \<mapsto> (5, Some (itoa 9))], D)"
    using clean_poll_run [OF _ _ B [symmetric], of empty_db]
    by (cases "insert_specs 3000000 (row_specs ?c (map (scan_row (sc_fmt_time ?c) (sc_Query ?c))
          [\<lparr>r_pk = 9, r_ts = 5, r_cols = [''path'' \<mapsto> ''/a'']\<rparr>])) empty_db")
       (simp add: ok)
  have "sniff_step ?c ?s (?s\<lparr>sn_table := [''s'' \<mapsto> (5, Some (itoa 9))], sn_db := D\<rparr>)"
  proof (rule sn_poll)
    show "po_now_src (clean_poll 3000000) = sn_now ?s" by (simp add: clean_poll_def example_sniff_def)
    show "RunOnce (clean_poll 3000000) ?c (sn_source ?s) (sn_table ?s, sn_db ?s) =
       ((n, None), OnEnqueue ''s'' n, [''s'' \<mapsto> (5, Some (itoa 9))], D)"
      using run by (simp add: RunOnce_impl example_sniff_def) (simp add: example_config_def)
  qed
  from reach_step [OF example_reach this] show ?thesis by blast
qed





lemma bad_pattern_no_spec:
  "tmpl_parse (sc_engine c) (Pattern (sc_Dst c)) = Inl e \<Longrightarrow> row_spec c r = None"
  by (simp add: row_spec_def Render_def)

lemma bad_pattern_no_specs:
  "tmpl_parse (sc_engine c) (Pattern (sc_Dst c)) = Inl e \<Longrightarrow> row_specs c rs = []"
  by (induction rs) (simp_all add: bad_pattern_no_spec)

lemma bad_pattern_polls:
  assumes "tmpl_parse (sc_engine c) (Pattern (sc_Dst c)) = Inl e"
  shows "snd (clean_polls n now c S (T, D)) = D"
proof (induction n arbitrary: T)
  case (Suc n)
  have "snd (snd (runOnceImpl (clean_poll now) c S (T, D))) = D"
    using assms
    by (auto simp: runOnceImpl_def clean_poll_def EnqueueBatch_def bad_pattern_no_specs
        split: sum.splits prod.splits option.splits)
  then show ?case using Suc by (metis clean_polls.simps(2) prod.collapse)
qed simp

text \<open>
  A destination pattern that does not parse loses the rows it meets. Render fails for every
  row, which the poll takes for a poison row: polls succeed, no job is ever inserted, and after
  enough of them the watermark has passed every row of the window, so that correcting the
  pattern later does not bring the rows back.
\<close>

lemma bad_pattern_loses_rows:
  assumes "reach (sniff_init c) (sniff_step c) s"
    and "tmpl_parse (sc_engine c) (Pattern (sc_Dst c)) = Inl e"
    and "length (waiting (sn_now s) c (sn_source s) (sn_table s)) \<le> n * nat (BatchSize (sc_Query c))"
    and "clean_polls n (sn_now s) c (sn_source s) (sn_table s, sn_db s) = (T', D')"
  shows "D' = sn_db s \<and>
    (\<forall>r \<in> set (sn_source s). r_ts r \<le> sn_now s - bias_us c \<longrightarrow> passed (watermark (sc_SourceID c) T') r)"
proof -
  have "waiting (sn_now s) c (sn_source s) T' = []"
    using clean_polls_drain [OF sniffer_inv.reach_inv [OF assms(1)] assms(4)] assms(3) by auto
  moreover have "D' = sn_db s"
    using bad_pattern_polls [OF assms(2), of n "sn_now s" "sn_source s" "sn_table s" "sn_db s"] assms(4) by simp
  ultimately show ?thesis by (auto simp: waiting_def filter_empty_conv)
qed

text \<open>Inserting the rows of a batch one after the other, counting the new ones.\<close>

fun enqueue_each :: "timestamp \<Rightarrow> JobSpec list \<Rightarrow> db \<Rightarrow> int \<times> db" where
  "enqueue_each now [] D = (0, D)"
| "enqueue_each now (j # js) D =
     (case sniffer_Enqueue DB_Ok now j D of (r, D1) \<Rightarrow>
        case enqueue_each now js D1 of (n, D2) \<Rightarrow> ((if r = Inr True then 1 else 0) + n, D2))"

lemma sniffer_Enqueue_ok:
  "sniffer_Enqueue DB_Ok now j D = (case insert_spec now j D of (n, D') \<Rightarrow> (Inr (n = 1), D'))"
  by (simp add: sniffer_Enqueue_def split: prod.split)

lemma insert_spec_count: "fst (insert_spec now j D) = 0 \<or> fst (insert_spec now j D) = 1"
  by (rule insert_spec_cases [of j D now]) auto

lemma enqueue_each_eq: "enqueue_each now js D = insert_specs now js D"
proof (induction js arbitrary: D)
  case (Cons j js)
  then show ?case
    using insert_spec_count [of now j D] by (auto simp: sniffer_Enqueue_ok split: prod.splits)
qed simp



end
