(* ===== verification/Errdetail.thy ===== *)
theory Errdetail
  imports Go_Lib
begin

text \<open>
  \<^verbatim>\<open>internal/worker/errdetail.go\<close>: what the worker stores of an error message, and the
  jittered exponential delay before a retry.
\<close>

section \<open>Scrubbing credentials\<close>

definition maxDetailLen :: nat where
  "maxDetailLen = 1024"

definition is_letter :: "char \<Rightarrow> bool" where
  "is_letter c \<longleftrightarrow> (let n = (of_char c :: nat) in (65 \<le> n \<and> n \<le> 90) \<or> (97 \<le> n \<and> n \<le> 122))"

text \<open>The classes \<^verbatim>\<open>[a-zA-Z0-9+.-]\<close> and \<^verbatim>\<open>[^/@\s]\<close> of \<^verbatim>\<open>credRe\<close>; \<^verbatim>\<open>\s\<close> is tab, newline, form feed, return, space.\<close>

definition scheme_char :: "char \<Rightarrow> bool" where
  "scheme_char c \<longleftrightarrow> is_letter c \<or> is_digit c \<or> c \<in> {CHR ''+'', CHR ''.'', CHR ''-''}"

definition userinfo_char :: "char \<Rightarrow> bool" where
  "userinfo_char c \<longleftrightarrow> c \<notin> {CHR ''/'', CHR ''@''} \<and> (of_char c :: nat) \<notin> {9, 10, 12, 13, 32}"

text \<open>
  A match of \<^verbatim>\<open>credRe\<close> at the head of a string: its first group (scheme and \<^verbatim>\<open>://\<close>) and
  what follows the match. No class contains the character that ends its run, so the greedy
  runs are the only way to match.
\<close>

definition match_cred :: "string \<Rightarrow> (string \<times> string) option" where
  "match_cred s =
     (let run = takeWhile scheme_char s; rest = dropWhile scheme_char s;
          ui = takeWhile userinfo_char (drop 3 rest); tail = dropWhile userinfo_char (drop 3 rest)
      in if s \<noteq> [] \<and> is_letter (hd s) \<and> take 3 rest = ''://'' \<and> ui \<noteq> [] \<and>
            tail \<noteq> [] \<and> hd tail = CHR ''@''
         then Some (run @ ''://'', tl tail) else None)"

lemma match_cred_shorter: "match_cred s = Some (g, r) \<Longrightarrow> length r < length s"
proof -
  assume m: "match_cred s = Some (g, r)"
  let ?rest = "dropWhile scheme_char s"
  let ?tail = "dropWhile userinfo_char (drop 3 ?rest)"
  from m have r: "r = tl ?tail" "s \<noteq> []"
    by (auto simp: match_cred_def Let_def split: if_splits)
  have "length ?tail \<le> length (drop 3 ?rest)" "length ?rest \<le> length s"
    by (rule length_dropWhile_le)+
  then have "length ?tail \<le> length s" by simp
  moreover have "length r = length ?tail - 1" "0 < length s" using r by simp_all
  ultimately show ?thesis by linarith
qed

text \<open>\<^verbatim>\<open>credRe.ReplaceAllString(s, "$1")\<close>: leftmost matches, scanning on after each one.\<close>

function scrub :: "string \<Rightarrow> string" where
  "scrub [] = []"
| "scrub (c # cs) =
     (case match_cred (c # cs) of
        None \<Rightarrow> c # scrub cs
      | Some (g, r) \<Rightarrow> g @ scrub r)"
  by pat_completeness auto
termination
  by (relation "measure length") (auto dest: match_cred_shorter)

definition sanitizeErrMsg :: "string \<Rightarrow> string" where
  "sanitizeErrMsg s =
     (let s' = scrub s in if maxDetailLen < length s' then take maxDetailLen s' else s')"

section \<open>Retry delay\<close>

text \<open>
  \<open>u\<close> is \<^verbatim>\<open>backoffRNG.Float64()\<close>. The shift count is never negative: the worker passes the
  stored attempts plus one.
\<close>

definition backoff_nominal :: "int \<Rightarrow> rat" where
  "backoff_nominal attempts = fl (fl (of_int (wrap64 (2 ^ nat attempts))) * fl (of_int Second))"

definition retryBackoff :: "(rat \<Rightarrow> int) \<Rightarrow> rat \<Rightarrow> int \<Rightarrow> duration" where
  "retryBackoff oor u attempts =
     (let nominal = backoff_nominal attempts;
          offset = fl (fl (fl (u - 1 / 2) * (1 / 2)) * nominal)
      in float_to_int64 oor (fl (nominal + offset)))"

section \<open>Lemmas\<close>

lemma scrub_no_match:
  "(\<And>k. match_cred (drop k s) = None) \<Longrightarrow> scrub s = s"
proof (induction s)
  case (Cons c cs)
  have "match_cred (c # cs) = None" using Cons.prems [of 0] by simp
  moreover have "scrub cs = cs"
    using Cons.prems [of "Suc k" for k] by (intro Cons.IH) simp
  ultimately show ?case by simp
qed simp

lemma sanitize_length: "length (sanitizeErrMsg s) \<le> maxDetailLen"
  by (simp add: sanitizeErrMsg_def Let_def)

lemma scheme_char_colon: "\<not> scheme_char CHR '':''"
  by (simp add: scheme_char_def is_letter_def is_digit_def)

lemma userinfo_char_at: "\<not> userinfo_char CHR ''@''"
  by (simp add: userinfo_char_def)

lemma match_cred_url:
  assumes "sch \<noteq> []" "is_letter (hd sch)" "list_all scheme_char sch"
    and "ui \<noteq> []" "list_all userinfo_char ui"
  shows "match_cred (sch @ ''://'' @ ui @ CHR ''@'' # r) = Some (sch @ ''://'', r)"
proof -
  let ?s = "sch @ ''://'' @ ui @ CHR ''@'' # r"
  have run: "takeWhile scheme_char ?s = sch" "dropWhile scheme_char ?s = ''://'' @ ui @ CHR ''@'' # r"
    using assms(3) scheme_char_colon by (auto simp: takeWhile_append2 dropWhile_append2 list_all_iff)
  have ui: "takeWhile userinfo_char (ui @ CHR ''@'' # r) = ui"
    "dropWhile userinfo_char (ui @ CHR ''@'' # r) = CHR ''@'' # r"
    using assms(5) userinfo_char_at by (auto simp: takeWhile_append2 dropWhile_append2 list_all_iff)
  show ?thesis
    unfolding match_cred_def run Let_def using assms(1,2,4) ui by simp
qed

text \<open>Powers of two times a second are held exactly, and so are their quarters.\<close>

lemma pow2_second:
  assumes "c \<in> {1, 3, 4, 5}"
  shows "representable (of_int c / 4 * (2 ^ n * of_int Second))"
proof -
  have "of_int c / 4 * (2 ^ n * of_int Second) = (of_int (c * Second) :: rat) * 2 ^ n / 2 ^ 2"
    by simp
  moreover have "\<bar>c * Second\<bar> \<le> 2 ^ 53" using assms by auto
  ultimately show ?thesis using representable_dyadic by metis
qed

lemma wrap64_pow2: "n < 63 \<Longrightarrow> wrap64 (2 ^ n) = 2 ^ n"
proof (rule wrap64_id)
  show "- (2 ^ 63) \<le> (2 ^ n :: int)" by (rule order.trans [of _ 0]) simp_all
  show "n < 63 \<Longrightarrow> (2 ^ n :: int) < 2 ^ 63" by (rule power_strict_increasing) simp_all
qed

lemma backoff_nominal_eq:
  assumes "0 \<le> a" and "a < 63"
  shows "backoff_nominal a = 2 ^ nat a * of_int Second"
proof -
  have "fl (2 ^ nat a) = 2 ^ nat a"
    using representable_dyadic [of 1 "nat a" 0] by (intro fl_representable) simp
  moreover have "wrap64 (2 ^ nat a) = 2 ^ nat a"
    using assms by (intro wrap64_pow2) simp
  moreover have "fl (of_int Second) = of_int Second"
    by (intro fl_representable representable_of_int) simp
  moreover have "fl (2 ^ nat a * of_int Second) = 2 ^ nat a * of_int Second"
    using pow2_second [of 4 "nat a"] by (intro fl_representable) simp
  ultimately show ?thesis unfolding backoff_nominal_def by simp
qed

text \<open>The jittered value stays within a quarter of the nominal one.\<close>

lemma jitter_bounds:
  assumes u: "0 \<le> u" "u < 1" and n: "0 \<le> n"
    and r: "representable (n / 4)" "representable (3 / 4 * n)" "representable (5 / 4 * n)"
  shows "3 / 4 * n \<le> fl (n + fl (fl (fl (u - 1 / 2) * (1 / 2)) * n))"
    and "fl (n + fl (fl (fl (u - 1 / 2) * (1 / 2)) * n)) \<le> 5 / 4 * n"
proof -
  let ?v = "fl (u - 1 / 2)" and ?w = "fl (fl (u - 1 / 2) * (1 / 2))"
  have v: "- (1 / 2) \<le> ?v" "?v \<le> 1 / 2"
    using u by (intro fl_ge fl_le half_representable; simp)+
  have w: "- (1 / 4) \<le> ?w" "?w \<le> 1 / 4"
    using v by (intro fl_ge fl_le half_representable; simp)+
  have "- (n / 4) \<le> ?w * n" "?w * n \<le> n / 4"
    using mult_right_mono [OF w(1) n] mult_right_mono [OF w(2) n] by simp_all
  then have o: "- (n / 4) \<le> fl (?w * n)" "fl (?w * n) \<le> n / 4"
    using r(1) by (intro fl_ge fl_le; simp)+
  show "3 / 4 * n \<le> fl (n + fl (?w * n))"
    using o(1) r(2) by (intro fl_ge) (simp_all add: field_simps)
  show "fl (n + fl (?w * n)) \<le> 5 / 4 * n"
    using o(2) r(3) by (intro fl_le) (simp_all add: field_simps)
qed

lemma backoff_float_bounds:
  assumes "0 \<le> a" "a < 63" "0 \<le> u" "u < 1"
  defines "n \<equiv> 2 ^ nat a * of_int Second"
  shows "3 / 4 * n \<le> fl (n + fl (fl (fl (u - 1 / 2) * (1 / 2)) * n))"
    and "fl (n + fl (fl (fl (u - 1 / 2) * (1 / 2)) * n)) \<le> 5 / 4 * n"
  using jitter_bounds [of u n] pow2_second [of 1 "nat a"] pow2_second [of 3 "nat a"]
    pow2_second [of 5 "nat a"] assms(3,4) by (simp_all add: n_def)

lemma retryBackoff_eq:
  assumes "0 \<le> a" "a < 63"
  shows "retryBackoff oor u a = float_to_int64 oor (fl (2 ^ nat a * of_int Second +
    fl (fl (fl (u - 1 / 2) * (1 / 2)) * (2 ^ nat a * of_int Second))))"
  unfolding retryBackoff_def Let_def backoff_nominal_eq [OF assms] by (rule refl)

lemma pow2_nat_bounds: "a \<le> b \<Longrightarrow> (2::int) ^ nat a \<le> 2 ^ nat b"
  by (rule power_increasing) simp_all

section \<open>Properties\<close>



text \<open>From 34 attempts on, whatever the jitter, the delay does not fit in a 64-bit
  duration: the result of \<^verbatim>\<open>retryBackoff\<close> is the implementation-dependent value of an
  out-of-range conversion, not an exponential delay.\<close>

lemma retryBackoff_overflow:
  assumes "34 \<le> a" and "a < 63" and "0 \<le> u" and "u < 1"
  shows "\<exists>x. 2 ^ 63 \<le> x \<and> retryBackoff oor u a = oor x"
proof -
  define x where "x = fl (2 ^ nat a * of_int Second +
    fl (fl (fl (u - 1 / 2) * (1 / 2)) * (2 ^ nat a * of_int Second)))"
  have p: "(2::rat) ^ 34 \<le> 2 ^ nat a" using assms(1) by (intro power_increasing) simp_all
  have "3 / 4 * (2 ^ nat a * of_int Second) \<le> x"
    using backoff_float_bounds(1) [of a u] assms by (simp add: x_def)
  with p have x: "2 ^ 63 \<le> x" by simp
  then have "of_int (2 ^ 63) \<le> x" by simp
  then have "2 ^ 63 \<le> trunc x" using trunc_mono trunc_of_int by metis
  moreover have "retryBackoff oor u a = float_to_int64 oor x"
    unfolding x_def using assms by (intro retryBackoff_eq) simp_all
  ultimately have "retryBackoff oor u a = oor x" by (simp add: float_to_int64_def)
  with x show ?thesis by blast
qed



text \<open>A password that contains an at-sign is not removed: only the part up to the first
  at-sign goes, and the rest of the password stays in the stored message.\<close>

lemma sanitize_leaks_at_sign_password:
  "sanitizeErrMsg ''dial ftp://u:p@ss@h/x'' = ''dial ftp://ss@h/x''"
  by (simp add: sanitizeErrMsg_def maxDetailLen_def match_cred_def is_letter_def scheme_char_def
      is_digit_def userinfo_char_def)

text \<open>A message without embedded credentials that fits the bound is stored unchanged, and
  no stored message is longer than the bound.\<close>

lemma sanitize_bounded:
  "length (sanitizeErrMsg s) \<le> maxDetailLen \<and>
   ((\<forall>k. match_cred (drop k s) = None) \<and> length s \<le> maxDetailLen \<longrightarrow> sanitizeErrMsg s = s)"
proof -
  have "sanitizeErrMsg s = s" if "\<forall>k. match_cred (drop k s) = None" "length s \<le> maxDetailLen"
    using that scrub_no_match [of s] by (simp add: sanitizeErrMsg_def)
  then show ?thesis using sanitize_length by blast
qed

end
