(* ===== verification/Worker.thy ===== *)
theory Worker
  imports Queue_DB Errdetail
begin

text \<open>
  \<^verbatim>\<open>internal/worker\<close>: leasing a job (\<^verbatim>\<open>job.go\<close>), driving it to an outcome (\<^verbatim>\<open>process.go\<close>)
  and the worker loop with panic recovery and draining (\<^verbatim>\<open>runner.go\<close>).

  The world outside the database (file systems, FTP servers, the state of an open body) is a
  type variable \<open>'w\<close> that sources and transports transform; a body is a value of type \<open>'b\<close>.
  Callbacks and the closing of a body are recorded as \<open>action\<close>s in the order they happen.
\<close>

section \<open>Leasing (job.go)\<close>

text \<open>
  \<open>skip\<close> holds for the ids that other transactions have row-locked at that moment
  (\<^verbatim>\<open>FOR UPDATE SKIP LOCKED\<close>).
\<close>

definition lease_candidates :: "timestamp \<Rightarrow> (int \<Rightarrow> bool) \<Rightarrow> db \<Rightarrow> Job list" where
  "lease_candidates now skip D =
     filter (\<lambda>j. Status j = Pending \<and> NextRunAt j \<le> now \<and> \<not> skip (ID j)) (transfer_jobs D)"

definition lease_row :: "timestamp \<Rightarrow> string \<Rightarrow> Job \<Rightarrow> Job" where
  "lease_row now w j =
     j\<lparr>Status := Leased, LockedAt := Some now, LockedBy := Some w, UpdatedAt := now\<rparr>"

definition lease_stmt ::
  "timestamp \<Rightarrow> (int \<Rightarrow> bool) \<Rightarrow> string \<Rightarrow> db \<Rightarrow> Job option \<times> db"
where
  "lease_stmt now skip w D =
     (case first_by (\<lambda>j. (NextRunAt j, ID j)) (lease_candidates now skip D) of
        None \<Rightarrow> (None, D)
      | Some n \<Rightarrow>
          (Some (lease_row now w n),
           D\<lparr>transfer_jobs := upd_where (\<lambda>j. ID j = ID n) (lease_row now w) (transfer_jobs D)\<rparr>))"

definition LeaseJob ::
  "db_outcome \<Rightarrow> timestamp \<Rightarrow> (int \<Rightarrow> bool) \<Rightarrow> string \<Rightarrow> db \<Rightarrow> (go_error + Job option) \<times> db"
where
  "LeaseJob out now skip w D =
     (case pg_exec out (lease_stmt now skip w) D of
        (Inl e, D') \<Rightarrow> (Inl (wrap_err ''lease: '' e), D')
      | (Inr r, D') \<Rightarrow> (Inr r, D'))"

text \<open>\<^verbatim>\<open>Job.Duration\<close>, at the worker's clock reading \<open>t\<close>, in microseconds.\<close>

definition Job_Duration :: "timestamp \<Rightarrow> Job \<Rightarrow> int" where
  "Job_Duration t j = (case LockedAt j of None \<Rightarrow> 0 | Some l \<Rightarrow> t - l)"

section \<open>Processing (process.go)\<close>

datatype action =
    BodyClosed
  | OnRetry string
  | OnFinish string
  | OnLeaseAttempt bool
  | WakeAll
  | WaitOnce
  | OnWorkerStart
  | OnWorkerStop

record ('w, 'b) Source =
  Open :: "string \<Rightarrow> 'w \<Rightarrow> (go_error + 'b \<times> int) go \<times> 'w"
  Close :: "'b \<Rightarrow> 'w \<Rightarrow> go_error option go \<times> 'w"

text \<open>
  \<^verbatim>\<open>Send\<close> returns the bytes written and the SHA-256 text; the third component is how many
  bytes it read through the counting reader that wraps the body.
\<close>

record ('w, 'b) Transport =
  Send :: "string \<Rightarrow> 'b \<Rightarrow> int \<Rightarrow> 'w \<Rightarrow> (go_error + int \<times> string \<times> int) go \<times> 'w"

text \<open>
  What an outcome write meets: the server's clock and answer, the random draw and the
  out-of-range conversion of the retry delay, and the elapsed milliseconds.
\<close>

record wenv =
  w_now :: timestamp
  w_out :: db_outcome
  w_rand :: rat
  w_oor :: "rat \<Rightarrow> int"
  w_elapsed :: int

record ('w, 'b) Deps =
  d_LockedBy :: string
  d_Source :: "('w, 'b) Source"
  d_Transport :: "('w, 'b) Transport"

type_synonym detail_map = "(string \<times> jval) list"

definition success_row :: "timestamp \<Rightarrow> int \<Rightarrow> Job \<Rightarrow> Job" where
  "success_row now a j =
     j\<lparr>Status := Succeeded, LockedAt := None, LockedBy := None, UpdatedAt := now\<rparr>"

definition terminal_row :: "job_status \<Rightarrow> timestamp \<Rightarrow> int \<Rightarrow> Job \<Rightarrow> Job" where
  "terminal_row st now a j =
     j\<lparr>Status := st, Attempts := a, LockedAt := None, LockedBy := None, UpdatedAt := now\<rparr>"

definition retry_row :: "int \<Rightarrow> timestamp \<Rightarrow> int \<Rightarrow> Job \<Rightarrow> Job" where
  "retry_row ms now a j =
     j\<lparr>Status := Pending, Attempts := a, NextRunAt := now + ms * 1000,
       LockedAt := None, LockedBy := None, UpdatedAt := now\<rparr>"

definition exec_err :: "(go_error + 'r) \<times> db \<Rightarrow> go_error option \<times> db" where
  "exec_err r = (case fst r of Inl e \<Rightarrow> Some e | Inr _ \<Rightarrow> None, snd r)"

definition writeSuccess :: "wenv \<Rightarrow> string \<Rightarrow> Job \<Rightarrow> int \<Rightarrow> string \<Rightarrow> db \<Rightarrow> go_error option \<times> db" where
  "writeSuccess v lb job written sha D =
     exec_err (pg_exec (w_out v)
       (guarded_write (w_now v) (ID job) lb (success_row (w_now v) (Attempts job)) Ev_success
          (JObj [(''size'', JInt written), (''sha256'', JStr sha),
                 (''duration_ms'', JInt (w_elapsed v))])) D)"

definition writeTerminalWithAttempts ::
  "wenv \<Rightarrow> string \<Rightarrow> Job \<Rightarrow> job_status \<Rightarrow> event_status \<Rightarrow> detail_map \<Rightarrow> int \<Rightarrow> db \<Rightarrow>
   go_error option \<times> db"
where
  "writeTerminalWithAttempts v lb job st ev det a D =
     exec_err (pg_exec (w_out v)
       (guarded_write (w_now v) (ID job) lb (terminal_row st (w_now v) a) ev (JObj det)) D)"

definition writeTerminal ::
  "wenv \<Rightarrow> string \<Rightarrow> Job \<Rightarrow> job_status \<Rightarrow> event_status \<Rightarrow> detail_map \<Rightarrow> bool \<Rightarrow> db \<Rightarrow>
   go_error option \<times> db"
where
  "writeTerminal v lb job st ev det bump D =
     writeTerminalWithAttempts v lb job st ev det
       (if bump then Attempts job + 1 else Attempts job) D"

definition detail_stage :: "detail_map \<Rightarrow> string" where
  "detail_stage det = (case map_of det ''stage'' of Some (JStr s) \<Rightarrow> s | _ \<Rightarrow> [])"

text \<open>\<open>hook\<close> says whether \<^verbatim>\<open>Deps.OnRetry\<close> is set.\<close>

definition writeRetryOrDead ::
  "wenv \<Rightarrow> string \<Rightarrow> bool \<Rightarrow> Job \<Rightarrow> detail_map \<Rightarrow> db \<Rightarrow>
   (string \<times> go_error option) \<times> action list \<times> db"
where
  "writeRetryOrDead v lb hook job det D =
     (let n = Attempts job + 1 in
      if n \<ge> MaxAttempts job then
        (case writeTerminalWithAttempts v lb job Dead Ev_dead det n D of
           (Some e, D') \<Rightarrow> (([], Some e), [], D')
         | (None, D') \<Rightarrow> ((''dead'', None), [], D'))
      else
        let ms = duration_milliseconds (retryBackoff (w_oor v) (w_rand v) n) in
        (case pg_exec (w_out v)
                (guarded_write (w_now v) (ID job) lb (retry_row ms (w_now v) n) Ev_fail (JObj det)) D of
           (Inl e, D') \<Rightarrow> (([], Some e), [], D')
         | (Inr rows, D') \<Rightarrow>
             if rows = 0 then (([], None), [], D')
             else ((''fail'', None), if hook then [OnRetry (detail_stage det)] else [], D')))"

definition classifyAndWrite ::
  "wenv \<Rightarrow> string \<Rightarrow> Job \<Rightarrow> go_error \<Rightarrow> detail_map \<Rightarrow> db \<Rightarrow>
   (string \<times> go_error option) \<times> action list \<times> db"
where
  "classifyAndWrite v lb job err det D =
     (if errors_is err ErrSkippable then
        (case writeTerminal v lb job Skipped Ev_skip det False D of
           (Some e, D') \<Rightarrow> (([], Some e), [], D')
         | (None, D') \<Rightarrow> ((''skipped'', None), [], D'))
      else if errors_is err ErrPermanent then
        (case writeTerminal v lb job Dead Ev_dead det True D of
           (Some e, D') \<Rightarrow> (([], Some e), [], D')
         | (None, D') \<Rightarrow> ((''dead'', None), [], D'))
      else writeRetryOrDead v lb True job det D)"

definition openErrDetails :: "go_error \<Rightarrow> detail_map" where
  "openErrDetails err =
     [(''error'', JStr (sanitizeErrMsg (err_text err))), (''stage'', JStr ''open'')] @
     (if errors_is err ErrSkippable then [(''reason'', JStr ''source_not_found'')] else [])"

definition transportErrDetails :: "go_error \<Rightarrow> detail_map" where
  "transportErrDetails err =
     [(''error'', JStr (sanitizeErrMsg (err_text err))), (''stage'', JStr ''transport'')]"

text \<open>The deferred close of a body that was not closed explicitly.\<close>

definition deferred_close ::
  "('w, 'b) Source \<Rightarrow> 'b \<Rightarrow> 'a go \<times> action list \<times> 'w \<times> db \<Rightarrow> 'a go \<times> action list \<times> 'w \<times> db"
where
  "deferred_close src b R =
     (case R of (r, acts, w, D) \<Rightarrow>
        (case Close src b w of
           (Panic p, w') \<Rightarrow> (Panic p, acts @ [BodyClosed], w', D)
         | (Ret _, w') \<Rightarrow> (r, acts @ [BodyClosed], w', D)))"

definition returning ::
  "'w \<Rightarrow> (string \<times> go_error option) \<times> action list \<times> db \<Rightarrow>
   (string \<times> go_error option) go \<times> action list \<times> 'w \<times> db"
where
  "returning w R = (case R of (r, acts, D) \<Rightarrow> (Ret r, acts, w, D))"

definition size_mismatch :: "string \<Rightarrow> int \<Rightarrow> int \<Rightarrow> go_error" where
  "size_mismatch kind n written =
     wrap_err (''size mismatch: '' @ kind @ ''='' @ itoa n @ '' written='' @ itoa written @ '': '')
       ErrPermanent"

definition ProcessJob ::
  "wenv \<Rightarrow> ('w, 'b) Deps \<Rightarrow> Job \<Rightarrow> 'w \<Rightarrow> db \<Rightarrow>
   (string \<times> go_error option) go \<times> action list \<times> 'w \<times> db"
where
  "ProcessJob v d job w D =
     (let lb = d_LockedBy d; src = d_Source d in
      case Open src (Src job) w of
        (Panic p, w1) \<Rightarrow> (Panic p, [], w1, D)
      | (Ret (Inl openErr), w1) \<Rightarrow>
          returning w1 (classifyAndWrite v lb job openErr (openErrDetails openErr) D)
      | (Ret (Inr (body, srcSize)), w1) \<Rightarrow>
          (case Send (d_Transport d) (Dst job) body srcSize w1 of
             (Panic p, w2) \<Rightarrow> deferred_close src body (Panic p, [], w2, D)
           | (Ret (Inl sendErr), w2) \<Rightarrow>
               deferred_close src body
                 (returning w2 (classifyAndWrite v lb job sendErr (transportErrDetails sendErr) D))
           | (Ret (Inr (written, sha, n)), w2) \<Rightarrow>
               if srcSize \<ge> 0 \<and> written \<noteq> srcSize then
                 deferred_close src body (returning w2
                   (classifyAndWrite v lb job (size_mismatch ''src'' srcSize written)
                      [(''reason'', JStr ''size_mismatch''), (''stage'', JStr ''verify''),
                       (''src_size'', JInt srcSize), (''written'', JInt written)] D))
               else if srcSize < 0 \<and> n \<noteq> written then
                 deferred_close src body (returning w2
                   (classifyAndWrite v lb job (size_mismatch ''read'' n written)
                      [(''reason'', JStr ''size_mismatch_unknown_src''), (''stage'', JStr ''verify''),
                       (''read'', JInt n), (''written'', JInt written)] D))
               else
                 (case Close src body w2 of
                    (Panic p, w3) \<Rightarrow> deferred_close src body (Panic p, [BodyClosed], w3, D)
                  | (Ret (Some closeErr), w3) \<Rightarrow>
                      (case classifyAndWrite v lb job (wrap_err ''source close after send: '' closeErr)
                              [(''error'', JStr (err_text closeErr)),
                               (''stage'', JStr ''source_close'')] D of
                         (r, acts, D') \<Rightarrow> (Ret r, BodyClosed # acts, w3, D'))
                  | (Ret None, w3) \<Rightarrow>
                      (case writeSuccess v lb job written sha D of
                         (Some e, D') \<Rightarrow> (Ret ([], Some e), [BodyClosed], w3, D')
                       | (None, D') \<Rightarrow> (Ret (''succeeded'', None), [BodyClosed], w3, D')))))"

section \<open>The worker loop (runner.go)\<close>

record ('w, 'b) Runner =
  Workers :: int
  PodName :: string
  SourceFor :: "string \<Rightarrow> go_error + ('w, 'b) Source"
  TransportFor :: "string \<Rightarrow> go_error + ('w, 'b) Transport"

text \<open>The defaults \<^verbatim>\<open>Run\<close> fills in, and the identity each of its goroutines leases with.\<close>

definition Run_config :: "('w, 'b) Runner \<Rightarrow> ('w, 'b) Runner" where
  "Run_config r =
     r\<lparr>Workers := (if Workers r \<le> 0 then 4 else Workers r),
       PodName := (if PodName r = [] then ''imgsync-worker'' else PodName r)\<rparr>"

definition worker_identity :: "string \<Rightarrow> int \<Rightarrow> string" where
  "worker_identity pod idx = pod @ ''-w'' @ itoa idx"

definition Run_identities :: "('w, 'b) Runner \<Rightarrow> string list" where
  "Run_identities r =
     (let c = Run_config r in map (\<lambda>i. worker_identity (PodName c) (int i)) [0 ..< nat (Workers c)])"

text \<open>
  \<open>v\<close> is what the outcome write meets, \<open>vp\<close> what the write of the panic handler meets (it
  uses a fresh context). Errors of the writes are dropped, as in the source.
\<close>

definition processOne ::
  "wenv \<Rightarrow> wenv \<Rightarrow> ('w, 'b) Runner \<Rightarrow> string \<Rightarrow> Job \<Rightarrow> 'w \<Rightarrow> db \<Rightarrow> action list \<times> 'w \<times> db"
where
  "processOne v vp r lb job w D =
     (case SourceFor r (SrcProtocol job) of
        Inl err \<Rightarrow>
          (case writeTerminal v lb job Dead Ev_dead
                  [(''error'', JStr (err_text err)), (''stage'', JStr ''source-factory'')] True D of
             (_, D') \<Rightarrow> ([OnFinish ''dead''], w, D'))
      | Inr src \<Rightarrow>
        (case TransportFor r (DstProtocol job) of
           Inl err \<Rightarrow>
             (case writeTerminal v lb job Dead Ev_dead
                     [(''error'', JStr (err_text err)), (''stage'', JStr ''transport-factory'')] True D of
                (_, D') \<Rightarrow> ([OnFinish ''dead''], w, D'))
         | Inr tr \<Rightarrow>
           (case ProcessJob v \<lparr>d_LockedBy = lb, d_Source = src, d_Transport = tr\<rparr> job w D of
              (Ret (result, _), acts, w', D') \<Rightarrow> (acts @ [OnFinish result], w', D')
            | (Panic rec, acts, w', D') \<Rightarrow>
                (case writeRetryOrDead vp lb False job
                        [(''error'', JStr rec), (''stage'', JStr ''panic'')] D' of
                   ((result, _), acts', D'') \<Rightarrow> (acts @ acts' @ [OnFinish result], w', D'')))))"

definition release_row :: "timestamp \<Rightarrow> Job \<Rightarrow> Job" where
  "release_row now j =
     j\<lparr>Status := Pending, LockedAt := None, LockedBy := None, UpdatedAt := now\<rparr>"

definition leased_by :: "string \<Rightarrow> Job \<Rightarrow> bool" where
  "leased_by w j \<longleftrightarrow> Status j = Leased \<and> LockedBy j = Some w"

definition drainLease :: "db_outcome \<Rightarrow> timestamp \<Rightarrow> string \<Rightarrow> db \<Rightarrow> db" where
  "drainLease out now lb D =
     snd (pg_exec out
       (\<lambda>D. ((), D\<lparr>transfer_jobs := upd_where (leased_by lb) (release_row now) (transfer_jobs D)\<rparr>)) D)"

text \<open>
  One turn of the loop. \<open>it_pre\<close> and \<open>it_mid\<close> are what the other processes do to the
  database before the lease and between the lease and the outcome write.
\<close>

record iteration =
  it_cancelled :: bool
  it_lease :: db_outcome
  it_now :: timestamp
  it_skip :: "int \<Rightarrow> bool"
  it_v :: wenv
  it_vp :: wenv
  it_pre :: "db \<Rightarrow> db"
  it_mid :: "db \<Rightarrow> db"

definition loop_turn ::
  "('w, 'b) Runner \<Rightarrow> string \<Rightarrow> iteration \<Rightarrow> 'w \<Rightarrow> db \<Rightarrow> action list \<times> 'w \<times> db"
where
  "loop_turn r lb it w D =
     (case LeaseJob (it_lease it) (it_now it) (it_skip it) lb (it_pre it D) of
        (Inl err, D1) \<Rightarrow> ([OnLeaseAttempt False, WaitOnce], w, D1)
      | (Inr None, D1) \<Rightarrow> ([OnLeaseAttempt False, WaitOnce], w, D1)
      | (Inr (Some job), D1) \<Rightarrow>
          (case processOne (it_v it) (it_vp it) r lb job w (it_mid it D1) of
             (acts, w', D2) \<Rightarrow> ([OnLeaseAttempt True, WakeAll] @ acts, w', D2)))"

text \<open>
  The loop over a given sequence of turns, up to the one at whose top the context is found
  cancelled; the boolean says whether it returned. On return the deferred calls run:
  \<^verbatim>\<open>drainLease\<close>, then \<^verbatim>\<open>emitStop\<close>.
\<close>

fun loop_from ::
  "('w, 'b) Runner \<Rightarrow> string \<Rightarrow> iteration list \<Rightarrow> 'w \<Rightarrow> db \<Rightarrow> bool \<times> action list \<times> 'w \<times> db"
where
  "loop_from r lb [] w D = (False, [], w, D)"
| "loop_from r lb (it # its) w D =
     (if it_cancelled it then (True, [], w, D)
      else case loop_turn r lb it w D of
        (acts, w', D') \<Rightarrow>
          (case loop_from r lb its w' D' of
             (fin, acts', w'', D'') \<Rightarrow> (fin, acts @ acts', w'', D'')))"

definition loop ::
  "('w, 'b) Runner \<Rightarrow> int \<Rightarrow> db_outcome \<Rightarrow> timestamp \<Rightarrow> iteration list \<Rightarrow> 'w \<Rightarrow> db \<Rightarrow>
   bool \<times> action list \<times> 'w \<times> db"
where
  "loop r idx dout dnow its w D =
     (let lb = worker_identity (PodName r) idx in
      case loop_from r lb its w D of
        (fin, acts, w', D') \<Rightarrow>
          if fin then (True, OnWorkerStart # acts @ [OnWorkerStop], w', drainLease dout dnow lb D')
          else (False, OnWorkerStart # acts, w', D'))"

section \<open>The outcome writes meet the contract of the guarded write\<close>

interpretation success: lease_outcome success_row Ev_success
  by unfold_locales (simp_all add: success_row_def same_key_def)

interpretation skipped: lease_outcome "terminal_row Skipped" Ev_skip
  by unfold_locales (simp_all add: terminal_row_def same_key_def)

interpretation dead: lease_outcome "terminal_row Dead" Ev_dead
  by unfold_locales (simp_all add: terminal_row_def same_key_def)

interpretation retry: lease_outcome "retry_row ms" Ev_fail for ms
  by unfold_locales (simp_all add: retry_row_def same_key_def)

text \<open>
  A worker's snapshot of a job is current when, as long as the row is still leased to the
  worker, it has the attempts and the budget of the snapshot.
\<close>

definition snapshot_current :: "string \<Rightarrow> Job \<Rightarrow> db \<Rightarrow> bool" where
  "snapshot_current lb job D \<longleftrightarrow>
     (\<forall>j \<in> set (transfer_jobs D). holds_lease (ID job) lb j \<longrightarrow>
        Attempts j = Attempts job \<and> MaxAttempts j = MaxAttempts job)"

text \<open>What one outcome write of worker \<open>lb\<close> for \<open>job\<close> can do to the database.\<close>

inductive outcome_write :: "string \<Rightarrow> Job \<Rightarrow> db \<Rightarrow> db \<Rightarrow> bool" for lb job where
  ow_none: "outcome_write lb job D D"
| ow_success: "outcome_write lb job D
    (snd (guarded_write now (ID job) lb (success_row now (Attempts job)) Ev_success det D))"
| ow_skip: "outcome_write lb job D
    (snd (guarded_write now (ID job) lb (terminal_row Skipped now (Attempts job)) Ev_skip det D))"
| ow_dead: "outcome_write lb job D
    (snd (guarded_write now (ID job) lb (terminal_row Dead now (Attempts job + 1)) Ev_dead det D))"
| ow_fail: "Attempts job + 1 < MaxAttempts job \<Longrightarrow> outcome_write lb job D
    (snd (guarded_write now (ID job) lb (retry_row ms now (Attempts job + 1)) Ev_fail det D))"

lemma outcome_write_pg_exec:
  "outcome_write lb job D (snd (f D)) \<Longrightarrow> outcome_write lb job D (snd (pg_exec out f D))"
  by (cases rule: pg_exec_cases [of out f D]) (auto intro: ow_none)

lemma outcome_writeSuccess: "outcome_write lb job D (snd (writeSuccess v lb job n sha D))"
  unfolding writeSuccess_def exec_err_def snd_conv
  by (rule outcome_write_pg_exec) (rule ow_success)

lemma outcome_writeTerminal:
  "outcome_write lb job D (snd (writeTerminal v lb job Skipped Ev_skip det False D))"
  "outcome_write lb job D (snd (writeTerminal v lb job Dead Ev_dead det True D))"
  unfolding writeTerminal_def writeTerminalWithAttempts_def exec_err_def snd_conv if_True if_False
  by (rule outcome_write_pg_exec, rule ow_skip ow_dead)+

lemma outcome_writeRetryOrDead:
  assumes "writeRetryOrDead v lb hook job det D = (res, acts, D')"
  shows "outcome_write lb job D D'"
proof (cases "MaxAttempts job \<le> Attempts job + 1")
  case True
  have "D' = snd (writeTerminalWithAttempts v lb job Dead Ev_dead det (Attempts job + 1) D)"
    using assms True by (auto simp: writeRetryOrDead_def Let_def split: prod.splits option.splits)
  then show ?thesis
    using outcome_writeTerminal(2) by (simp add: writeTerminal_def)
next
  case False
  define f where "f = guarded_write (w_now v) (ID job) lb
    (retry_row (duration_milliseconds (retryBackoff (w_oor v) (w_rand v) (Attempts job + 1)))
       (w_now v) (Attempts job + 1)) Ev_fail (JObj det)"
  have "D' = snd (pg_exec (w_out v) f D)"
    using assms False
    by (auto simp: writeRetryOrDead_def Let_def f_def split: prod.splits sum.splits if_splits)
  moreover have "outcome_write lb job D (snd (f D))"
    unfolding f_def using False by (intro ow_fail) simp
  ultimately show ?thesis by (simp add: outcome_write_pg_exec)
qed

lemma outcome_classifyAndWrite:
  assumes "classifyAndWrite v lb job err det D = (res, acts, D')"
  shows "outcome_write lb job D D'"
  using assms outcome_writeTerminal [of lb job D v det] outcome_writeRetryOrDead
  by (auto simp: classifyAndWrite_def split: prod.splits option.splits if_splits)

lemma returning_eq: "returning w R = (r, acts, w', D') \<Longrightarrow> \<exists>s. r = Ret s \<and> w' = w \<and> R = (s, acts, D')"
  by (auto simp: returning_def split: prod.splits)

lemma deferred_close_db:
  "deferred_close src b (r, acts, w, D) = (r', acts', w', D') \<Longrightarrow>
   D' = D \<and> acts' = acts @ [BodyClosed] \<and> (r' = r \<or> (\<exists>p. fst (Close src b w) = Panic p))"
  by (auto simp: deferred_close_def split: prod.splits go.splits)

lemma deferred_returning_db:
  assumes "deferred_close src b (returning w (classifyAndWrite v lb job err det D)) = (r, acts, w', D')"
  shows "outcome_write lb job D D'"
  using assms outcome_classifyAndWrite
  by (cases "classifyAndWrite v lb job err det D")
     (auto simp: returning_def dest!: deferred_close_db)

lemma outcome_writeSuccess_eq: "writeSuccess v lb job n sha D = (e, D') \<Longrightarrow> outcome_write lb job D D'"
  by (metis outcome_writeSuccess snd_conv)

lemma ProcessJob_outcome:
  assumes "ProcessJob v d job w D = (r, acts, w', D')"
  shows "outcome_write (d_LockedBy d) job D D'"
  using assms
  by (auto simp: ProcessJob_def Let_def intro: ow_none
      dest!: deferred_returning_db deferred_close_db returning_eq
      dest: outcome_classifyAndWrite outcome_writeSuccess_eq
      split: prod.splits go.splits sum.splits option.splits if_splits)

lemma processOne_outcome:
  assumes "processOne v vp r lb job w D = (acts, w', D')"
  shows "\<exists>D1. outcome_write lb job D D1 \<and> outcome_write lb job D1 D'"
proof (cases "SourceFor r (SrcProtocol job)")
  case (Inl err)
  then show ?thesis
    using assms outcome_writeTerminal(2) [of lb job D v]
    by (auto simp: processOne_def split: prod.splits) (metis ow_none snd_conv)
next
  case src: (Inr src)
  show ?thesis
  proof (cases "TransportFor r (DstProtocol job)")
    case (Inl err)
    then show ?thesis
      using assms src outcome_writeTerminal(2) [of lb job D v]
      by (auto simp: processOne_def split: prod.splits) (metis ow_none snd_conv)
  next
    case (Inr tr)
    let ?d = "\<lparr>d_LockedBy = lb, d_Source = src, d_Transport = tr\<rparr>"
    obtain res acts1 w1 D1 where P: "ProcessJob v ?d job w D = (res, acts1, w1, D1)"
      by (metis prod.exhaust)
    then have "outcome_write lb job D D1"
      using ProcessJob_outcome [OF P] by simp
    moreover have "outcome_write lb job D1 D'"
      using assms src Inr P
      by (auto simp: processOne_def intro: ow_none dest: outcome_writeRetryOrDead
          split: go.splits prod.splits)
    ultimately show ?thesis by blast
  qed
qed

text \<open>An outcome write touches only the row leased to this worker.\<close>

lemma guarded_write_rows:
  "k \<in> set (transfer_jobs (snd (guarded_write now i w f st det D))) \<longleftrightarrow>
     (\<exists>j \<in> set (transfer_jobs D). holds_lease i w j \<and> k = f j) \<or>
     (k \<in> set (transfer_jobs D) \<and> \<not> holds_lease i w k)"
  by (auto simp: guarded_write_def Let_def set_upd_where)

lemma outcome_write_rows:
  assumes "outcome_write lb job D D'" and "k \<in> set (transfer_jobs D')"
  shows "k \<in> set (transfer_jobs D) \<or>
    (\<exists>j \<in> set (transfer_jobs D). holds_lease (ID job) lb j \<and> same_key k j \<and> LockedBy k = None \<and>
       Status k \<noteq> Leased)"
  using assms
  by (cases rule: outcome_write.cases)
     (auto simp: guarded_write_rows success_row_def terminal_row_def retry_row_def same_key_def)

lemma outcome_write_keeps:
  assumes "outcome_write lb job D D'" and "j \<in> set (transfer_jobs D)"
    and "\<not> holds_lease (ID job) lb j"
  shows "j \<in> set (transfer_jobs D')"
  using assms by (cases rule: outcome_write.cases) (auto simp: guarded_write_rows)

text \<open>The second write of a job, after a panic, finds the lease gone when the first one took effect.\<close>

lemma outcome_write_not_held:
  assumes "outcome_write lb job D D'" and "D' \<noteq> D" and "k \<in> set (transfer_jobs D')"
  shows "\<not> holds_lease (ID job) lb k"
  using assms
  by (cases rule: outcome_write.cases)
     (auto simp: guarded_write_rows holds_lease_def success_row_def terminal_row_def retry_row_def)

lemma outcome_write_ok:
  assumes "outcome_write lb job D D'" and "db_ok D" and "snapshot_current lb job D"
  shows "db_ok D'"
proof -
  have a: "Attempts j = Attempts job \<and> MaxAttempts j = MaxAttempts job"
    if "j \<in> set (transfer_jobs D)" "holds_lease (ID job) lb j" for j
    using assms(3) that by (auto simp: snapshot_current_def)
  show ?thesis
    using assms(1)
    by (cases rule: outcome_write.cases)
       (auto intro!: success.write_ok skipped.write_ok dead.write_ok retry.write_ok assms(2) simp: a)
qed

lemma snapshot_current_mono:
  "snapshot_current lb job D \<Longrightarrow>
   (\<And>k. k \<in> set (transfer_jobs D') \<Longrightarrow> leased_by lb k \<Longrightarrow> k \<in> set (transfer_jobs D)) \<Longrightarrow>
   snapshot_current lb job D'"
  by (auto simp: snapshot_current_def holds_lease_def leased_by_def)

lemma outcome_write_snapshot:
  "outcome_write lb job D D' \<Longrightarrow> snapshot_current lb' job' D \<Longrightarrow> snapshot_current lb' job' D'"
  by (erule snapshot_current_mono) (auto dest: outcome_write_rows simp: leased_by_def)

lemma processOne_ok:
  assumes "processOne v vp r lb job w D = (acts, w', D')" and "db_ok D" and "snapshot_current lb job D"
  shows "db_ok D'" and "snapshot_current lb' job' D \<Longrightarrow> snapshot_current lb' job' D'"
  using processOne_outcome [OF assms(1)] assms(2,3)
  by (blast intro: outcome_write_ok outcome_write_snapshot)+

section \<open>Leasing and releasing\<close>

lemma lease_stmt_Some:
  assumes "lease_stmt now skip w D = (Some job, D')"
  obtains n where "n \<in> set (transfer_jobs D)" "Status n = Pending" "NextRunAt n \<le> now" "\<not> skip (ID n)"
    and "\<And>k. k \<in> set (lease_candidates now skip D) \<Longrightarrow> (NextRunAt n, ID n) \<le> (NextRunAt k, ID k)"
    and "job = lease_row now w n"
    and "D' = D\<lparr>transfer_jobs := upd_where (\<lambda>j. ID j = ID n) (lease_row now w) (transfer_jobs D)\<rparr>"
proof -
  obtain n where n: "first_by (\<lambda>j. (NextRunAt j, ID j)) (lease_candidates now skip D) = Some n"
    and "job = lease_row now w n"
    and "D' = D\<lparr>transfer_jobs := upd_where (\<lambda>j. ID j = ID n) (lease_row now w) (transfer_jobs D)\<rparr>"
    using assms by (auto simp: lease_stmt_def split: option.splits)
  moreover have "n \<in> set (lease_candidates now skip D)"
    and "\<And>k. k \<in> set (lease_candidates now skip D) \<Longrightarrow> (NextRunAt n, ID n) \<le> (NextRunAt k, ID k)"
    using first_by_Some [OF n] by simp_all
  ultimately show thesis using that by (auto simp: lease_candidates_def)
qed

lemma lease_stmt_None:
  "lease_stmt now skip w D = (None, D') \<longleftrightarrow> lease_candidates now skip D = [] \<and> D' = D"
  by (cases "lease_candidates now skip D = []") (auto simp: lease_stmt_def split: option.splits)

lemma lease_row_ok: "row_ok j \<Longrightarrow> Status j = Pending \<Longrightarrow> row_ok (lease_row now w j)"
  by (simp add: row_ok_def lease_row_def)

lemma release_row_ok: "row_ok j \<Longrightarrow> Status j = Leased \<Longrightarrow> row_ok (release_row now j)"
  by (simp add: row_ok_def release_row_def)

lemma db_ok_lease_stmt [step_intros]:
  assumes ok: "db_ok D"
  shows "db_ok (snd (lease_stmt now skip w D))"
proof (cases "fst (lease_stmt now skip w D)")
  case None
  then have "lease_stmt now skip w D = (None, snd (lease_stmt now skip w D))" by (metis prod.collapse)
  then show ?thesis using ok by (simp only: lease_stmt_None)
next
  case (Some job)
  then have "lease_stmt now skip w D = (Some job, snd (lease_stmt now skip w D))"
    by (metis prod.collapse)
  then show ?thesis
  proof (rule lease_stmt_Some)
    fix n
    assume n: "n \<in> set (transfer_jobs D)" "Status n = Pending"
      and D': "snd (lease_stmt now skip w D) =
        D\<lparr>transfer_jobs := upd_where (\<lambda>j. ID j = ID n) (lease_row now w) (transfer_jobs D)\<rparr>"
    show ?thesis unfolding D'
    proof (rule db_ok_upd_where [OF ok])
      fix j assume j: "j \<in> set (transfer_jobs D)" "ID j = ID n" "row_ok j" "audit_ok D j"
      then have "j = n" using distinct_map_eq [OF db_okD(1) [OF ok]] n(1) by blast
      with j n(2) show "same_key (lease_row now w j) j \<and> row_ok (lease_row now w j) \<and>
          audit_ok D (lease_row now w j)"
        using lease_row_ok audit_ok_nonterminal [of "lease_row now w j" j D]
        by (simp add: same_key_def lease_row_def)
    qed
  qed
qed

lemma db_ok_release [step_intros]:
  assumes "db_ok D" and "\<And>j. p j \<Longrightarrow> Status j = Leased"
  shows "db_ok (D\<lparr>transfer_jobs := upd_where p (release_row now) (transfer_jobs D)\<rparr>)"
proof (rule db_ok_upd_where [OF assms(1)])
  fix j assume "p j" "row_ok j" "audit_ok D j"
  with assms(2) show "same_key (release_row now j) j \<and> row_ok (release_row now j) \<and>
      audit_ok D (release_row now j)"
    using release_row_ok audit_ok_nonterminal [of "release_row now j" j D]
    by (simp add: same_key_def release_row_def)
qed

lemma LeaseJob_db: "snd (LeaseJob out now skip w D) = snd (pg_exec out (lease_stmt now skip w) D)"
  by (simp add: LeaseJob_def split: prod.splits sum.splits)

lemma LeaseJob_Some:
  "LeaseJob out now skip w D = (Inr r, D') \<longleftrightarrow> out = DB_Ok \<and> lease_stmt now skip w D = (r, D')"
  by (cases out) (auto simp: LeaseJob_def split: prod.splits)

lemma db_ok_LeaseJob [step_intros]: "db_ok D \<Longrightarrow> db_ok (snd (LeaseJob out now skip w D))"
  unfolding LeaseJob_db by (intro step_intros)

lemma db_ok_drainLease [step_intros]: "db_ok D \<Longrightarrow> db_ok (drainLease out now lb D)"
  unfolding drainLease_def by (intro step_intros) (auto intro: db_ok_release simp: leased_by_def)

lemma lease_stmt_rows:
  assumes "k \<in> set (transfer_jobs (snd (lease_stmt now skip w D)))"
  shows "k \<in> set (transfer_jobs D) \<or> LockedBy k = Some w"
  using assms
  by (auto simp: lease_stmt_def lease_row_def set_upd_where split: option.splits if_splits)

lemma LeaseJob_other_snapshot:
  assumes "snapshot_current lb job D" and "lb \<noteq> w"
  shows "snapshot_current lb job (snd (LeaseJob out now skip w D))"
proof (rule snapshot_current_mono [OF assms(1)])
  fix k assume "k \<in> set (transfer_jobs (snd (LeaseJob out now skip w D)))" "leased_by lb k"
  then show "k \<in> set (transfer_jobs D)"
    using assms(2) lease_stmt_rows [of k now skip w D]
    by (cases rule: pg_exec_cases [of out "lease_stmt now skip w" D])
       (auto simp: LeaseJob_db leased_by_def)
qed

lemma LeaseJob_own_snapshot:
  assumes ok: "db_ok D" and L: "LeaseJob out now skip w D = (Inr (Some job), D')"
  shows "snapshot_current w job D'"
proof -
  have "lease_stmt now skip w D = (Some job, D')" using L LeaseJob_Some by blast
  then show ?thesis
  proof (rule lease_stmt_Some)
    fix n
    assume n: "n \<in> set (transfer_jobs D)" "job = lease_row now w n"
      "D' = D\<lparr>transfer_jobs := upd_where (\<lambda>j. ID j = ID n) (lease_row now w) (transfer_jobs D)\<rparr>"
    have "k = lease_row now w n"
      if "k \<in> set (transfer_jobs D')" "ID k = ID n" for k
    proof -
      from that(1) have "k \<in> set (upd_where (\<lambda>j. ID j = ID n) (lease_row now w) (transfer_jobs D))"
        by (simp add: n(3))
      then show ?thesis
      proof (cases rule: in_upd_whereE)
        case (hit x)
        then show ?thesis using distinct_map_eq [OF db_okD(1) [OF ok] _ n(1), of x] by simp
      qed (use that(2) in simp)
    qed
    then show ?thesis
      using n(2) by (auto simp: snapshot_current_def holds_lease_def lease_row_def)
  qed
qed

lemma drainLease_snapshot:
  "snapshot_current lb job D \<Longrightarrow> snapshot_current lb job (drainLease out now w D)"
  unfolding drainLease_def
  by (cases out) (auto elim!: snapshot_current_mono in_upd_whereE simp: release_row_def leased_by_def)

end
