(* ===== verification/Worker_Props.thy ===== *)
theory Worker_Props
  imports Worker
begin

text \<open>
  What the worker guarantees: which job a lease takes, what each outcome writes, that a lost
  lease writes nothing, that a body is closed once, that \<open>succeeded\<close> means verified sizes, and
  that a stopped worker leaves no lease behind.
\<close>

section \<open>A concrete queue and runner\<close>

definition ex_row :: "int \<Rightarrow> timestamp \<Rightarrow> Job" where
  "ex_row i due = (new_row 0 i (''t'' @ itoa i) ''/a'' ''/b'' ''localfs'' ''localfs'' ''{}'' 5)\<lparr>NextRunAt := due\<rparr>"

text \<open>Job 1 is leased to worker \<open>w\<close>, jobs 2 and 3 are pending and due at 20 and 10.\<close>

definition ex_db :: db where
  "ex_db = \<lparr>transfer_jobs = [lease_row 1 ''w'' (ex_row 1 0), ex_row 2 20, ex_row 3 10],
     transfer_events = [], next_id = 4\<rparr>"

text \<open>A source whose body has three bytes and a transport that reports \<open>n\<close> bytes written.\<close>

definition ex_runner :: "int \<Rightarrow> (unit, unit) Runner" where
  "ex_runner n = \<lparr>Workers = 0, PodName = [],
     SourceFor = (\<lambda>p. if p = ''localfs'' then
        Inr \<lparr>Open = (\<lambda>_ w. (Ret (Inr ((), 3)), w)), Close = (\<lambda>_ w. (Ret None, w))\<rparr>
        else Inl ErrUnknownProtocol),
     TransportFor = (\<lambda>p. if p = ''localfs'' then
        Inr \<lparr>Send = (\<lambda>_ _ _ w. (Ret (Inr (n, ''ab'', n)), w))\<rparr> else Inl ErrUnknownProtocol)\<rparr>"

definition ex_v :: wenv where
  "ex_v = \<lparr>w_now = 30, w_out = DB_Ok, w_rand = 1 / 2, w_oor = (\<lambda>_. 0), w_elapsed = 4\<rparr>"

lemma ex_db_ok: "db_ok ex_db"
  by (auto simp: db_ok_def schema_ok_def row_ok_def audit_ok_def ex_db_def ex_row_def new_row_def
      lease_row_def itoa_inj)

section \<open>Leasing\<close>



text \<open>
  Two leases in a row never hand out the same job, whichever workers ask.
\<close>

lemma lease_exclusive:
  assumes "db_ok D"
    and "LeaseJob o1 t1 skip1 w1 D = (Inr (Some a), D1)"
    and "LeaseJob o2 t2 skip2 w2 D1 = (Inr (Some b), D2)"
  shows "ID b \<noteq> ID a"
proof -
  from assms(2) have "lease_stmt t1 skip1 w1 D = (Some a, D1)" by (simp add: LeaseJob_Some)
  then obtain m where m: "a \<in> set (transfer_jobs D1)" "Status a = Leased"
    by (rule lease_stmt_Some) (force simp: lease_row_def set_upd_where)
  from assms(3) have "lease_stmt t2 skip2 w2 D1 = (Some b, D2)" by (simp add: LeaseJob_Some)
  then obtain n where "n \<in> set (transfer_jobs D1)" "Status n = Pending" "ID b = ID n"
    by (rule lease_stmt_Some) (simp add: lease_row_def)
  moreover have "db_ok D1" using db_ok_LeaseJob [OF assms(1)] assms(2) by (metis snd_conv)
  ultimately show ?thesis
    using m distinct_map_eq [OF db_okD(1)] by fastforce
qed

section \<open>Outcomes\<close>

text \<open>
  The specification of an outcome: what becomes of the row of \<open>job\<close>, the event that records
  it and the metric label.
\<close>

definition outcome_spec :: "wenv \<Rightarrow> Job \<Rightarrow> go_error \<Rightarrow> (Job \<Rightarrow> Job) \<times> event_status \<times> string" where
  "outcome_spec v job err =
     (let now = w_now v; n = Attempts job + 1 in
      if errors_is err ErrSkippable then
        (\<lambda>j. j\<lparr>Status := Skipped, Attempts := Attempts job, LockedAt := None, LockedBy := None, UpdatedAt := now\<rparr>,
         Ev_skip, ''skipped'')
      else if errors_is err ErrPermanent \<or> MaxAttempts job \<le> n then
        (\<lambda>j. j\<lparr>Status := Dead, Attempts := n, LockedAt := None, LockedBy := None, UpdatedAt := now\<rparr>,
         Ev_dead, ''dead'')
      else
        (\<lambda>j. j\<lparr>Status := Pending, Attempts := n,
              NextRunAt := now + duration_milliseconds (retryBackoff (w_oor v) (w_rand v) n) * 1000,
              LockedAt := None, LockedBy := None, UpdatedAt := now\<rparr>,
         Ev_fail, ''fail''))"

definition record_outcome ::
  "timestamp \<Rightarrow> Job \<Rightarrow> (Job \<Rightarrow> Job) \<Rightarrow> event_status \<Rightarrow> detail \<Rightarrow> db \<Rightarrow> db"
where
  "record_outcome now j f ev det D =
     D\<lparr>transfer_jobs := upd_where (\<lambda>k. ID k = ID j) f (transfer_jobs D),
       transfer_events := transfer_events D @
         [\<lparr>ev_trace_id = TraceID j, ev_job_id = ID j, ev_ts = now, ev_status = ev, ev_detail = det\<rparr>]\<rparr>"

lemma held_writes:
  assumes "db_ok D" and "j \<in> set (transfer_jobs D)" and "holds_lease (ID job) lb j"
  shows "guarded_write now (ID job) lb (success_row now a) Ev_success det D =
      (1, record_outcome now j (success_row now a) Ev_success det D)"
    and "guarded_write now (ID job) lb (terminal_row Skipped now a) Ev_skip det D =
      (1, record_outcome now j (terminal_row Skipped now a) Ev_skip det D)"
    and "guarded_write now (ID job) lb (terminal_row Dead now a) Ev_dead det D =
      (1, record_outcome now j (terminal_row Dead now a) Ev_dead det D)"
    and "guarded_write now (ID job) lb (retry_row ms now a) Ev_fail det D =
      (1, record_outcome now j (retry_row ms now a) Ev_fail det D)"
proof -
  have "ID job = ID j" using assms(3) by (simp add: holds_lease_def)
  then show "guarded_write now (ID job) lb (success_row now a) Ev_success det D =
      (1, record_outcome now j (success_row now a) Ev_success det D)"
    and "guarded_write now (ID job) lb (terminal_row Skipped now a) Ev_skip det D =
      (1, record_outcome now j (terminal_row Skipped now a) Ev_skip det D)"
    and "guarded_write now (ID job) lb (terminal_row Dead now a) Ev_dead det D =
      (1, record_outcome now j (terminal_row Dead now a) Ev_dead det D)"
    and "guarded_write now (ID job) lb (retry_row ms now a) Ev_fail det D =
      (1, record_outcome now j (retry_row ms now a) Ev_fail det D)"
    using success.write_held [OF db_okD(1) [OF assms(1)] assms(2,3)]
      skipped.write_held [OF db_okD(1) [OF assms(1)] assms(2,3)]
      dead.write_held [OF db_okD(1) [OF assms(1)] assms(2,3)]
      retry.write_held [OF db_okD(1) [OF assms(1)] assms(2,3)]
    by (simp_all add: record_outcome_def)
qed

lemma held_retry_or_dead:
  assumes "db_ok D" and "j \<in> set (transfer_jobs D)" and "holds_lease (ID job) lb j"
    and "w_out v = DB_Ok" and "\<not> errors_is err ErrSkippable" and "\<not> errors_is err ErrPermanent"
  shows "writeRetryOrDead v lb hook job det D =
    (case outcome_spec v job err of (f, ev, label) \<Rightarrow>
       ((label, None), if hook \<and> label = ''fail'' then [OnRetry (detail_stage det)] else [],
        record_outcome (w_now v) j f ev (JObj det) D))"
  using assms held_writes [OF assms(1-3)]
  by (auto simp: writeRetryOrDead_def writeTerminalWithAttempts_def outcome_spec_def
      exec_err_def Let_def terminal_row_def [abs_def] retry_row_def [abs_def])

lemma classify_held:
  assumes "db_ok D" and "j \<in> set (transfer_jobs D)" and "holds_lease (ID job) lb j" and "w_out v = DB_Ok"
  shows "classifyAndWrite v lb job err det D =
    (case outcome_spec v job err of (f, ev, label) \<Rightarrow>
       ((label, None), if label = ''fail'' then [OnRetry (detail_stage det)] else [],
        record_outcome (w_now v) j f ev (JObj det) D))"
proof -
  consider "errors_is err ErrSkippable" | "\<not> errors_is err ErrSkippable" "errors_is err ErrPermanent"
    | "\<not> errors_is err ErrSkippable" "\<not> errors_is err ErrPermanent" by blast
  then show ?thesis
  proof cases
    case 3
    then show ?thesis using held_retry_or_dead [OF assms, of err True det] by (simp add: classifyAndWrite_def)
  qed (use assms held_writes [OF assms(1-3)] in
      \<open>auto simp: classifyAndWrite_def writeTerminal_def writeTerminalWithAttempts_def outcome_spec_def
        exec_err_def Let_def terminal_row_def [abs_def]\<close>)
qed

text \<open>
  C11. A failed job gets the outcome its error asks for. While the worker holds the lease: an
  error marked skippable makes the job \<open>skipped\<close> and costs no attempt; one marked permanent, or
  any other when the attempts are used up, makes it \<open>dead\<close> at the cost of one attempt; every
  other error puts it back to \<open>pending\<close>, one attempt charged and due after the backoff, and
  reports the retry. In each case only that row changes and exactly one matching event is added.
\<close>

theorem classify_writes_outcome:
  assumes "db_ok D" and "j \<in> set (transfer_jobs D)" and "holds_lease (ID job) lb j" and "w_out v = DB_Ok"
  shows "classifyAndWrite v lb job err det D =
    (case outcome_spec v job err of (f, ev, label) \<Rightarrow>
       ((label, None), if label = ''fail'' then [OnRetry (detail_stage det)] else [],
        record_outcome (w_now v) j f ev (JObj det) D))"
  by (rule classify_held [OF assms])

lemma ex_lease:
  "lease_row 1 ''w'' (ex_row 1 0) \<in> set (transfer_jobs ex_db)"
  "holds_lease (ID (lease_row 1 ''w'' (ex_row 1 0))) ''w'' (lease_row 1 ''w'' (ex_row 1 0))"
  by (simp_all add: ex_db_def holds_lease_def lease_row_def)

theorem classify_writes_outcome_witness:
  "let job = lease_row 1 ''w'' (ex_row 1 0);
       D' = snd (snd (classifyAndWrite ex_v ''w'' job (wrap_err ''dial: '' ErrNotExist) [] ex_db))
   in Status (hd (transfer_jobs D')) = Pending \<and> Attempts (hd (transfer_jobs D')) = 1 \<and>
      tl (transfer_jobs D') = tl (transfer_jobs ex_db)"
proof -
  have "w_out ex_v = DB_Ok" by (simp add: ex_v_def)
  note classify_writes_outcome [OF ex_db_ok ex_lease this, of "wrap_err ''dial: '' ErrNotExist" "[]"]
  then show ?thesis
    by (simp add: outcome_spec_def record_outcome_def ex_db_def ex_row_def new_row_def lease_row_def
        wrap_err_def Let_def)
qed

text \<open>
  A job whose transfer works is recorded as succeeded. If the source opens, the transport
  sends, the sizes agree and the body closes without error, then, while the worker holds the
  lease, exactly that row becomes \<open>succeeded\<close> with its attempts unchanged, one \<open>success\<close> event
  carries size and hash, the body is closed once and the job is reported \<open>succeeded\<close>.
\<close>

lemma transfer_recorded:
  assumes "SourceFor r (SrcProtocol job) = Inr src" and "TransportFor r (DstProtocol job) = Inr tr"
    and "Open src (Src job) w = (Ret (Inr (body, srcSize)), wa)"
    and "Send tr (Dst job) body srcSize wa = (Ret (Inr (written, sha, n)), wb)"
    and "if 0 \<le> srcSize then written = srcSize else written = n"
    and "Close src body wb = (Ret None, wc)"
    and "db_ok D" and "j \<in> set (transfer_jobs D)" and "holds_lease (ID job) lb j" and "w_out v = DB_Ok"
  shows "processOne v vp r lb job w D =
    ([BodyClosed, OnFinish ''succeeded''], wc,
     record_outcome (w_now v) j
       (\<lambda>k. k\<lparr>Status := Succeeded, LockedAt := None, LockedBy := None, UpdatedAt := w_now v\<rparr>) Ev_success
       (JObj [(''size'', JInt written), (''sha256'', JStr sha), (''duration_ms'', JInt (w_elapsed v))]) D)"
  using assms held_writes(1) [OF assms(7-9)]
  by (auto simp: processOne_def ProcessJob_def writeSuccess_def exec_err_def Let_def
      success_row_def [abs_def] split: if_splits)

lemma outcome_write_lost:
  assumes "outcome_write lb job D D'" and "\<forall>j \<in> set (transfer_jobs D). \<not> holds_lease (ID job) lb j"
  shows "D' = D"
  using assms
  by (cases rule: outcome_write.cases)
     (simp_all add: success.write_lost skipped.write_lost dead.write_lost retry.write_lost)

text \<open>
  C10. A worker that lost its lease changes nothing. Whatever the source, the transport and the
  panic handler do, if no row is leased to this worker under the job's id when it writes (the
  sweeper released the row, or another worker has it, or retention deleted it), jobs and events
  stay exactly as they are.
\<close>

theorem lost_lease_writes_nothing:
  assumes "\<forall>j \<in> set (transfer_jobs D). \<not> (ID j = ID job \<and> Status j = Leased \<and> LockedBy j = Some lb)"
    and "processOne v vp r lb job w D = (acts, w', D')"
  shows "D' = D"
  using processOne_outcome [OF assms(2)] outcome_write_lost assms(1) [folded holds_lease_def] by metis

theorem lost_lease_writes_nothing_witness:
  "snd (snd (processOne ex_v ex_v (ex_runner 3) ''w'' (lease_row 1 ''w'' (ex_row 2 20)) () ex_db)) = ex_db"
proof -
  have "\<forall>j \<in> set (transfer_jobs ex_db). \<not> (ID j = ID (lease_row 1 ''w'' (ex_row 2 20)) \<and>
      Status j = Leased \<and> LockedBy j = Some ''w'')"
    by (simp add: ex_db_def ex_row_def new_row_def lease_row_def)
  then show ?thesis
    using lost_lease_writes_nothing [where v = ex_v and vp = ex_v and r = "ex_runner 3" and w = "()"]
    by (metis prod.collapse)
qed

text \<open>
  C15. A panic costs an attempt instead of the worker. If processing panics before it has written
  an outcome, \<^verbatim>\<open>processOne\<close> still returns, and while the lease is held the job is retried or,
  with its attempts used up, dead, with a \<open>panic\<close> event: a job that always panics cannot be
  leased more often than its budget allows.
\<close>

theorem panic_costs_an_attempt:
  assumes "SourceFor r (SrcProtocol job) = Inr src" and "TransportFor r (DstProtocol job) = Inr tr"
    and "ProcessJob v \<lparr>d_LockedBy = lb, d_Source = src, d_Transport = tr\<rparr> job w D = (Panic p, acts, wa, D)"
    and "db_ok D" and "j \<in> set (transfer_jobs D)" and "holds_lease (ID job) lb j" and "w_out vp = DB_Ok"
  shows "processOne v vp r lb job w D =
    (case outcome_spec vp job (PlainErr p) of (f, ev, label) \<Rightarrow>
       (acts @ [OnFinish label], wa,
        record_outcome (w_now vp) j f ev (JObj [(''error'', JStr p), (''stage'', JStr ''panic'')]) D))"
  using assms held_retry_or_dead [OF assms(4-7), of "PlainErr p" False]
  by (auto simp: processOne_def split: prod.splits)

definition ex_panicking :: "(unit, unit) Runner" where
  "ex_panicking = (ex_runner 3)\<lparr>SourceFor :=
     (\<lambda>_. Inr \<lparr>Open = (\<lambda>_ w. (Panic ''boom'', w)), Close = (\<lambda>_ w. (Ret None, w))\<rparr>)\<rparr>"

theorem panic_costs_an_attempt_witness:
  "case processOne ex_v ex_v ex_panicking ''w'' (lease_row 1 ''w'' (ex_row 1 0)) () ex_db of
     (acts, _, D') \<Rightarrow> acts = [OnFinish ''fail''] \<and> map Attempts (transfer_jobs D') = [1, 0, 0]"
proof -
  let ?job = "lease_row 1 ''w'' (ex_row 1 0)"
  have "w_out ex_v = DB_Ok" by (simp add: ex_v_def)
  note panic_costs_an_attempt [OF _ _ _ ex_db_ok ex_lease this, where r = ex_panicking and w = "()" and
      v = ex_v and p = "''boom''" and acts = "[]" and wa = "()"]
  from this show ?thesis
    by (simp add: ex_panicking_def ex_runner_def ex_row_def new_row_def lease_row_def record_outcome_def
        ex_db_def outcome_spec_def ProcessJob_def Let_def)
qed

text \<open>
  A job whose protocol has no source is dead at once: no retry, one attempt charged, and a
  \<open>dead\<close> event of stage \<open>source-factory\<close>.
\<close>

lemma unknown_source_protocol_dead:
  assumes "SourceFor r (SrcProtocol job) = Inl err"
    and "db_ok D" and "j \<in> set (transfer_jobs D)" and "holds_lease (ID job) lb j" and "w_out v = DB_Ok"
  shows "processOne v vp r lb job w D =
    ([OnFinish ''dead''], w,
     record_outcome (w_now v) j
       (\<lambda>k. k\<lparr>Status := Dead, Attempts := Attempts job + 1, LockedAt := None, LockedBy := None,
             UpdatedAt := w_now v\<rparr>) Ev_dead
       (JObj [(''error'', JStr (err_text err)), (''stage'', JStr ''source-factory'')]) D)"
  using assms held_writes(3) [OF assms(2-4)]
  by (simp add: processOne_def writeTerminal_def writeTerminalWithAttempts_def exec_err_def
      terminal_row_def [abs_def])

section \<open>Bodies and sizes\<close>

lemma classify_acts:
  "classifyAndWrite v lb job err det D = (res, acts, D') \<Longrightarrow> count_list acts BodyClosed = 0"
  by (auto simp: classifyAndWrite_def writeRetryOrDead_def Let_def
      split: if_splits prod.splits option.splits sum.splits)

lemma count_list_append: "count_list (xs @ ys) x = count_list xs x + count_list ys x"
  by (induction xs) auto

lemma deferred_classify_acts:
  assumes "deferred_close src b (returning w (classifyAndWrite v lb job err det D)) = (r, acts, w', D')"
  shows "count_list acts BodyClosed = 1"
  using assms classify_acts
  by (cases "classifyAndWrite v lb job err det D")
     (auto simp: returning_def count_list_append dest!: deferred_close_db)

text \<open>
  The body is closed exactly once. If closing a body does not panic, then on every path of
  \<^verbatim>\<open>ProcessJob\<close>, panics of the transport included, the body of a source that opened is closed
  exactly once, and nothing is closed when the source did not open.
\<close>

lemma body_closed_once:
  assumes "\<forall>b u. \<exists>e u'. Close (d_Source d) b u = (Ret e, u')"
    and "ProcessJob v d job w D = (res, acts, w', D')"
  shows "count_list acts BodyClosed =
    (case Open (d_Source d) (Src job) w of (Ret (Inr _), _) \<Rightarrow> 1 | _ \<Rightarrow> 0)"
proof -
  have np: "Close (d_Source d) b u \<noteq> (Panic p, u')" for b u p u'
    using assms(1) by (metis Pair_inject go.distinct(1))
  show ?thesis
    using assms(2) np
    by (auto simp: ProcessJob_def Let_def count_list_append
        dest!: deferred_classify_acts deferred_close_db returning_eq dest: classify_acts
        split: prod.splits go.splits sum.splits option.splits if_splits)
qed

lemma classify_not_succeeded: "classifyAndWrite v lb job err det D \<noteq> ((''succeeded'', e), acts, D')"
  by (auto simp: classifyAndWrite_def writeRetryOrDead_def Let_def
      split: if_splits prod.splits option.splits sum.splits)

lemma returning_not_succeeded:
  "returning w (classifyAndWrite v lb job err det D) \<noteq> (Ret (''succeeded'', e), acts, w', D')"
  using classify_not_succeeded by (auto simp: returning_def split: prod.splits)

lemma deferred_not_succeeded:
  "deferred_close src b (returning w (classifyAndWrite v lb job err det D)) \<noteq>
     (Ret (''succeeded'', e), acts, w', D')"
  "deferred_close src b (Panic p, acts, w, D) \<noteq> (Ret x, acts', w', D')"
  using classify_not_succeeded [of v lb job err det D e _ D']
  by (cases "classifyAndWrite v lb job err det D",
      auto simp: deferred_close_def returning_def split: prod.splits go.splits)

lemmas not_succeeded = classify_not_succeeded returning_not_succeeded deferred_not_succeeded

text \<open>
  \<open>succeeded\<close> means verified. \<^verbatim>\<open>ProcessJob\<close> reports \<open>succeeded\<close> only if the source opened, the
  transport reported no error, the bytes written are the source's announced size, or the bytes
  read when the size was unknown, the body then closed without error, and the success was written.
\<close>

lemma succeeded_means_verified:
  assumes "ProcessJob v d job w D = (Ret (''succeeded'', e), acts, w', D')"
  shows "\<exists>body srcSize wa written sha n wb.
    Open (d_Source d) (Src job) w = (Ret (Inr (body, srcSize)), wa) \<and>
    Send (d_Transport d) (Dst job) body srcSize wa = (Ret (Inr (written, sha, n)), wb) \<and>
    (if 0 \<le> srcSize then written = srcSize else written = n) \<and>
    Close (d_Source d) body wb = (Ret None, w') \<and>
    writeSuccess v (d_LockedBy d) job written sha D = (None, D')"
  using assms
  by (auto simp: ProcessJob_def Let_def not_succeeded
      split: prod.splits go.splits sum.splits option.splits if_splits)

section \<open>The loop\<close>

lemma loop_from_cancelled:
  "it \<in> set its \<Longrightarrow> it_cancelled it \<Longrightarrow> \<exists>acts w' D'. loop_from r lb its w D = (True, acts, w', D')"
proof (induction its arbitrary: w D)
  case (Cons i its)
  obtain a wa Da where t: "loop_turn r lb i w D = (a, wa, Da)" by (cases "loop_turn r lb i w D")
  show ?case
  proof (cases "it_cancelled i")
    case False
    with Cons.prems have "it \<in> set its" by auto
    from Cons.IH [OF this Cons.prems(2), of wa Da] False t show ?thesis by auto
  qed simp
qed simp

lemma drainLease_none: "j \<in> set (transfer_jobs (drainLease DB_Ok now lb D)) \<Longrightarrow> \<not> leased_by lb j"
  by (auto simp: drainLease_def set_upd_where release_row_def leased_by_def split: if_splits)

text \<open>
  C17. A cancelled worker stops and leaves nothing leased. As soon as the context is found
  cancelled at the top of a turn the loop returns, having announced start and stop exactly at
  its ends, and when the drain reaches the database no row is leased to this worker any more,
  even if a lease reply or an outcome write was lost before.
\<close>

theorem cancelled_loop_drains:
  assumes "it \<in> set its" and "it_cancelled it"
  shows "\<exists>acts w' D'. loop r idx DB_Ok now its w D = (True, [OnWorkerStart] @ acts @ [OnWorkerStop], w', D') \<and>
    (\<forall>j \<in> set (transfer_jobs D').
       \<not> (Status j = Leased \<and> LockedBy j = Some (PodName r @ ''-w'' @ itoa idx)))"
proof -
  obtain acts w' D' where "loop_from r (worker_identity (PodName r) idx) its w D = (True, acts, w', D')"
    using loop_from_cancelled [OF assms, of r "worker_identity (PodName r) idx" w D] by auto
  then show ?thesis
    using drainLease_none [of _ now "worker_identity (PodName r) idx" D']
    by (auto simp: loop_def Let_def worker_identity_def leased_by_def)
qed

theorem cancelled_loop_drains_witness:
  "\<exists>acts w' D'. loop (ex_runner 3) 0 DB_Ok 9
     [\<lparr>it_cancelled = False, it_lease = DB_Lost ErrDeadlineExceeded, it_now = 25, it_skip = (\<lambda>_. False),
       it_v = ex_v, it_vp = ex_v, it_pre = id, it_mid = id\<rparr>,
      \<lparr>it_cancelled = True, it_lease = DB_Ok, it_now = 26, it_skip = (\<lambda>_. False),
       it_v = ex_v, it_vp = ex_v, it_pre = id, it_mid = id\<rparr>] () ex_db =
       (True, [OnWorkerStart] @ acts @ [OnWorkerStop], w', D')"
  using cancelled_loop_drains [where
      it = "\<lparr>it_cancelled = True, it_lease = DB_Ok, it_now = 26, it_skip = (\<lambda>_. False),
       it_v = ex_v, it_vp = ex_v, it_pre = id, it_mid = id\<rparr>" and
      its = "[\<lparr>it_cancelled = False, it_lease = DB_Lost ErrDeadlineExceeded, it_now = 25, it_skip = (\<lambda>_. False),
       it_v = ex_v, it_vp = ex_v, it_pre = id, it_mid = id\<rparr>,
      \<lparr>it_cancelled = True, it_lease = DB_Ok, it_now = 26, it_skip = (\<lambda>_. False),
       it_v = ex_v, it_vp = ex_v, it_pre = id, it_mid = id\<rparr>]" and
      r = "ex_runner 3" and idx = 0 and now = 9 and w = "()" and D = ex_db]
  by fastforce

lemma identity_index:
  assumes "0 \<le> i"
  shows "takeWhile is_digit (rev (worker_identity pod i)) = rev (itoa i)"
proof -
  have "itoa i = digits (nat i)" using assms by (simp add: itoa_def)
  moreover have "\<not> is_digit CHR ''w''" by (simp add: is_digit_def)
  ultimately show ?thesis
    using digits_are_digits [of "nat i"] by (simp add: worker_identity_def list_all_iff takeWhile_tail)
qed

text \<open>
  Workers are told apart by the name they lease with: two goroutines lease under the same
  name only if they have the same index in pods of the same name, so the workers \<^verbatim>\<open>Run\<close> starts,
  four if the configured number is not positive, all have different names.
\<close>

lemma worker_identities_distinct:
  "distinct (Run_identities r) \<and> Run_identities r \<noteq> [] \<and>
   (0 \<le> i \<longrightarrow> 0 \<le> k \<longrightarrow> worker_identity p i = worker_identity q k \<longrightarrow> p = q \<and> i = k)"
proof -
  have inj: "p = q \<and> i = k" if "0 \<le> i" "0 \<le> k" "worker_identity p i = worker_identity q k" for p q i k
  proof -
    have "rev (itoa i) = rev (itoa k)"
      using identity_index [OF that(1), of p] identity_index [OF that(2), of q] that(3) by simp
    then have "i = k" by (simp add: itoa_inj)
    with that(3) show ?thesis by (simp add: worker_identity_def)
  qed
  have "distinct (Run_identities r)"
    by (auto simp: Run_identities_def Let_def distinct_map inj_on_def dest!: inj [rotated 2])
  moreover have "Run_identities r \<noteq> []" by (auto simp: Run_identities_def Run_config_def Let_def)
  ultimately show ?thesis using inj by blast
qed

end
