(* ===== verification/Sweeper.thy ===== *)
theory Sweeper
  imports Worker
begin

text \<open>
  \<^verbatim>\<open>internal/sweeper/sweeper.go\<close>: one transaction that returns expired leases to the queue
  and records an \<^verbatim>\<open>expire\<close> event for each, and the ticker loop around it.
\<close>

text \<open>
  How the server answers one cycle: the clock, the error of each statement if it has one,
  whether \<^verbatim>\<open>pg_try_advisory_xact_lock\<close> was granted, the error of the row iteration, of the
  n-th event insert, and the outcome of the commit.
\<close>

record sweep_env =
  sw_now :: timestamp
  sw_begin :: "go_error option"
  sw_lock :: "go_error + bool"
  sw_update :: "go_error option"
  sw_scan :: "go_error option"
  sw_rows :: "go_error option"
  sw_event :: "nat \<Rightarrow> go_error option"
  sw_commit :: db_outcome

definition sweep_threshold :: "duration \<Rightarrow> duration" where
  "sweep_threshold threshold = (if threshold \<le> 0 then 5 * Minute else threshold)"

text \<open>\<^verbatim>\<open>WHERE status='leased' AND locked_at < NOW() - $1::INTERVAL\<close>, the interval in whole seconds.\<close>

definition lease_expired :: "timestamp \<Rightarrow> int \<Rightarrow> Job \<Rightarrow> bool" where
  "lease_expired now secs j \<longleftrightarrow>
     Status j = Leased \<and> (case LockedAt j of None \<Rightarrow> False | Some t \<Rightarrow> t < now - secs * 1000000)"

fun insert_expired ::
  "(nat \<Rightarrow> go_error option) \<Rightarrow> nat \<Rightarrow> timestamp \<Rightarrow> (int \<times> string) list \<Rightarrow> db \<Rightarrow> go_error + db"
where
  "insert_expired err k now [] D = Inr D"
| "insert_expired err k now ((i, tid) # rs) D =
     (case err k of
        Some e \<Rightarrow> Inl (wrap_err (''sweeper: insert event for '' @ itoa i @ '': '') e)
      | None \<Rightarrow>
          insert_expired err (Suc k) now rs
            (insert_event now tid i Ev_expire (JObj [(''reason'', JStr ''lease_expired'')]) D))"

definition sweep_update :: "timestamp \<Rightarrow> int \<Rightarrow> db \<Rightarrow> (int \<times> string) list \<times> db" where
  "sweep_update now secs D =
     (map (\<lambda>j. (ID j, TraceID j)) (filter (lease_expired now secs) (transfer_jobs D)),
      D\<lparr>transfer_jobs := upd_where (lease_expired now secs) (release_row now) (transfer_jobs D)\<rparr>)"

definition Sweep :: "sweep_env \<Rightarrow> duration \<Rightarrow> db \<Rightarrow> (go_error + int) \<times> db" where
  "Sweep x threshold D =
     (case sw_begin x of Some e \<Rightarrow> (Inl (wrap_err ''sweeper: begin: '' e), D)
      | None \<Rightarrow>
        (case sw_lock x of
           Inl e \<Rightarrow> (Inl (wrap_err ''sweeper: try advisory lock: '' e), D)
         | Inr locked \<Rightarrow>
             if \<not> locked then (Inr 0, D)
             else
               let secs = int_seconds (sweep_threshold threshold) in
               (case sw_update x of Some e \<Rightarrow> (Inl (wrap_err ''sweeper: update: '' e), D)
                | None \<Rightarrow>
                  (case sweep_update (sw_now x) secs D of (rs, D1) \<Rightarrow>
                     case sw_scan x of Some e \<Rightarrow> (Inl (wrap_err ''sweeper: scan: '' e), rollback D D1)
                     | None \<Rightarrow>
                       (case sw_rows x of
                          Some e \<Rightarrow> (Inl (wrap_err ''sweeper: rows iteration: '' e), rollback D D1)
                        | None \<Rightarrow>
                          (case insert_expired (sw_event x) 0 (sw_now x) rs D1 of
                             Inl e \<Rightarrow> (Inl e, rollback D D1)
                           | Inr D2 \<Rightarrow>
                               commit ''sweeper: commit: '' (sw_commit x) (int (length rs)) D D2))))))"

text \<open>
  The loop of \<^verbatim>\<open>Run\<close>: after each cycle, an error of a cancelled or timed-out context ends the
  loop when the parent context is done; any other error is logged; a success fires
  \<^verbatim>\<open>OnCycle\<close>. A tick is the parent context's error at the \<^verbatim>\<open>select\<close> (\<open>None\<close> when the ticker
  won), the cycle's environment, what other processes did to the database meanwhile, and
  the parent's error after the cycle.
\<close>

record sweep_tick =
  tk_done :: "go_error option"
  tk_env :: sweep_env
  tk_others :: "db \<Rightarrow> db"
  tk_after :: "go_error option"

fun Run_from :: "duration \<Rightarrow> sweep_tick list \<Rightarrow> nat \<Rightarrow> db \<Rightarrow> go_error option \<times> nat \<times> db" where
  "Run_from threshold [] cycles D = (None, cycles, D)"
| "Run_from threshold (t # ts) cycles D =
     (case tk_done t of
        Some e \<Rightarrow> (Some e, cycles, D)
      | None \<Rightarrow>
        (case Sweep (tk_env t) threshold (tk_others t D) of
           (Inl e, D') \<Rightarrow>
             if errors_is e ErrCanceled \<or> errors_is e ErrDeadlineExceeded then
               (case tk_after t of
                  Some pe \<Rightarrow> (Some pe, cycles, D')
                | None \<Rightarrow> Run_from threshold ts cycles D')
             else Run_from threshold ts cycles D'
         | (Inr _, D') \<Rightarrow> Run_from threshold ts (Suc cycles) D'))"

definition sweep_interval :: "duration \<Rightarrow> duration" where
  "sweep_interval interval = (if interval \<le> 0 then 30 * Second else interval)"

section \<open>Lemmas\<close>

lemma insert_expired_Inr:
  assumes "insert_expired err k now rs D = Inr D'"
  shows "D' = D\<lparr>transfer_events := transfer_events D @
    map (\<lambda>(i, tid). \<lparr>ev_trace_id = tid, ev_job_id = i, ev_ts = now, ev_status = Ev_expire,
      ev_detail = JObj [(''reason'', JStr ''lease_expired'')]\<rparr>) rs\<rparr>"
  using assms
  by (induction err k now rs D rule: insert_expired.induct)
     (auto simp: insert_event_def split: option.splits)

text \<open>A cycle either leaves the tables or releases every expired lease and records each.\<close>

definition swept :: "timestamp \<Rightarrow> int \<Rightarrow> db \<Rightarrow> db" where
  "swept now secs D =
     D\<lparr>transfer_jobs := upd_where (lease_expired now secs) (release_row now) (transfer_jobs D),
       transfer_events := transfer_events D @
         map (\<lambda>j. \<lparr>ev_trace_id = TraceID j, ev_job_id = ID j, ev_ts = now, ev_status = Ev_expire,
                   ev_detail = JObj [(''reason'', JStr ''lease_expired'')]\<rparr>)
           (filter (lease_expired now secs) (transfer_jobs D))\<rparr>"

lemma Sweep_cases:
  assumes "Sweep x threshold D = (res, D')"
  obtains (idle) "D' = D"
    | (ran) "D' = swept (sw_now x) (int_seconds (sweep_threshold threshold)) D"
proof -
  let ?secs = "int_seconds (sweep_threshold threshold)"
  have "D' = D \<or> D' = swept (sw_now x) ?secs D"
  proof (cases "sw_commit x")
    case DB_Ok
    then show ?thesis
      using assms
      by (auto simp: Sweep_def Let_def sweep_update_def swept_def comp_def dest!: insert_expired_Inr
          split: option.splits sum.splits if_splits)
  next
    case (DB_Fail e)
    then show ?thesis
      using assms
      by (auto simp: Sweep_def Let_def sweep_update_def dest!: insert_expired_Inr
          split: option.splits sum.splits if_splits)
  next
    case (DB_Lost e)
    then show ?thesis
      using assms
      by (auto simp: Sweep_def Let_def sweep_update_def swept_def comp_def dest!: insert_expired_Inr
          split: option.splits sum.splits if_splits)
  qed
  with that show thesis by blast
qed

lemma Sweep_Inr:
  assumes "Sweep x threshold D = (Inr n, D')"
  shows "sw_lock x = Inr False \<and> n = 0 \<and> D' = D \<or>
    sw_lock x = Inr True \<and> D' = swept (sw_now x) (int_seconds (sweep_threshold threshold)) D \<and>
    n = int (count_if (lease_expired (sw_now x) (int_seconds (sweep_threshold threshold))) (transfer_jobs D))"
  using assms
  by (auto simp: Sweep_def Let_def sweep_update_def swept_def comp_def commit_Inr count_if_def
      dest!: insert_expired_Inr split: option.splits sum.splits if_splits)

lemma db_ok_swept [step_intros]:
  assumes "db_ok D"
  shows "db_ok (swept now secs D)"
proof -
  let ?D = "D\<lparr>transfer_jobs := upd_where (lease_expired now secs) (release_row now) (transfer_jobs D)\<rparr>"
  have ok: "db_ok ?D"
    using assms by (rule db_ok_release) (simp add: lease_expired_def)
  have "\<exists>k \<in> set (transfer_jobs ?D). ID k = ID j \<and> TraceID k = TraceID j"
    if "j \<in> set (transfer_jobs D)" for j
    using upd_where_image [OF that, of "lease_expired now secs" "release_row now"]
    by (intro bexI [of _ "if lease_expired now secs j then release_row now j else j"])
       (simp_all add: release_row_def)
  then have "db_ok (?D\<lparr>transfer_events := transfer_events ?D @
      map (\<lambda>j. \<lparr>ev_trace_id = TraceID j, ev_job_id = ID j, ev_ts = now, ev_status = Ev_expire,
                ev_detail = JObj [(''reason'', JStr ''lease_expired'')]\<rparr>)
        (filter (lease_expired now secs) (transfer_jobs D))\<rparr>)"
    by (intro db_ok_neutral_events [OF ok]) (auto simp: neutral_def)
  then show ?thesis by (simp add: swept_def)
qed

lemma db_ok_Sweep [step_intros]: "db_ok D \<Longrightarrow> db_ok (snd (Sweep x threshold D))"
  by (cases rule: Sweep_cases [of x threshold D "fst (Sweep x threshold D)" "snd (Sweep x threshold D)"])
     (auto intro: step_intros)

lemma swept_rows:
  "k \<in> set (transfer_jobs (swept now secs D)) \<longleftrightarrow>
     (\<exists>j \<in> set (transfer_jobs D). lease_expired now secs j \<and> k = release_row now j) \<or>
     (k \<in> set (transfer_jobs D) \<and> \<not> lease_expired now secs k)"
  by (auto simp: swept_def set_upd_where)

lemma Sweep_snapshot:
  assumes "snapshot_current lb job D"
  shows "snapshot_current lb job (snd (Sweep x threshold D))"
  by (cases rule: Sweep_cases [of x threshold D "fst (Sweep x threshold D)" "snd (Sweep x threshold D)"])
     (use assms in \<open>auto elim!: snapshot_current_mono simp: swept_rows release_row_def leased_by_def\<close>)

section \<open>Properties\<close>

text \<open>
  C18. A sweep recovers the expired leases and nothing else, all or nothing. Whichever statement
  fails, the tables are either unchanged, or every row leased for longer than the threshold (and
  no other row) is back to \<open>pending\<close> without lock and with its attempts unchanged, with exactly
  one \<open>expire\<close> event per recovered row. A cycle that got the advisory lock and reports \<open>n\<close>
  recovered exactly \<open>n\<close> rows and leaves no expired lease; one that did not get it does nothing.
\<close>

theorem sweep_recovers_expired:
  assumes "Sweep x threshold D = (res, D')"
  defines "expired \<equiv> \<lambda>j. Status j = Leased \<and> (\<exists>t. LockedAt j = Some t \<and>
     t < sw_now x - int_seconds (if threshold \<le> 0 then 5 * Minute else threshold) * 1000000)"
  defines "R \<equiv> D\<lparr>transfer_jobs := map (\<lambda>j. if expired j then j\<lparr>Status := Pending, LockedAt := None,
                 LockedBy := None, UpdatedAt := sw_now x\<rparr> else j) (transfer_jobs D),
               transfer_events := transfer_events D @
                 map (\<lambda>j. \<lparr>ev_trace_id = TraceID j, ev_job_id = ID j, ev_ts = sw_now x,
                   ev_status = Ev_expire, ev_detail = JObj [(''reason'', JStr ''lease_expired'')]\<rparr>)
                   (filter expired (transfer_jobs D))\<rparr>"
  shows "(D' = D \<or> D' = R) \<and>
    (\<forall>n. res = Inr n \<longrightarrow> sw_lock x = Inr True \<longrightarrow>
       D' = R \<and> n = int (length (filter expired (transfer_jobs D))) \<and>
       (\<forall>j \<in> set (transfer_jobs D'). \<not> expired j)) \<and>
    (sw_lock x = Inr False \<longrightarrow> D' = D)"
proof -
  have ex: "expired = lease_expired (sw_now x) (int_seconds (sweep_threshold threshold))"
    by (auto simp: expired_def lease_expired_def sweep_threshold_def fun_eq_iff split: option.splits)
  have R: "swept (sw_now x) (int_seconds (sweep_threshold threshold)) D = R"
    by (simp add: R_def swept_def ex sweep_threshold_def upd_where_def release_row_def)
  have either: "D' = D \<or> D' = R"
    using Sweep_cases [OF assms(1)] R by metis
  have "D' = R \<and> n = int (length (filter expired (transfer_jobs D)))"
    if "res = Inr n" "sw_lock x = Inr True" for n
    using Sweep_Inr [of x threshold D n D'] assms(1) that R
    by (auto simp: count_if_def ex)
  moreover have "\<forall>j \<in> set (transfer_jobs R). \<not> expired j"
    by (auto simp: R_def ex lease_expired_def)
  moreover have "D' = D" if "sw_lock x = Inr False"
    using assms(1) that by (auto simp: Sweep_def split: option.splits)
  ultimately show ?thesis using either by blast
qed

text \<open>Two leased rows, one of them expired, for the witness.\<close>

definition sweep_db :: db where
  "sweep_db = \<lparr>transfer_jobs =
     [lease_row 0 ''a'' (new_row 0 1 ''t'' ''/s'' ''/d'' ''ftp'' ''ftp'' ''{}'' 5),
      lease_row 250000000 ''b'' (new_row 0 2 ''u'' ''/s'' ''/d'' ''ftp'' ''ftp'' ''{}'' 5)],
     transfer_events = [], next_id = 3\<rparr>"

definition sweep_clean :: "timestamp \<Rightarrow> sweep_env" where
  "sweep_clean now = \<lparr>sw_now = now, sw_begin = None, sw_lock = Inr True, sw_update = None,
     sw_scan = None, sw_rows = None, sw_event = (\<lambda>_. None), sw_commit = DB_Ok\<rparr>"

theorem sweep_recovers_expired_witness:
  "\<exists>D'. Sweep (sweep_clean 301000000) 0 sweep_db = (Inr 1, D') \<and>
     map Status (transfer_jobs D') = [Pending, Leased] \<and> length (transfer_events D') = 1"
proof -
  have m: "int_seconds 300000000000 = 300" using int_seconds_whole [of 300] by simp
  obtain n D' where S: "Sweep (sweep_clean 301000000) 0 sweep_db = (Inr n, D')"
    by (simp add: Sweep_def sweep_clean_def sweep_update_def sweep_db_def Let_def lease_expired_def
        lease_row_def new_row_def sweep_threshold_def m)
  from sweep_recovers_expired [OF S] m S show ?thesis
    by (auto simp: sweep_clean_def sweep_db_def lease_expired_def lease_row_def new_row_def)
qed

end
