(* ===== verification/Retention.thy ===== *)
theory Retention
  imports Worker "HOL-Library.Multiset"
begin

text \<open>
  \<^verbatim>\<open>internal/retention/retention.go\<close>: the opt-in, batched deletion of old terminal rows,
  with their events, in one transaction, and the ticker loop around it.
\<close>

record RetentionConfig =
  rc_Window :: duration
  rc_BatchSize :: int

text \<open>
  How the server answers one cycle. \<open>rt_scan k\<close> is the order in which the k-th
  \<^verbatim>\<open>SELECT ... LIMIT\<close> (which has no \<^verbatim>\<open>ORDER BY\<close>) meets the rows; \<open>rt_delete k\<close> is the error
  of the k-th \<^verbatim>\<open>DELETE\<close> if it has one.
\<close>

record retention_env =
  rt_now :: timestamp
  rt_begin :: "go_error option"
  rt_lock :: "go_error + bool"
  rt_scan :: "nat \<Rightarrow> Job list \<Rightarrow> Job list"
  rt_delete :: "nat \<Rightarrow> go_error option"
  rt_commit :: db_outcome

definition retention_batch :: "RetentionConfig \<Rightarrow> int" where
  "retention_batch cfg = (if rc_BatchSize cfg \<le> 0 then 1000 else rc_BatchSize cfg)"

definition retirable :: "timestamp \<Rightarrow> int \<Rightarrow> Job \<Rightarrow> bool" where
  "retirable now secs j \<longleftrightarrow>
     Status j \<in> {Succeeded, Skipped, Dead} \<and> UpdatedAt j < now - secs * 1000000"

definition delete_batch ::
  "(Job list \<Rightarrow> Job list) \<Rightarrow> timestamp \<Rightarrow> int \<Rightarrow> int \<Rightarrow> db \<Rightarrow> int \<times> db"
where
  "delete_batch scan now secs batch D =
     (let is = map ID (take (nat batch) (scan (filter (retirable now secs) (transfer_jobs D))));
          D' = delete_jobs is D
      in (int (length (transfer_jobs D)) - int (length (transfer_jobs D')), D'))"

lemma delete_batch_shrinks:
  "delete_batch scan now secs batch D = (n, D') \<Longrightarrow> n \<noteq> 0 \<Longrightarrow>
   length (transfer_jobs D') < length (transfer_jobs D)"
  by (auto simp: delete_batch_def Let_def delete_jobs_def length_filter_le
      intro!: le_neq_implies_less)

text \<open>
  The \<^verbatim>\<open>for\<close> loop: it stops at the first batch that deletes fewer rows than its size. The test
  \<open>n = 0\<close> is implied by it, since the batch size is positive.
\<close>

function delete_batches ::
  "retention_env \<Rightarrow> int \<Rightarrow> int \<Rightarrow> nat \<Rightarrow> int \<Rightarrow> db \<Rightarrow> go_error + int \<times> db"
where
  "delete_batches x secs batch k deleted D =
     (case rt_delete x k of
        Some e \<Rightarrow> Inl (wrap_err ''retention: delete: '' e)
      | None \<Rightarrow>
        (case delete_batch (rt_scan x k) (rt_now x) secs batch D of (n, D') \<Rightarrow>
           if n < batch \<or> n = 0 then Inr (deleted + n, D')
           else delete_batches x secs batch (Suc k) (deleted + n) D'))"
  by pat_completeness auto
termination
  by (relation "measure (\<lambda>(x, secs, batch, k, deleted, D). length (transfer_jobs D))")
     (auto dest: delete_batch_shrinks [OF sym])

declare delete_batches.simps [simp del]

definition retention_Sweep ::
  "retention_env \<Rightarrow> RetentionConfig \<Rightarrow> db \<Rightarrow> (go_error + int) \<times> db"
where
  "retention_Sweep x cfg D =
     (if rc_Window cfg \<le> 0 then (Inr 0, D)
      else case rt_begin x of Some e \<Rightarrow> (Inl (wrap_err ''retention: begin: '' e), D)
      | None \<Rightarrow>
        (case rt_lock x of
           Inl e \<Rightarrow> (Inl (wrap_err ''retention: try advisory lock: '' e), D)
         | Inr locked \<Rightarrow>
             if \<not> locked then (Inr 0, D)
             else
               (case delete_batches x (int_seconds (rc_Window cfg)) (retention_batch cfg) 0 0 D of
                  Inl e \<Rightarrow> (Inl e, D)
                | Inr (n, D') \<Rightarrow> commit ''retention: commit: '' (rt_commit x) n D D')))"

record retention_tick =
  rk_done :: "go_error option"
  rk_env :: retention_env
  rk_others :: "db \<Rightarrow> db"
  rk_after :: "go_error option"

text \<open>The loop of \<^verbatim>\<open>Run\<close>; the list collects the arguments of \<^verbatim>\<open>OnCycle\<close>.\<close>

fun retention_Run_from ::
  "RetentionConfig \<Rightarrow> retention_tick list \<Rightarrow> db \<Rightarrow> go_error option \<times> int list \<times> db"
where
  "retention_Run_from cfg [] D = (None, [], D)"
| "retention_Run_from cfg (t # ts) D =
     (case rk_done t of
        Some e \<Rightarrow> (Some e, [], D)
      | None \<Rightarrow>
        (case retention_Sweep (rk_env t) cfg (rk_others t D) of
           (Inl e, D') \<Rightarrow>
             if errors_is e ErrCanceled \<or> errors_is e ErrDeadlineExceeded then
               (case rk_after t of
                  Some pe \<Rightarrow> (Some pe, [], D')
                | None \<Rightarrow> retention_Run_from cfg ts D')
             else retention_Run_from cfg ts D'
         | (Inr deleted, D') \<Rightarrow>
             (case retention_Run_from cfg ts D' of (e, ns, D'') \<Rightarrow> (e, deleted # ns, D''))))"

definition retention_interval :: "duration \<Rightarrow> duration" where
  "retention_interval interval = (if interval \<le> 0 then Hour else interval)"

section \<open>Lemmas\<close>

text \<open>The table and its events after the retirable rows are gone.\<close>

definition retired :: "timestamp \<Rightarrow> int \<Rightarrow> db \<Rightarrow> db" where
  "retired now secs D =
     delete_jobs (map ID (filter (retirable now secs) (transfer_jobs D))) D"

lemma retirable_terminal: "retirable now secs j \<Longrightarrow> terminal (Status j)"
  by (auto simp: retirable_def)

lemma next_id_delete_jobs [simp]: "next_id (delete_jobs is D) = next_id D"
  by (simp add: delete_jobs_def)

lemma delete_jobs_compose: "delete_jobs is (delete_jobs ks D) = delete_jobs (ks @ is) D"
  by (auto simp: delete_jobs_def intro!: filter_cong)

lemma delete_jobs_set_cong: "set is = set ks \<Longrightarrow> delete_jobs is D = delete_jobs ks D"
  by (simp add: delete_jobs_def)

text \<open>A scan order is a permutation of the rows it is given.\<close>

definition scans :: "retention_env \<Rightarrow> bool" where
  "scans x \<longleftrightarrow> (\<forall>k xs. mset (rt_scan x k xs) = mset xs)"

lemma scans_set: "scans x \<Longrightarrow> set (rt_scan x k xs) = set xs"
  by (metis scans_def set_mset_mset)

lemma length_delete_jobs:
  assumes "distinct (map ID (transfer_jobs D))" and "distinct is"
    and "set is \<subseteq> ID ` set (transfer_jobs D)"
  shows "int (length (transfer_jobs D)) - int (length (transfer_jobs (delete_jobs is D))) = int (length is)"
proof -
  let ?js = "transfer_jobs D"
  have "length ?js = length (filter (\<lambda>j. ID j \<notin> set is) ?js) + length (filter (\<lambda>j. ID j \<in> set is) ?js)"
    using sum_length_filter_compl [of "\<lambda>j. ID j \<notin> set is" ?js] by simp
  moreover have "length (filter (\<lambda>j. ID j \<in> set is) ?js) = length is"
  proof -
    have "length (filter (\<lambda>j. ID j \<in> set is) ?js) = length (map ID (filter (\<lambda>j. ID j \<in> set is) ?js))"
      by simp
    also have "\<dots> = card (set (map ID (filter (\<lambda>j. ID j \<in> set is) ?js)))"
      by (rule distinct_card [symmetric], rule distinct_map_filter [OF assms(1)])
    also have "set (map ID (filter (\<lambda>j. ID j \<in> set is) ?js)) = set is"
      using assms(3) by auto
    also have "card (set is) = length is" using assms(2) by (rule distinct_card)
    finally show ?thesis .
  qed
  ultimately show ?thesis by (simp add: delete_jobs_def)
qed

lemma delete_batch_step:
  assumes scan: "mset (scan es) = mset es" and es: "es = filter (retirable now secs) (transfer_jobs D)"
    and d: "distinct (map ID (transfer_jobs D))"
    and eq: "delete_batch scan now secs batch D = (n, D')"
  shows "n = int (min (nat batch) (length es))"
    and "D' = delete_jobs (map ID (take (nat batch) (scan es))) D"
    and "set (take (nat batch) (scan es)) \<subseteq> set es"
proof -
  let ?t = "take (nat batch) (scan es)"
  have len: "length (scan es) = length es" and st: "set (scan es) = set es"
    using scan by (metis size_mset, metis set_mset_mset)
  show sub: "set ?t \<subseteq> set es" using st set_take_subset by metis
  have "distinct (map ID es)" unfolding es using d by (rule distinct_map_filter)
  then have "distinct (map ID (scan es))"
    using scan by (metis mset_eq_imp_distinct_iff mset_map)
  then have dt: "distinct (map ID ?t)" by (metis distinct_take take_map)
  have "set (map ID ?t) \<subseteq> ID ` set (transfer_jobs D)" using sub es by auto
  from length_delete_jobs [OF d dt this]
  show "n = int (min (nat batch) (length es))" "D' = delete_jobs (map ID ?t) D"
    using eq len by (auto simp: delete_batch_def Let_def es)
qed

lemma count_retirable:
  assumes "distinct (map ID (transfer_jobs D))"
  shows "int (count_if (retirable now secs) (transfer_jobs D)) =
    int (length (transfer_jobs D)) - int (length (transfer_jobs (retired now secs D)))"
proof -
  have "distinct (map ID (filter (retirable now secs) (transfer_jobs D)))"
    using assms by (rule distinct_map_filter)
  moreover have "set (map ID (filter (retirable now secs) (transfer_jobs D))) \<subseteq> ID ` set (transfer_jobs D)"
    by auto
  ultimately show ?thesis
    using length_delete_jobs [OF assms] by (simp add: retired_def count_if_def)
qed

lemma retired_delete_some:
  assumes "set ts \<subseteq> set (filter (retirable now secs) (transfer_jobs D))"
  shows "retired now secs (delete_jobs (map ID ts) D) = retired now secs D"
  unfolding retired_def [of _ _ "delete_jobs (map ID ts) D"] delete_jobs_compose retired_def [of _ _ D]
  by (rule delete_jobs_set_cong) (use assms in \<open>auto simp: delete_jobs_def\<close>)

lemma delete_batches_result:
  "scans x \<Longrightarrow> 0 < batch \<Longrightarrow> distinct (map ID (transfer_jobs D)) \<Longrightarrow>
   delete_batches x secs batch k deleted D = Inr (n, D') \<Longrightarrow>
   D' = retired (rt_now x) secs D \<and>
   n = deleted + int (count_if (retirable (rt_now x) secs) (transfer_jobs D))"
proof (induction x secs batch k deleted D rule: delete_batches.induct)
  case (1 x secs batch k deleted D)
  note prems = "1.prems"
  define es where "es = filter (retirable (rt_now x) secs) (transfer_jobs D)"
  let ?t = "take (nat batch) (rt_scan x k es)"
  obtain m D1 where m: "delete_batch (rt_scan x k) (rt_now x) secs batch D = (m, D1)" by fastforce
  have scan: "mset (rt_scan x k es) = mset es" using prems(1) by (simp add: scans_def)
  note step = delete_batch_step [OF scan es_def prems(3) m]
  have noerr: "rt_delete x k = None"
    using prems(4) by (subst (asm) delete_batches.simps) (auto split: option.splits)
  show ?case
  proof (cases "m < batch")
    case True
    then have small: "length es < nat batch" using step(1) prems(2) by simp
    then have "?t = rt_scan x k es" using scan by (metis order_less_imp_le size_mset take_all)
    then have "D1 = retired (rt_now x) secs D"
      unfolding step(2) retired_def es_def [symmetric] using scans_set [OF prems(1)]
      by (intro delete_jobs_set_cong) simp
    moreover have "m = int (count_if (retirable (rt_now x) secs) (transfer_jobs D))"
      using step(1) small by (simp add: count_if_def es_def)
    ultimately show ?thesis
      using prems(4) True noerr m by (subst (asm) delete_batches.simps) simp
  next
    case False
    with prems(2) have more: "\<not> (m < batch \<or> m = 0)" by simp
    with noerr m prems(4)
    have rec: "delete_batches x secs batch (Suc k) (deleted + m) D1 = Inr (n, D')"
      by (subst (asm) delete_batches.simps) simp
    have d1: "distinct (map ID (transfer_jobs D1))"
      unfolding step(2) delete_jobs_def using prems(3) by (simp add: distinct_map_filter)
    have same: "retired (rt_now x) secs D1 = retired (rt_now x) secs D"
      unfolding step(2) using step(3) by (intro retired_delete_some) (simp add: es_def)
    have "int (length (transfer_jobs D)) - int (length (transfer_jobs D1)) = m"
      using m by (auto simp: delete_batch_def Let_def)
    with "1.IH" [OF noerr m [symmetric] more prems(1,2) d1 rec]
      count_retirable [OF d1, of "rt_now x" secs] count_retirable [OF prems(3), of "rt_now x" secs]
    show ?thesis by (simp add: same)
  qed
qed

lemma delete_batches_total:
  "(\<And>k. rt_delete x k = None) \<Longrightarrow> \<exists>n D'. delete_batches x secs batch k deleted D = Inr (n, D')"
proof (induction x secs batch k deleted D rule: delete_batches.induct)
  case (1 x secs batch k deleted D)
  obtain m D1 where m: "delete_batch (rt_scan x k) (rt_now x) secs batch D = (m, D1)" by fastforce
  show ?case
    using "1.IH" [OF "1.prems" m [symmetric]] "1.prems" m
    by (subst delete_batches.simps) auto
qed

lemma delete_batches_ok:
  "db_ok D \<Longrightarrow> delete_batches x secs batch k deleted D = Inr (n, D') \<Longrightarrow>
   db_ok D' \<and> next_id D' = next_id D \<and>
   (\<forall>k \<in> set (transfer_jobs D'). k \<in> set (transfer_jobs D))"
proof (induction x secs batch k deleted D rule: delete_batches.induct)
  case (1 x secs batch k deleted D)
  obtain m D1 where m: "delete_batch (rt_scan x k) (rt_now x) secs batch D = (m, D1)" by fastforce
  then obtain ids where D1: "D1 = delete_jobs ids D" by (auto simp: delete_batch_def Let_def)
  have ok1: "db_ok D1" unfolding D1 using "1.prems"(1) by (rule db_ok_delete_jobs)
  have noerr: "rt_delete x k = None"
    using "1.prems"(2) by (subst (asm) delete_batches.simps) (auto split: option.splits)
  have sub: "next_id D1 = next_id D" "\<And>k. k \<in> set (transfer_jobs D1) \<Longrightarrow> k \<in> set (transfer_jobs D)"
    by (simp_all add: D1 delete_jobs_def)
  show ?case
    using "1.prems"(2) "1.IH" [OF noerr m [symmetric] _ ok1] noerr m ok1 sub
    by (subst (asm) delete_batches.simps) (auto split: if_splits)
qed

lemma retention_Sweep_rows:
  assumes "db_ok D" and "retention_Sweep x cfg D = (res, D')"
  shows "db_ok D'" and "k \<in> set (transfer_jobs D') \<Longrightarrow> k \<in> set (transfer_jobs D)"
proof -
  have *: "db_ok D' \<and> (\<forall>k \<in> set (transfer_jobs D'). k \<in> set (transfer_jobs D))"
  proof (cases "delete_batches x (int_seconds (rc_Window cfg)) (retention_batch cfg) 0 0 D")
    case (Inl e)
    then show ?thesis
      using assms by (auto simp: retention_Sweep_def split: if_splits option.splits sum.splits)
  next
    case (Inr r)
    obtain n D1 where r: "r = (n, D1)" by fastforce
    note ok1 = delete_batches_ok [OF assms(1) Inr [unfolded r]]
    show ?thesis
      using assms Inr r ok1
      by (cases "rt_commit x")
         (auto simp: retention_Sweep_def split: if_splits option.splits sum.splits)
  qed
  then show "db_ok D'" and "k \<in> set (transfer_jobs D') \<Longrightarrow> k \<in> set (transfer_jobs D)" by auto
qed

lemma retention_Sweep_snapshot:
  assumes "db_ok D" and "snapshot_current lb job D"
  shows "snapshot_current lb job (snd (retention_Sweep x cfg D))"
  by (rule snapshot_current_mono [OF assms(2)])
     (metis assms(1) prod.collapse retention_Sweep_rows(2))

section \<open>Properties\<close>

text \<open>
  C19. Retention deletes exactly the old finished jobs. A cycle in which no statement fails and the
  advisory lock is granted terminates, whatever order the database scans the rows in and however
  many batches it takes; it deletes precisely the succeeded, skipped and dead rows last updated
  before the window, together with their events, and reports their number. Pending and leased
  rows, and events of rows that stay, are never touched.
\<close>

theorem retention_deletes_exactly:
  assumes "db_ok D" and "scans x" and "0 < rc_Window cfg"
    and "rt_begin x = None" and "rt_lock x = Inr True" and "\<forall>k. rt_delete x k = None"
    and "rt_commit x = DB_Ok"
  defines "old \<equiv> \<lambda>j. Status j \<in> {Succeeded, Skipped, Dead} \<and>
     UpdatedAt j < rt_now x - int_seconds (rc_Window cfg) * 1000000"
  shows "retention_Sweep x cfg D =
    (Inr (int (length (filter old (transfer_jobs D)))),
     D\<lparr>transfer_jobs := filter (\<lambda>j. \<not> old j) (transfer_jobs D),
       transfer_events := filter (\<lambda>e. \<not> (\<exists>j \<in> set (transfer_jobs D). old j \<and> ID j = ev_job_id e))
         (transfer_events D)\<rparr>)"
proof -
  let ?secs = "int_seconds (rc_Window cfg)"
  have old: "old = retirable (rt_now x) ?secs" by (auto simp: old_def retirable_def fun_eq_iff)
  have pos: "0 < retention_batch cfg" by (simp add: retention_batch_def)
  note d = db_okD(1) [OF assms(1)]
  obtain n D' where B: "delete_batches x ?secs (retention_batch cfg) 0 0 D = Inr (n, D')"
    using delete_batches_total assms(6) by blast
  from delete_batches_result [OF assms(2) pos d B]
  have D': "D' = retired (rt_now x) ?secs D" and n: "n = int (length (filter old (transfer_jobs D)))"
    by (simp_all add: count_if_def old)
  have "filter (\<lambda>j. ID j \<notin> ID ` {j \<in> set (transfer_jobs D). old j}) (transfer_jobs D) =
      filter (\<lambda>j. \<not> old j) (transfer_jobs D)"
    using distinct_map_eq [OF d] by (intro filter_cong) auto
  moreover have "filter (\<lambda>e. ev_job_id e \<notin> ID ` {j \<in> set (transfer_jobs D). old j}) (transfer_events D) =
      filter (\<lambda>e. \<not> (\<exists>j \<in> set (transfer_jobs D). old j \<and> ID j = ev_job_id e)) (transfer_events D)"
    by (intro filter_cong) (auto simp: image_iff)
  ultimately show ?thesis
    using assms(3-7) B n D' by (simp add: retention_Sweep_def retired_def delete_jobs_def old)
qed

text \<open>Two finished jobs and a pending one, retired in batches of one.\<close>

definition retention_db :: db where
  "retention_db =
     (let row = (\<lambda>i. new_row 0 i (''t'' @ itoa i) ''/s'' ''/d'' ''ftp'' ''ftp'' ''{}'' 5);
          ev = (\<lambda>i. \<lparr>ev_trace_id = ''t'' @ itoa i, ev_job_id = i, ev_ts = 0, ev_status = Ev_success, ev_detail = JObj []\<rparr>)
      in \<lparr>transfer_jobs = [(row 1)\<lparr>Status := Succeeded\<rparr>, (row 2)\<lparr>Status := Succeeded\<rparr>, row 3],
          transfer_events = [ev 1, ev 2], next_id = 4\<rparr>)"

definition retention_clean :: "timestamp \<Rightarrow> retention_env" where
  "retention_clean now = \<lparr>rt_now = now, rt_begin = None, rt_lock = Inr True, rt_scan = (\<lambda>_ xs. rev xs),
     rt_delete = (\<lambda>_. None), rt_commit = DB_Ok\<rparr>"

theorem retention_deletes_exactly_witness:
  "case retention_Sweep (retention_clean 9000000) \<lparr>rc_Window = 2 * Second, rc_BatchSize = 1\<rparr> retention_db of
     (n, D') \<Rightarrow> n = Inr 2 \<and> map ID (transfer_jobs D') = [3] \<and> transfer_events D' = []"
proof -
  let ?x = "retention_clean 9000000" and ?cfg = "\<lparr>rc_Window = 2 * Second, rc_BatchSize = 1\<rparr>"
  have ok: "db_ok retention_db"
    by (auto simp: db_ok_def schema_ok_def row_ok_def audit_ok_def retention_db_def new_row_def itoa_inj Let_def)
  have sc: "scans ?x" by (simp add: scans_def retention_clean_def)
  have m: "int_seconds 2000000000 = 2" using int_seconds_whole [of 2] by simp
  have "0 < rc_Window ?cfg" "rt_begin ?x = None" "rt_lock ?x = Inr True" "\<forall>k. rt_delete ?x k = None"
    "rt_commit ?x = DB_Ok" by (simp_all add: retention_clean_def)
  from retention_deletes_exactly [OF ok sc this] show ?thesis
    by (simp add: m) (simp add: retention_clean_def retention_db_def new_row_def Let_def)
qed

end
