(* ===== verification/Queue_Machine.thy ===== *)
theory Queue_Machine
  imports Jobs Sniffer Worker_Props Sweeper Retention
begin

text \<open>
  The queue under everything that runs on it at once: producers, sniffers, any number of
  workers that lease, process, panic, crash and drain, the sweeper and retention, in any
  order and with any database faults. Each rule is one call of the code of a component on the
  shared tables; between the calls of one process any others may happen.
\<close>

section \<open>Steps\<close>

text \<open>What a worker is doing: processing a job, or handling a panic of one.\<close>

datatype phase = Running Job | Recovering Job string

fun phase_job :: "phase \<Rightarrow> Job" where
  "phase_job (Running j) = j"
| "phase_job (Recovering j _) = j"

record qstate =
  q_db :: db
  q_workers :: "string \<rightharpoonup> phase"

inductive qstep :: "('w, 'b) Runner \<Rightarrow> qstate \<Rightarrow> qstate \<Rightarrow> bool" for r :: "('w, 'b) Runner" where
  qs_enqueue: "Enqueue x a (q_db s) = (res, D') \<Longrightarrow> qstep r s (s\<lparr>q_db := D'\<rparr>)"
| qs_sniff: "EnqueueBatch out now specs (q_db s) = (res, D') \<Longrightarrow> qstep r s (s\<lparr>q_db := D'\<rparr>)"
| qs_lease: "q_workers s lb = None \<Longrightarrow> LeaseJob out now skip lb (q_db s) = (Inr (Some job), D') \<Longrightarrow>
    qstep r s (s\<lparr>q_db := D', q_workers := (q_workers s)(lb \<mapsto> Running job)\<rparr>)"
| qs_lease_none: "q_workers s lb = None \<Longrightarrow> LeaseJob out now skip lb (q_db s) = (res, D') \<Longrightarrow>
    \<forall>job. res \<noteq> Inr (Some job) \<Longrightarrow> qstep r s (s\<lparr>q_db := D'\<rparr>)"
| qs_process: "q_workers s lb = Some (Running job) \<Longrightarrow>
    processOne v vp r lb job w (q_db s) = (acts, w', D') \<Longrightarrow>
    qstep r s (s\<lparr>q_db := D', q_workers := (q_workers s)(lb := None)\<rparr>)"
| qs_panic: "q_workers s lb = Some (Running job) \<Longrightarrow>
    SourceFor r (SrcProtocol job) = Inr src \<Longrightarrow> TransportFor r (DstProtocol job) = Inr tr \<Longrightarrow>
    ProcessJob v \<lparr>d_LockedBy = lb, d_Source = src, d_Transport = tr\<rparr> job w (q_db s) =
      (Panic p, acts, w', D') \<Longrightarrow>
    qstep r s (s\<lparr>q_db := D', q_workers := (q_workers s)(lb \<mapsto> Recovering job p)\<rparr>)"
| qs_recover: "q_workers s lb = Some (Recovering job p) \<Longrightarrow>
    writeRetryOrDead vp lb False job [(''error'', JStr p), (''stage'', JStr ''panic'')] (q_db s) =
      (res, acts, D') \<Longrightarrow>
    qstep r s (s\<lparr>q_db := D', q_workers := (q_workers s)(lb := None)\<rparr>)"
| qs_crash: "qstep r s (s\<lparr>q_workers := (q_workers s)(lb := None)\<rparr>)"
| qs_drain: "q_workers s lb = None \<Longrightarrow> qstep r s (s\<lparr>q_db := drainLease out now lb (q_db s)\<rparr>)"
| qs_sweep: "Sweep y threshold (q_db s) = (res, D') \<Longrightarrow> qstep r s (s\<lparr>q_db := D'\<rparr>)"
| qs_retain: "scans z \<Longrightarrow> retention_Sweep z cfg (q_db s) = (res, D') \<Longrightarrow> qstep r s (s\<lparr>q_db := D'\<rparr>)"

definition q_init :: "qstate \<Rightarrow> bool" where
  "q_init s \<longleftrightarrow> q_db s = empty_db \<and> q_workers s = Map.empty"

text \<open>
  The invariant: the tables are consistent and every worker's snapshot is current as long as
  its lease is.
\<close>

definition q_inv :: "qstate \<Rightarrow> bool" where
  "q_inv s \<longleftrightarrow> db_ok (q_db s) \<and>
     (\<forall>lb ph. q_workers s lb = Some ph \<longrightarrow> snapshot_current lb (phase_job ph) (q_db s))"

abbreviation q_reach :: "('w, 'b) Runner \<Rightarrow> qstate \<Rightarrow> bool" where
  "q_reach r \<equiv> reach q_init (qstep r)"

section \<open>The invariant holds\<close>

lemma Enqueue_snapshot:
  assumes "snapshot_current lb job D" and "Enqueue x a D = (res, D')"
  shows "snapshot_current lb job D'"
  using Enqueue_rows [OF assms(2)]
  by (intro snapshot_current_mono [OF assms(1)]) (fastforce simp: leased_by_def)

lemma EnqueueBatch_snapshot:
  assumes "snapshot_current lb job D" and "EnqueueBatch out now specs D = (res, D')"
  shows "snapshot_current lb job D'"
proof (rule snapshot_current_mono [OF assms(1)])
  fix k assume k: "k \<in> set (transfer_jobs D')" "leased_by lb k"
  obtain new where new: "transfer_jobs (snd (insert_specs now specs D)) = transfer_jobs D @ new"
    "\<forall>r \<in> set new. Status r = Pending"
    using insert_specs_rows [of now specs D] by blast
  from assms(2) have D': "D' = snd (EnqueueBatch out now specs D)" by simp
  show "k \<in> set (transfer_jobs D)"
  proof (cases rule: EnqueueBatch_db [of out now specs D])
    case ran
    with D' new k show ?thesis by (auto simp: leased_by_def)
  next
    case skipped
    with D' k show ?thesis by simp
  qed
qed

lemma q_invD:
  "q_inv s \<Longrightarrow> q_workers s lb = Some ph \<Longrightarrow> db_ok (q_db s) \<and> snapshot_current lb (phase_job ph) (q_db s)"
  by (simp add: q_inv_def)

lemma q_inv_db_step:
  assumes "q_inv s" and "db_ok D'"
    and "\<And>lb job. snapshot_current lb job (q_db s) \<Longrightarrow> snapshot_current lb job D'"
  shows "q_inv (s\<lparr>q_db := D'\<rparr>)" and "q_inv (s\<lparr>q_db := D', q_workers := (q_workers s)(lb := None)\<rparr>)"
  using assms by (auto simp: q_inv_def)

lemma q_inv_step: "qstep r s t \<Longrightarrow> q_inv s \<Longrightarrow> q_inv t"
proof (induction rule: qstep.induct)
  case (qs_enqueue x a s res D')
  then show ?case
    using db_ok_Enqueue [of "q_db s" x a]
    by (intro q_inv_db_step(1)) (auto simp: q_inv_def intro: Enqueue_snapshot)
next
  case (qs_sniff out now specs s res D')
  then show ?case
    using db_ok_EnqueueBatch [of "q_db s" out now specs]
    by (intro q_inv_db_step(1)) (auto simp: q_inv_def intro: EnqueueBatch_snapshot)
next
  case (qs_lease s lb out now skip job D')
  then have "db_ok D'" and "snapshot_current lb job D'"
    using db_ok_LeaseJob [of "q_db s" out now skip lb] LeaseJob_own_snapshot [OF _ qs_lease(2)]
    by (auto simp: q_inv_def)
  with qs_lease show ?case
    using LeaseJob_other_snapshot [of _ _ "q_db s" lb out now skip] by (auto simp: q_inv_def)
next
  case (qs_lease_none s lb out now skip res D')
  then have "db_ok D'"
    using db_ok_LeaseJob [of "q_db s" out now skip lb] by (auto simp: q_inv_def)
  with qs_lease_none show ?case
    using LeaseJob_other_snapshot [of _ _ "q_db s" lb out now skip] by (fastforce simp: q_inv_def)
next
  case (qs_process s lb job v vp w acts w' D')
  then have "db_ok (q_db s)" and "snapshot_current lb job (q_db s)" by (auto dest!: q_invD)
  from processOne_ok [OF qs_process(2) this] qs_process(3) show ?case
    by (intro q_inv_db_step(2))
next
  case (qs_panic s lb job src tr v w p acts w' D')
  then have ok: "db_ok (q_db s)" "snapshot_current lb job (q_db s)" by (auto dest!: q_invD)
  have "outcome_write lb job (q_db s) D'" using ProcessJob_outcome [OF qs_panic(4)] by simp
  with ok qs_panic(5) show ?case
    by (auto simp: q_inv_def intro: outcome_write_ok outcome_write_snapshot)
next
  case (qs_recover s lb job p vp res acts D')
  then have ok: "db_ok (q_db s)" "snapshot_current lb job (q_db s)" by (auto dest!: q_invD)
  have "outcome_write lb job (q_db s) D'" using outcome_writeRetryOrDead [OF qs_recover(2)] .
  with ok qs_recover(3) show ?case
    by (intro q_inv_db_step(2)) (auto intro: outcome_write_ok outcome_write_snapshot)
next
  case (qs_crash s lb)
  then show ?case by (auto simp: q_inv_def)
next
  case (qs_drain s lb out now)
  then show ?case
    by (intro q_inv_db_step(1)) (auto simp: q_inv_def intro: db_ok_drainLease drainLease_snapshot)
next
  case (qs_sweep y threshold s res D')
  then show ?case
    using db_ok_Sweep [of "q_db s" y threshold] Sweep_snapshot [of _ _ "q_db s" y threshold]
    by (intro q_inv_db_step(1)) (auto simp: q_inv_def)
next
  case (qs_retain z cfg s res D')
  then show ?case
    using retention_Sweep_rows(1) [of "q_db s" z cfg] retention_Sweep_snapshot [of "q_db s" _ _ z cfg]
    by (intro q_inv_db_step(1)) (auto simp: q_inv_def)
qed

interpretation queue_inv: inductive_invariant q_init "qstep r" q_inv for r :: "('w, 'b) Runner"
proof
  show "q_inv s" if "q_init s" for s using that by (simp add: q_init_def q_inv_def)
qed (rule q_inv_step)

section \<open>Finished jobs stay finished\<close>

text \<open>
  Along every run: ids are not reused, a row that is gone stays gone, and a finished row is
  the same row or gone.
\<close>

definition ids :: "db \<Rightarrow> int set" where
  "ids D = ID ` set (transfer_jobs D)"

definition db_later :: "db \<Rightarrow> db \<Rightarrow> bool" where
  "db_later D D' \<longleftrightarrow> next_id D \<le> next_id D' \<and>
     (\<forall>i < next_id D. i \<notin> ids D \<longrightarrow> i \<notin> ids D') \<and>
     (\<forall>j \<in> set (transfer_jobs D). ID j < next_id D \<longrightarrow> terminal (Status j) \<longrightarrow>
        j \<in> set (transfer_jobs D') \<or> ID j \<notin> ids D')"

lemma db_later_refl: "db_later D D"
  by (simp add: db_later_def)

lemma db_later_trans: "db_later D E \<Longrightarrow> db_later E F \<Longrightarrow> db_later D F"
  unfolding db_later_def by (meson order.trans less_le_trans)

lemma db_later_rows:
  assumes "next_id D \<le> next_id D'"
    and "\<And>k. k \<in> set (transfer_jobs D') \<Longrightarrow> ID k \<in> ids D \<or> next_id D \<le> ID k"
    and "\<And>j. j \<in> set (transfer_jobs D) \<Longrightarrow> terminal (Status j) \<Longrightarrow> j \<in> set (transfer_jobs D')"
  shows "db_later D D'"
  using assms unfolding db_later_def ids_def by (auto simp: linorder_not_le [symmetric])

lemma db_later_upd_where:
  assumes "\<And>j. p j \<Longrightarrow> \<not> terminal (Status j)" and "\<And>j. ID (f j) = ID j"
  shows "db_later D (D\<lparr>transfer_jobs := upd_where p f (transfer_jobs D), transfer_events := es\<rparr>)"
  using assms by (intro db_later_rows) (auto simp: set_upd_where ids_def)

lemma db_later_outcome_write: "outcome_write lb job D D' \<Longrightarrow> db_later D D'"
  by (cases rule: outcome_write.cases)
     (auto simp: guarded_write_def Let_def holds_lease_def success_row_def terminal_row_def retry_row_def
      intro!: db_later_upd_where db_later_refl)

lemma db_later_Enqueue: "Enqueue x a D = (res, D') \<Longrightarrow> db_later D D'"
  by (cases "tx_commit x")
     (auto simp: Enqueue_def insert_event_def insert_job_Some insert_job_None new_row_def rollback_def ids_def
      intro!: db_later_rows split: option.splits prod.splits if_splits)

lemma db_later_insert_specs: "db_later D (snd (insert_specs now js D))"
proof (induction js arbitrary: D)
  case Nil
  show ?case by (simp add: db_later_refl)
next
  case (Cons j js)
  have "db_later D (snd (insert_spec now j D))"
    by (cases rule: insert_spec_cases [of j D now])
       (auto simp: ids_def new_row_def intro!: db_later_rows)
  from db_later_trans [OF this Cons.IH] show ?case by (simp add: case_prod_unfold)
qed

lemma db_later_lease_stmt:
  assumes "db_ok D"
  shows "db_later D (snd (lease_stmt now skip w D))"
proof (cases "lease_stmt now skip w D")
  case (Pair r D')
  show ?thesis
  proof (cases r)
    case None
    with Pair show ?thesis using lease_stmt_None [of now skip w D D'] by (simp add: db_later_refl)
  next
    case (Some job)
    with Pair have "lease_stmt now skip w D = (Some job, D')" by simp
    then show ?thesis
    proof (rule lease_stmt_Some)
      fix n assume n: "n \<in> set (transfer_jobs D)" "Status n = Pending"
        and D': "D' = D\<lparr>transfer_jobs := upd_where (\<lambda>j. ID j = ID n) (lease_row now w) (transfer_jobs D)\<rparr>"
      have "j \<in> set (transfer_jobs D')" if "j \<in> set (transfer_jobs D)" "terminal (Status j)" for j
        using upd_where_image [OF that(1), of "\<lambda>j. ID j = ID n" "lease_row now w"] that n
          distinct_map_eq [OF db_okD(1) [OF assms] that(1) n(1)]
        by (auto simp: D' split: if_splits)
      then have "db_later D D'"
        using n(1) by (intro db_later_rows) (auto simp: D' set_upd_where ids_def lease_row_def)
      then show ?thesis using Pair by simp
    qed
  qed
qed

lemma db_later_LeaseJob:
  assumes "db_ok D" and "LeaseJob out now skip w D = (res, D')"
  shows "db_later D D'"
proof -
  have "D' = snd (pg_exec out (lease_stmt now skip w) D)" using assms(2) LeaseJob_db by (metis snd_conv)
  then show ?thesis
    using db_later_lease_stmt [OF assms(1)] db_later_refl
    by (cases rule: pg_exec_cases [of out "lease_stmt now skip w" D]) auto
qed

lemma db_later_release:
  assumes "\<And>j. p j \<Longrightarrow> Status j = Leased"
  shows "db_later D (D\<lparr>transfer_jobs := upd_where p (release_row now) (transfer_jobs D), transfer_events := es\<rparr>)"
  by (rule db_later_upd_where) (auto dest: assms simp: release_row_def)

lemma db_later_drainLease: "db_later D (drainLease out now lb D)"
  using db_later_release [where p = "leased_by lb" and D = D and now = now and es = "transfer_events D"] db_later_refl
  by (cases out) (auto simp: drainLease_def leased_by_def)

lemma db_later_Sweep:
  assumes "Sweep y threshold D = (res, D')"
  shows "db_later D D'"
  using assms
proof (cases rule: Sweep_cases)
  case ran
  then show ?thesis unfolding swept_def by (auto intro!: db_later_release simp: lease_expired_def)
qed (simp add: db_later_refl)

lemma db_later_delete_jobs: "db_later D (delete_jobs is D)"
  by (auto simp: db_later_def delete_jobs_def ids_def)

lemma delete_batches_jobs:
  "delete_batches x secs bs k deleted D = Inr (n, D') \<Longrightarrow> db_later D D' \<and> next_id D' = next_id D"
proof (induction x secs bs k deleted D rule: delete_batches.induct)
  case (1 x secs bs k deleted D)
  obtain m D1 where m: "delete_batch (rt_scan x k) (rt_now x) secs bs D = (m, D1)" by fastforce
  then have "db_later D D1" "next_id D1 = next_id D"
    using db_later_delete_jobs by (auto simp: delete_batch_def Let_def)
  then show ?case
    using "1.prems" "1.IH" [OF _ m [symmetric]] m
    by (subst (asm) delete_batches.simps) (auto intro: db_later_trans split: option.splits if_splits)
qed

lemma db_later_retention:
  assumes "retention_Sweep z cfg D = (res, D')"
  shows "db_later D D'"
proof (cases "delete_batches z (int_seconds (rc_Window cfg)) (retention_batch cfg) 0 0 D")
  case (Inl e)
  then show ?thesis
    using assms db_later_refl by (auto simp: retention_Sweep_def split: if_splits option.splits sum.splits)
next
  case (Inr p)
  obtain n E where p: "p = (n, E)" by fastforce
  have "db_later D E" "next_id E = next_id D" using Inr delete_batches_jobs p by blast+
  then show ?thesis
    using assms Inr p db_later_refl
    by (cases "rt_commit z") (auto simp: retention_Sweep_def split: if_splits option.splits sum.splits)
qed

lemma db_later_qstep: "qstep r s t \<Longrightarrow> q_inv s \<Longrightarrow> db_later (q_db s) (q_db t)"
proof (induction rule: qstep.induct)
  case (qs_process s lb job v vp w acts w' D')
  then show ?case
    using processOne_outcome [OF qs_process(2)] by (auto intro: db_later_outcome_write db_later_trans)
next
  case (qs_sniff out now specs s res D')
  then have "D' = snd (EnqueueBatch out now specs (q_db s))" by simp
  then show ?case
    using db_later_insert_specs db_later_refl
    by (cases rule: EnqueueBatch_db [of out now specs "q_db s"]) auto
qed (auto simp: q_inv_def db_later_refl intro: db_later_Enqueue db_later_LeaseJob db_later_outcome_write
    db_later_drainLease db_later_Sweep db_later_retention
    dest: ProcessJob_outcome outcome_writeRetryOrDead)

interpretation finished: step_monotone "\<lambda>s t. qstep r s t \<and> q_inv s" "\<lambda>s t. db_later (q_db s) (q_db t)"
  for r :: "('w, 'b) Runner"
  by unfold_locales (auto intro: db_later_refl db_later_trans db_later_qstep)

lemma run_later:
  assumes "q_inv s" and "(qstep r)\<^sup>*\<^sup>* s t"
  shows "db_later (q_db s) (q_db t)"
proof -
  have "(\<lambda>s t. qstep r s t \<and> q_inv s)\<^sup>*\<^sup>* s t \<and> q_inv t"
    using assms(2)
  proof (induction rule: rtranclp_induct)
    case (step t u)
    then show ?case using q_inv_step by (metis (mono_tags, lifting) rtranclp.rtrancl_into_rtrancl)
  qed (use assms(1) in simp)
  then show ?thesis using finished.steps_rel by blast
qed

section \<open>A run\<close>

text \<open>A job is enqueued, leased and transferred; the run the witnesses use.\<close>

definition run_row :: Job where
  "run_row = new_row 7 1 ''t'' ''/a'' ''/d'' ''localfs'' ''localfs'' ''{}'' 5"

definition run_queued :: db where
  "run_queued = snd (Enqueue (no_faults 7) (example_args ''/a'') empty_db)"

definition run_leased :: db where
  "run_leased = snd (LeaseJob DB_Ok 8 (\<lambda>_. False) ''w'' run_queued)"

definition run_done :: db where
  "run_done = snd (snd (processOne ex_v ex_v (ex_runner 3) ''w'' (lease_row 8 ''w'' run_row) () run_leased))"

lemma run_rows:
  "transfer_jobs run_queued = [run_row]"
  "LeaseJob DB_Ok 8 (\<lambda>_. False) ''w'' run_queued = (Inr (Some (lease_row 8 ''w'' run_row)), run_leased)"
  "transfer_jobs run_leased = [lease_row 8 ''w'' run_row]"
proof -
  show q: "transfer_jobs run_queued = [run_row]"
    by (simp add: run_queued_def Enqueue_def no_faults_def example_args_def insert_job_def key_taken_def
        empty_db_def Let_def insert_event_def run_row_def enqueue_payload_def enqueue_max_attempts_def)
  show l: "LeaseJob DB_Ok 8 (\<lambda>_. False) ''w'' run_queued = (Inr (Some (lease_row 8 ''w'' run_row)), run_leased)"
    using q by (simp add: run_leased_def LeaseJob_def lease_stmt_def lease_candidates_def first_by_def
        run_row_def new_row_def)
  show "transfer_jobs run_leased = [lease_row 8 ''w'' run_row]"
    using q by (simp add: run_leased_def LeaseJob_def lease_stmt_def lease_candidates_def first_by_def
        run_row_def new_row_def)
qed

lemma run_done_rows: "map Status (transfer_jobs run_done) = [Succeeded]"
  using run_rows(3)
  by (simp add: run_done_def processOne_def ProcessJob_def ex_runner_def writeSuccess_def exec_err_def ex_v_def
      guarded_write_def Let_def holds_lease_def lease_row_def run_row_def new_row_def success_row_def)

lemma reach_next: "q_reach r s \<Longrightarrow> qstep r s u \<Longrightarrow> u = t \<Longrightarrow> q_reach r t"
  by (simp add: reach_step)

lemma run_reach_queued: "q_reach (ex_runner 3) \<lparr>q_db = run_queued, q_workers = Map.empty\<rparr>"
proof (rule reach_next)
  let ?s = "\<lparr>q_db = empty_db, q_workers = Map.empty\<rparr>"
  show "q_reach (ex_runner 3) ?s" by (rule reach_init) (simp add: q_init_def)
  show "qstep (ex_runner 3) ?s (?s\<lparr>q_db := run_queued\<rparr>)"
  proof (rule qs_enqueue)
    show "Enqueue (no_faults 7) (example_args ''/a'') (q_db ?s) =
        (fst (Enqueue (no_faults 7) (example_args ''/a'') empty_db), run_queued)"
      by (simp add: run_queued_def)
  qed
qed simp

lemma run_reach_leased:
  "q_reach (ex_runner 3) \<lparr>q_db = run_leased, q_workers = [''w'' \<mapsto> Running (lease_row 8 ''w'' run_row)]\<rparr>"
proof (rule reach_next)
  let ?s = "\<lparr>q_db = run_queued, q_workers = Map.empty\<rparr>"
  show "q_reach (ex_runner 3) ?s" by (rule run_reach_queued)
  show "qstep (ex_runner 3) ?s
      (?s\<lparr>q_db := run_leased, q_workers := (q_workers ?s)(''w'' \<mapsto> Running (lease_row 8 ''w'' run_row))\<rparr>)"
  proof (rule qs_lease)
    show "LeaseJob DB_Ok 8 (\<lambda>_. False) ''w'' (q_db ?s) = (Inr (Some (lease_row 8 ''w'' run_row)), run_leased)"
      using run_rows(2) by simp
  qed simp
qed simp

lemma run_reach_done: "q_reach (ex_runner 3) \<lparr>q_db = run_done, q_workers = Map.empty\<rparr>"
proof (rule reach_next)
  let ?s = "\<lparr>q_db = run_leased, q_workers = [''w'' \<mapsto> Running (lease_row 8 ''w'' run_row)]\<rparr>"
  let ?P = "processOne ex_v ex_v (ex_runner 3) ''w'' (lease_row 8 ''w'' run_row) () run_leased"
  show "q_reach (ex_runner 3) ?s" by (rule run_reach_leased)
  show "qstep (ex_runner 3) ?s (?s\<lparr>q_db := run_done, q_workers := (q_workers ?s)(''w'' := None)\<rparr>)"
  proof (rule qs_process)
    show "processOne ex_v ex_v (ex_runner 3) ''w'' (lease_row 8 ''w'' run_row) () (q_db ?s) =
        (fst ?P, fst (snd ?P), run_done)"
      unfolding run_done_def by (simp only: qstate.select_convs prod.collapse)
  qed simp
qed simp

section \<open>Properties\<close>

text \<open>
  C1. The queue is consistent in every reachable state, whatever interleaving of producers,
  sniffers, workers, crashes, sweeps and retention and whatever database faults led to it: ids and
  keys \<open>(trace_id, dst)\<close> are unique, the lock columns are set exactly on leased rows, attempts
  stay between zero and the budget, and a row with its budget used up is finished.
\<close>

theorem queue_consistent:
  assumes "reach q_init (qstep r) s"
  shows "distinct (map ID (transfer_jobs (q_db s))) \<and>
    distinct (map (\<lambda>j. (TraceID j, Dst j)) (transfer_jobs (q_db s))) \<and>
    list_all (\<lambda>j. (LockedBy j \<noteq> None \<longleftrightarrow> Status j = Leased) \<and> (LockedAt j \<noteq> None \<longleftrightarrow> Status j = Leased) \<and>
        0 \<le> Attempts j \<and> Attempts j \<le> MaxAttempts j \<and>
        (Attempts j = MaxAttempts j \<longrightarrow> Status j \<in> {Succeeded, Skipped, Dead})) (transfer_jobs (q_db s))"
proof -
  have ok: "db_ok (q_db s)" using queue_inv.reach_inv [OF assms] by (simp add: q_inv_def)
  have "Status j \<in> {Succeeded, Skipped, Dead}" if "terminal (Status j)" for j
    using that by (cases "Status j") auto
  then show ?thesis
    using db_okD(1,2) [OF ok] db_okD(3) [OF ok] by (fastforce simp: list_all_iff row_ok_def)
qed

theorem queue_consistent_witness:
  "list_all (\<lambda>j. 0 \<le> Attempts j \<and> Attempts j \<le> MaxAttempts j) (transfer_jobs run_leased) \<and>
   transfer_jobs run_leased \<noteq> []"
  using queue_consistent [OF run_reach_leased] run_rows(3) by simp

text \<open>
  C2. The audit log tells the truth. In every reachable state a job has exactly one \<open>success\<close>,
  \<open>skip\<close> or \<open>dead\<close> event if it is succeeded, skipped or dead and none otherwise (so no outcome is
  ever recorded twice), its attempts are the number of its \<open>fail\<close> and \<open>dead\<close> events, and there
  are therefore never more of these than its budget: no job fails more often than allowed.
\<close>

theorem audit_log_exact:
  assumes "reach q_init (qstep r) s" and "j \<in> set (transfer_jobs (q_db s))"
  defines "events \<equiv> \<lambda>st. length (filter (\<lambda>e. ev_job_id e = ID j \<and> ev_status e = st) (transfer_events (q_db s)))"
  shows "events Ev_success = (if Status j = Succeeded then 1 else 0) \<and>
    events Ev_skip = (if Status j = Skipped then 1 else 0) \<and>
    events Ev_dead = (if Status j = Dead then 1 else 0) \<and>
    int (events Ev_fail + events Ev_dead) = Attempts j \<and>
    int (events Ev_fail + events Ev_dead) \<le> MaxAttempts j"
proof -
  have ok: "db_ok (q_db s)" using queue_inv.reach_inv [OF assms(1)] by (simp add: q_inv_def)
  from db_okD(3,4) [OF ok] assms(2) have "row_ok j" "audit_ok (q_db s) j" by auto
  then show ?thesis by (auto simp: audit_ok_def row_ok_def ev_count_def count_if_def events_def)
qed

theorem audit_log_exact_witness:
  "\<exists>j. transfer_jobs run_done = [j] \<and>
     length (filter (\<lambda>e. ev_job_id e = ID j \<and> ev_status e = Ev_success) (transfer_events run_done)) = 1"
proof -
  obtain j where j: "transfer_jobs run_done = [j]" "Status j = Succeeded"
    using run_done_rows by (auto simp: map_eq_Cons_conv)
  from audit_log_exact [OF run_reach_done, of j] j show ?thesis by simp
qed

text \<open>
  C3. Finished is final. From any reachable state, through any further steps, the row of a
  succeeded, skipped or dead job is exactly the same row until retention deletes it, and once it
  is gone its id never comes back. No late or duplicate worker changes an outcome.
\<close>

theorem finished_is_final:
  assumes "reach q_init (qstep r) s" and "(qstep r)\<^sup>*\<^sup>* s t"
    and "j \<in> set (transfer_jobs (q_db s))" and "Status j \<in> {Succeeded, Skipped, Dead}"
    and "k \<in> set (transfer_jobs (q_db t))" and "ID k = ID j"
  shows "k = j"
proof -
  have inv: "q_inv s" using queue_inv.reach_inv [OF assms(1)] .
  have okt: "db_ok (q_db t)"
    using queue_inv.reach_inv [OF reach_rtranclp [OF assms(1,2)]] by (simp add: q_inv_def)
  have "ID j < next_id (q_db s)" using inv assms(3) db_okD(5) by (auto simp: q_inv_def)
  moreover have "terminal (Status j)" using assms(4) by auto
  moreover have "ID j \<in> ids (q_db t)" using assms(5,6) by (metis ids_def image_eqI)
  ultimately have "j \<in> set (transfer_jobs (q_db t))"
    using run_later [OF inv assms(2)] assms(3) by (auto simp: db_later_def)
  then show ?thesis using distinct_map_eq [OF db_okD(1) [OF okt] assms(5)] assms(6) by blast
qed

theorem finished_is_final_witness:
  "\<exists>j. Status j = Succeeded \<and> transfer_jobs run_done = [j] \<and>
    (\<forall>k. k \<in> set (transfer_jobs (drainLease DB_Ok 9 ''w'' run_done)) \<and> ID k = ID j \<longrightarrow> k = j)"
proof -
  let ?s = "\<lparr>q_db = run_done, q_workers = Map.empty\<rparr>"
  obtain j where j: "transfer_jobs run_done = [j]" "Status j = Succeeded"
    using run_done_rows by (auto simp: map_eq_Cons_conv)
  have "qstep (ex_runner 3) ?s (?s\<lparr>q_db := drainLease DB_Ok 9 ''w'' (q_db ?s)\<rparr>)"
    by (rule qs_drain) simp
  from finished_is_final [OF run_reach_done r_into_rtranclp [where r = "qstep (ex_runner 3)", OF this], of j] j
  show ?thesis by auto
qed

text \<open>
  C14. No attempt is lost or counted twice. In every reachable state, if a worker is processing a
  job (or handling its panic) and still holds the lease, then the attempts and the budget in its
  snapshot are those of the row, although the row was read before the transfer and written after
  it without a lock in between.
\<close>

theorem snapshot_not_stale:
  assumes "reach q_init (qstep r) s"
    and "q_workers s lb = Some ph" and "j \<in> set (transfer_jobs (q_db s))"
    and "ID j = ID (phase_job ph)" and "Status j = Leased" and "LockedBy j = Some lb"
  shows "Attempts j = Attempts (phase_job ph) \<and> MaxAttempts j = MaxAttempts (phase_job ph)"
  using q_invD [OF queue_inv.reach_inv [OF assms(1)] assms(2)] assms(3-6)
  by (auto simp: snapshot_current_def holds_lease_def)

theorem snapshot_not_stale_witness:
  "Attempts (hd (transfer_jobs run_leased)) = Attempts (lease_row 8 ''w'' run_row) \<and>
   MaxAttempts (hd (transfer_jobs run_leased)) = MaxAttempts (lease_row 8 ''w'' run_row)"
proof -
  let ?ph = "Running (lease_row 8 ''w'' run_row)" and ?j = "hd (transfer_jobs run_leased)"
  have "Attempts ?j = Attempts (phase_job ?ph) \<and> MaxAttempts ?j = MaxAttempts (phase_job ?ph)"
    by (rule snapshot_not_stale [OF run_reach_leased, of "''w''"])
       (simp_all add: run_rows(3) lease_row_def)
  then show ?thesis by simp
qed

end
