(* ===== verification/Queue_Refinement.thy ===== *)
theory Queue_Refinement
  imports Queue_Machine
begin

text \<open>
  The life of one job, as an abstract machine that knows nothing of tables, statements, workers or faults,
  and the proof that the queue implements it: whatever call any process makes, each id of the table makes at most one
  step of its life cycle.
\<close>

section \<open>The life of a job\<close>

text \<open>
  An id is not handed out yet, queued, held by a worker, finished, or gone (deleted by retention, or a sequence value
  that no row got). Attempts and budget travel along.
\<close>

datatype life =
    Unborn
  | Queued int int
  | Held string int int
  | Final job_status int int
  | Gone

inductive life_step :: "life \<Rightarrow> life \<Rightarrow> bool" where
  life_enqueue: "1 \<le> m \<Longrightarrow> life_step Unborn (Queued 0 m)"
| life_burn: "life_step Unborn Gone"
| life_lease: "life_step (Queued a m) (Held w a m)"
| life_release: "life_step (Held w a m) (Queued a m)"
| life_retry: "a + 1 < m \<Longrightarrow> life_step (Held w a m) (Queued (a + 1) m)"
| life_succeed: "life_step (Held w a m) (Final Succeeded a m)"
| life_skip: "life_step (Held w a m) (Final Skipped a m)"
| life_die: "a < m \<Longrightarrow> life_step (Held w a m) (Final Dead (a + 1) m)"
| life_retire: "life_step (Final st a m) Gone"

inductive_cases life_step_FinalE: "life_step (Final st a m) x"
inductive_cases life_step_GoneE: "life_step Gone x"

fun row_life :: "Job \<Rightarrow> life" where
  "row_life j =
     (case Status j of
        Pending \<Rightarrow> Queued (Attempts j) (MaxAttempts j)
      | Leased \<Rightarrow> Held (the (LockedBy j)) (Attempts j) (MaxAttempts j)
      | st \<Rightarrow> Final st (Attempts j) (MaxAttempts j))"

definition row_of :: "db \<Rightarrow> int \<Rightarrow> Job option" where
  "row_of D i = find (\<lambda>j. ID j = i) (transfer_jobs D)"

definition life_of :: "db \<Rightarrow> int \<Rightarrow> life" where
  "life_of D i =
     (case row_of D i of Some j \<Rightarrow> row_life j | None \<Rightarrow> if i < next_id D then Gone else Unborn)"

declare row_life.simps [simp del]

text \<open>At most one step.\<close>

abbreviation lives :: "db \<Rightarrow> db \<Rightarrow> bool" where
  "lives D D' \<equiv> \<forall>i. life_step\<^sup>=\<^sup>= (life_of D i) (life_of D' i)"

section \<open>Looking up a row after a statement\<close>

lemma find_upd_where:
  "(\<And>j. ID (f j) = ID j) \<Longrightarrow>
   find (\<lambda>j. ID j = i) (upd_where p f js) = map_option (\<lambda>j. if p j then f j else j) (find (\<lambda>j. ID j = i) js)"
  by (induction js) auto

lemma find_append: "find p (xs @ ys) = (case find p xs of None \<Rightarrow> find p ys | Some x \<Rightarrow> Some x)"
  by (induction xs) auto

lemma find_filter_id:
  "find (\<lambda>j. ID j = i) (filter (\<lambda>j. q (ID j)) js) = (if q i then find (\<lambda>j. ID j = i) js else None)"
  by (induction js) auto

lemma row_of_Some: "row_of D i = Some j \<Longrightarrow> j \<in> set (transfer_jobs D) \<and> ID j = i"
  by (auto simp: row_of_def find_Some_iff in_set_conv_nth)

lemma row_of_fresh: "db_ok D \<Longrightarrow> next_id D \<le> i \<Longrightarrow> row_of D i = None"
  using db_okD(5) by (fastforce simp: row_of_def find_None_iff)

text \<open>Rows changed in place: every changed row makes a step.\<close>

lemma lives_upd_where:
  assumes "\<And>j. ID (f j) = ID j"
    and "\<And>j. j \<in> set (transfer_jobs D) \<Longrightarrow> p j \<Longrightarrow> life_step (row_life j) (row_life (f j))"
    and "transfer_jobs D' = upd_where p f (transfer_jobs D)" and "next_id D' = next_id D"
  shows "lives D D'"
proof
  fix i
  have "row_of D' i = map_option (\<lambda>j. if p j then f j else j) (row_of D i)"
    unfolding row_of_def assms(3) by (rule find_upd_where) (rule assms(1))
  then show "life_step\<^sup>=\<^sup>= (life_of D i) (life_of D' i)"
    using assms(2,4) by (cases "row_of D i") (auto simp: life_of_def dest: row_of_Some)
qed

lemma lives_same_rows:
  assumes "transfer_jobs D' = transfer_jobs D" and "next_id D \<le> next_id D'"
  shows "lives D D'"
  using assms life_burn by (auto simp: life_of_def row_of_def split: option.splits)

text \<open>An insert gives the next sequence value to one new row, or to none; other ids keep their state.\<close>

lemma insert_job_life:
  assumes "db_ok D" and "insert_job now t s d sp dp pl mx D = (r, D')"
  shows "life_of D' i = (if i = next_id D then (case r of None \<Rightarrow> Gone | Some _ \<Rightarrow> Queued 0 mx) else life_of D i)"
proof (cases r)
  case None
  with assms(2) row_of_fresh [OF assms(1), of i] show ?thesis
    by (auto simp: insert_job_None life_of_def row_of_def split: option.splits)
next
  case (Some k)
  with assms(2) row_of_fresh [OF assms(1), of i] show ?thesis
    by (auto simp: insert_job_Some life_of_def row_of_def find_append new_row_def row_life.simps split: option.splits)
qed

lemma life_of_fresh: "db_ok D \<Longrightarrow> next_id D \<le> i \<Longrightarrow> life_of D i = Unborn"
  by (simp add: life_of_def row_of_fresh)

lemma lives_insert_job:
  assumes "db_ok D" and "insert_job now t s d sp dp pl mx D = (r, D')" and "1 \<le> mx"
  shows "lives D D'"
  using life_of_fresh [OF assms(1)] assms(3)
  by (auto simp: insert_job_life [OF assms(1,2)] intro: life_enqueue life_burn split: option.splits)

section \<open>The calls of the queue\<close>

lemma life_of_insert_event [simp]: "life_of (insert_event now t k st det D) i = life_of D i"
  by (simp add: life_of_def row_of_def insert_event_def)

lemma lives_Enqueue:
  assumes "db_ok D" and "Enqueue x a D = (res, D')"
  shows "lives D D'"
proof -
  obtain r D1 where ins: "insert_job (tx_now x) (a_TraceID a) (a_Src a) (a_Dst a) (a_SrcProtocol a) (a_DstProtocol a)
      (enqueue_payload a) (enqueue_max_attempts a) D = (r, D1)" by fastforce
  have one: "1 \<le> enqueue_max_attempts a" by (simp add: enqueue_max_attempts_def)
  have "next_id D1 = next_id D + 1" using ins by (auto simp: insert_job_def Let_def split: if_splits)
  then have rb: "lives D (rollback D D1)" by (intro lives_same_rows) (simp_all add: rollback_def)
  note L = lives_insert_job [OF assms(1) ins one]
  consider "D' = D" | "D' = rollback D D1" | "\<forall>i. life_of D' i = life_of D1 i"
    using assms(2) ins
    by (cases "tx_commit x") (auto simp: Enqueue_def split: option.splits if_splits)
  then show ?thesis by cases (use L rb in auto)
qed

lemma insert_specs_life:
  "db_ok D \<Longrightarrow> lives D (snd (insert_specs now js D)) \<and> next_id D \<le> next_id (snd (insert_specs now js D)) \<and>
   (\<forall>i < next_id D. life_of (snd (insert_specs now js D)) i = life_of D i)"
proof (induction js arbitrary: D)
  case (Cons j js)
  define D1 where "D1 = snd (insert_spec now j D)"
  obtain r E where E: "insert_job now (js_TraceID j) (js_Src j) (js_Dst j) (js_SrcProtocol j) (js_DstProtocol j) ''{}'' 5 D = (r, E)"
    by fastforce
  then have "E = D1" by (auto simp: D1_def insert_spec_def split: option.splits)
  note ins = E [unfolded this]
  have n: "next_id D1 = next_id D + 1" using ins by (auto simp: insert_job_def Let_def split: if_splits)
  have ok: "db_ok D1" using db_ok_insert_job [OF Cons.prems, of 5] ins by (metis one_le_numeral snd_conv)
  note IH = Cons.IH [OF ok]
  have snd: "snd (insert_specs now (j # js) D) = snd (insert_specs now js D1)"
    by (simp add: D1_def case_prod_unfold)
  have life: "life_of D1 i = life_of D i" if "i \<noteq> next_id D" for i
    using insert_job_life [OF Cons.prems ins, of i] that by simp
  have "life_step\<^sup>=\<^sup>= (life_of D i) (life_of (snd (insert_specs now js D1)) i)" for i
  proof (cases "i = next_id D")
    case True
    then have "life_of (snd (insert_specs now js D1)) i = life_of D1 i" using IH n by simp
    then show ?thesis using lives_insert_job [OF Cons.prems ins] by simp
  next
    case False
    then show ?thesis using IH life [OF False] by metis
  qed
  then show ?case unfolding snd using IH n life by auto
qed simp

lemma lives_EnqueueBatch:
  assumes "db_ok D" and "EnqueueBatch out now specs D = (res, D')"
  shows "lives D D'"
proof -
  have "D' = snd (EnqueueBatch out now specs D)" using assms(2) by simp
  then show ?thesis
    using insert_specs_life [OF assms(1), of now specs] by (cases rule: EnqueueBatch_db [of out now specs D]) auto
qed

lemma lives_lease_stmt:
  assumes "db_ok D"
  shows "lives D (snd (lease_stmt now skip w D))"
proof (cases "lease_stmt now skip w D")
  case (Pair r D')
  show ?thesis
  proof (cases r)
    case None
    with Pair show ?thesis using lease_stmt_None [of now skip w D D'] by simp
  next
    case (Some job)
    with Pair have "lease_stmt now skip w D = (Some job, D')" by simp
    then have "lives D D'"
    proof (rule lease_stmt_Some)
      fix n assume n: "n \<in> set (transfer_jobs D)" "Status n = Pending"
        and D': "D' = D\<lparr>transfer_jobs := upd_where (\<lambda>j. ID j = ID n) (lease_row now w) (transfer_jobs D)\<rparr>"
      show "lives D D'"
      proof (rule lives_upd_where [where p = "\<lambda>j. ID j = ID n" and f = "lease_row now w"])
        fix j assume "j \<in> set (transfer_jobs D)" "ID j = ID n"
        then have "j = n" using distinct_map_eq [OF db_okD(1) [OF assms]] n(1) by blast
        then show "life_step (row_life j) (row_life (lease_row now w j))"
          using n(2) by (simp add: row_life.simps lease_row_def life_lease)
      qed (simp_all add: D' lease_row_def)
    qed
    with Pair show ?thesis by simp
  qed
qed

lemma lives_LeaseJob:
  assumes "db_ok D" and "LeaseJob out now skip w D = (res, D')"
  shows "lives D D'"
proof -
  have "D' = snd (pg_exec out (lease_stmt now skip w) D)" using assms(2) LeaseJob_db by (metis snd_conv)
  then show ?thesis
    using lives_lease_stmt [OF assms(1), of now skip w]
    by (cases rule: pg_exec_cases [of out "lease_stmt now skip w" D]) auto
qed

text \<open>An outcome write moves the one row the worker holds; without the lease it moves nothing.\<close>

lemma guarded_write_lives:
  assumes "\<And>j. ID (f j) = ID j"
    and "\<And>j. j \<in> set (transfer_jobs D) \<Longrightarrow> holds_lease i w j \<Longrightarrow> life_step (row_life j) (row_life (f j))"
  shows "lives D (snd (guarded_write now i w f st det D))"
  by (rule lives_upd_where [where p = "holds_lease i w" and f = f])
     (auto simp: assms guarded_write_def Let_def)

lemma outcome_row_life:
  "row_life (success_row now a j) = Final Succeeded (Attempts j) (MaxAttempts j)"
  "row_life (terminal_row Skipped now a j) = Final Skipped a (MaxAttempts j)"
  "row_life (terminal_row Dead now a j) = Final Dead a (MaxAttempts j)"
  "row_life (retry_row ms now a j) = Queued a (MaxAttempts j)"
  "row_life (release_row now j) = Queued (Attempts j) (MaxAttempts j)"
  by (simp_all add: row_life.simps success_row_def terminal_row_def retry_row_def release_row_def)

lemma outcome_row_ID:
  "ID (success_row now a j) = ID j" "ID (terminal_row st now a j) = ID j" "ID (retry_row ms now a j) = ID j"
  "ID (release_row now j) = ID j"
  by (simp_all add: success_row_def terminal_row_def retry_row_def release_row_def)

lemma outcome_write_lives:
  assumes "outcome_write lb job D D'" and "db_ok D" and "snapshot_current lb job D"
  shows "lives D D'"
proof -
  have a: "row_life j = Held lb (Attempts job) (MaxAttempts job)" "MaxAttempts j = MaxAttempts job"
    "Attempts j = Attempts job" "Attempts job < MaxAttempts job"
    if "j \<in> set (transfer_jobs D)" "holds_lease (ID job) lb j" for j
    using assms(3) that db_okD(3) [OF assms(2) that(1)]
    by (auto simp: snapshot_current_def holds_lease_def row_life.simps row_ok_def)
  note writes = guarded_write_lives [OF outcome_row_ID(1)] guarded_write_lives [OF outcome_row_ID(2)]
    guarded_write_lives [OF outcome_row_ID(3)]
  show ?thesis
    using assms(1)
  proof (cases rule: outcome_write.cases)
    case ow_none
    then show ?thesis by simp
  next
    case (ow_success now det)
    show ?thesis unfolding ow_success
      by (rule writes(1)) (simp add: outcome_row_life a life_succeed)
  next
    case (ow_skip now det)
    show ?thesis unfolding ow_skip
      by (rule writes(2)) (simp add: outcome_row_life a life_skip)
  next
    case (ow_dead now det)
    show ?thesis unfolding ow_dead
      by (rule writes(2)) (simp add: outcome_row_life a life_die)
  next
    case (ow_fail now ms det)
    show ?thesis unfolding ow_fail(1)
      by (rule writes(3)) (simp add: outcome_row_life a life_retry ow_fail(2))
  qed
qed

lemma lives_processOne:
  assumes "processOne v vp r lb job w D = (acts, w', D')" and "db_ok D" and "snapshot_current lb job D"
  shows "lives D D'"
proof -
  obtain D1 where w: "outcome_write lb job D D1" "outcome_write lb job D1 D'"
    using processOne_outcome [OF assms(1)] by blast
  show ?thesis
  proof (cases "D1 = D")
    case True
    with w(2) assms(2,3) show ?thesis by (intro outcome_write_lives) simp_all
  next
    case False
    have "D' = D1" using outcome_write_lost [OF w(2)] outcome_write_not_held [OF w(1) False] by blast
    with w(1) assms(2,3) show ?thesis by (intro outcome_write_lives) simp_all
  qed
qed

lemma lives_release:
  assumes "\<And>j. p j \<Longrightarrow> Status j = Leased"
    and "transfer_jobs D' = upd_where p (release_row now) (transfer_jobs D)" and "next_id D' = next_id D"
  shows "lives D D'"
  by (rule lives_upd_where [OF outcome_row_ID(4) _ assms(2,3)])
     (simp add: row_life.simps assms(1) release_row_def life_release)

lemma lives_drainLease: "lives D (drainLease out now lb D)"
proof -
  let ?E = "D\<lparr>transfer_jobs := upd_where (leased_by lb) (release_row now) (transfer_jobs D)\<rparr>"
  have "lives D ?E" by (rule lives_release [where p = "leased_by lb" and now = now]) (simp_all add: leased_by_def)
  then show ?thesis by (cases out) (simp_all add: drainLease_def)
qed

lemma lives_Sweep:
  assumes "Sweep y threshold D = (res, D')"
  shows "lives D D'"
  using assms
proof (cases rule: Sweep_cases)
  case ran
  show ?thesis unfolding ran
    by (rule lives_release [where p = "lease_expired (sw_now y) (int_seconds (sweep_threshold threshold))"
          and now = "sw_now y"]) (simp_all add: swept_def lease_expired_def)
qed simp

lemma lives_retired:
  assumes "db_ok D"
  shows "lives D (retired now secs D)"
proof
  fix i
  let ?gone = "ID ` set (filter (retirable now secs) (transfer_jobs D))"
  have row: "row_of (retired now secs D) i = (if i \<in> ?gone then None else row_of D i)"
    using find_filter_id [where q = "\<lambda>i. i \<notin> ?gone" and i = i and js = "transfer_jobs D"]
    by (simp add: row_of_def retired_def delete_jobs_def)
  show "life_step\<^sup>=\<^sup>= (life_of D i) (life_of (retired now secs D) i)"
  proof (cases "i \<in> ?gone")
    case False
    with row show ?thesis by (simp add: life_of_def retired_def)
  next
    case True
    then obtain j where j: "j \<in> set (transfer_jobs D)" "retirable now secs j" "ID j = i" by auto
    have "row_of D i \<noteq> None" using j by (auto simp: row_of_def find_None_iff)
    then obtain k where k: "row_of D i = Some k" by auto
    then have "k = j" using row_of_Some [OF k] j distinct_map_eq [OF db_okD(1) [OF assms]] by metis
    then have "\<exists>st a m. life_of D i = Final st a m"
      using k j(2) by (auto simp: life_of_def row_life.simps retirable_def)
    moreover have "life_of (retired now secs D) i = Gone"
      using True row db_okD(5) [OF assms j(1)] j(3) by (simp add: life_of_def retired_def)
    ultimately show ?thesis using life_retire by auto
  qed
qed

lemma lives_retention:
  assumes "db_ok D" and "scans z" and "retention_Sweep z cfg D = (res, D')"
  shows "lives D D'"
proof -
  let ?secs = "int_seconds (rc_Window cfg)"
  have "lives D E" if "delete_batches z ?secs (retention_batch cfg) 0 0 D = Inr (n, E)" for n E
  proof -
    have "0 < retention_batch cfg" by (simp add: retention_batch_def)
    then have "E = retired (rt_now z) ?secs D"
      using delete_batches_result [OF assms(2) _ db_okD(1) [OF assms(1)] that] by blast
    then show ?thesis using lives_retired [OF assms(1)] by simp
  qed
  moreover have "lives D (rollback D E)" if "delete_batches z ?secs (retention_batch cfg) 0 0 D = Inr (n, E)" for n E
    using delete_batches_jobs [OF that] by (intro lives_same_rows) (simp_all add: rollback_def)
  ultimately show ?thesis
    using assms(3) by (cases "rt_commit z") (auto simp: retention_Sweep_def split: if_splits option.splits sum.splits)
qed

lemma lives_qstep: "qstep r s t \<Longrightarrow> q_inv s \<Longrightarrow> lives (q_db s) (q_db t)"
proof (induction rule: qstep.induct)
  case (qs_process s lb job v vp w acts w' D')
  then have "db_ok (q_db s)" "snapshot_current lb job (q_db s)" by (auto dest!: q_invD)
  from lives_processOne [OF qs_process(2) this] show ?case by simp
next
  case (qs_panic s lb job src tr v w p acts w' D')
  then have ok: "db_ok (q_db s)" "snapshot_current lb job (q_db s)" by (auto dest!: q_invD)
  have "outcome_write lb job (q_db s) D'" using ProcessJob_outcome [OF qs_panic(4)] by simp
  from outcome_write_lives [OF this ok] show ?case by simp
next
  case (qs_recover s lb job p vp res acts D')
  then have ok: "db_ok (q_db s)" "snapshot_current lb job (q_db s)" by (auto dest!: q_invD)
  from outcome_write_lives [OF outcome_writeRetryOrDead [OF qs_recover(2)] ok] show ?case by simp
next
  case (qs_enqueue x a s res D')
  then show ?case using lives_Enqueue [OF _ qs_enqueue(1)] by (simp add: q_inv_def)
next
  case (qs_sniff out now specs s res D')
  then show ?case using lives_EnqueueBatch [OF _ qs_sniff(1)] by (simp add: q_inv_def)
next
  case (qs_lease s lb out now skip job D')
  then show ?case using lives_LeaseJob [OF _ qs_lease(2)] by (simp add: q_inv_def)
next
  case (qs_lease_none s lb out now skip res D')
  then show ?case using lives_LeaseJob [OF _ qs_lease_none(2)] by (simp add: q_inv_def)
next
  case (qs_drain s lb out now)
  then show ?case using lives_drainLease by simp
next
  case (qs_sweep y threshold s res D')
  then show ?case using lives_Sweep [OF qs_sweep(1)] by simp
next
  case (qs_retain z cfg s res D')
  then show ?case using lives_retention [OF _ qs_retain(1,2)] by (simp add: q_inv_def)
qed simp

section \<open>The refinement\<close>

text \<open>The state of every id is one the life cycle reaches, and the queue's invariant holds.\<close>

definition life_inv :: "qstate \<Rightarrow> bool" where
  "life_inv s \<longleftrightarrow> q_inv s \<and> (\<forall>i \<ge> 1. life_step\<^sup>*\<^sup>* Unborn (life_of (q_db s) i))"

lemma life_inv_step:
  assumes "qstep r s t" and "life_inv s"
  shows "life_inv t"
proof -
  have inv: "q_inv s" using assms(2) by (simp add: life_inv_def)
  have "life_step\<^sup>*\<^sup>* Unborn (life_of (q_db t) i)" if "1 \<le> i" for i
  proof -
    have "life_step\<^sup>*\<^sup>* Unborn (life_of (q_db s) i)" using assms(2) that by (simp add: life_inv_def)
    moreover have "life_step\<^sup>=\<^sup>= (life_of (q_db s) i) (life_of (q_db t) i)" using lives_qstep [OF assms(1) inv] by blast
    ultimately show ?thesis by (auto intro: rtranclp.rtrancl_into_rtrancl)
  qed
  with q_inv_step [OF assms(1) inv] show ?thesis by (simp add: life_inv_def)
qed

interpretation job_life: inductive_invariant q_init "qstep r" life_inv for r :: "('w, 'b) Runner"
proof
  show "life_inv s" if "q_init s" for s
    using that by (simp add: q_init_def life_inv_def q_inv_def life_of_def row_of_def empty_db_def
        db_ok_empty [unfolded empty_db_def])
qed (rule life_inv_step)

text \<open>
  C4. The queue refines the life cycle of a job. In every reachable state, each step of the whole system (any
  producer, sniffer, worker, panic, crash, drain, sweep or retention call, with any database fault) moves each id by
  at most one step of the abstract life cycle: unborn, queued, held by a worker, finished, gone, where only a holder's
  outcome charges an attempt, a retry needs budget left, and a finished job only ever disappears. And every id of a
  reachable table is in a state that the life cycle reaches from the unborn one.
\<close>
theorem queue_refines_life_cycle:
  assumes "reach q_init (qstep r) s" and "qstep r s t"
  shows "(life_of (q_db t) i = life_of (q_db s) i \<or> life_step (life_of (q_db s) i) (life_of (q_db t) i)) \<and>
    (1 \<le> i \<longrightarrow> life_step\<^sup>*\<^sup>* Unborn (life_of (q_db s) i))"
proof -
  have inv: "life_inv s" using job_life.reach_inv [OF assms(1)] .
  then have "life_step\<^sup>=\<^sup>= (life_of (q_db s) i) (life_of (q_db t) i)"
    using lives_qstep [OF assms(2)] by (auto simp: life_inv_def)
  with inv show ?thesis by (auto simp: life_inv_def)
qed

theorem queue_refines_life_cycle_witness:
  "life_of run_leased 1 = Held ''w'' 0 5 \<and> life_of (drainLease DB_Ok 9 ''w'' run_leased) 1 = Queued 0 5 \<and>
   life_step (life_of run_leased 1) (life_of (drainLease DB_Ok 9 ''w'' run_leased) 1)"
proof -
  let ?c = "\<lparr>q_db = run_leased, q_workers = [''w'' \<mapsto> Running (lease_row 8 ''w'' run_row)]\<rparr>"
  let ?s = "?c\<lparr>q_workers := (q_workers ?c)(''w'' := None)\<rparr>"
  have reach: "reach q_init (qstep (ex_runner 3)) ?s"
    by (rule reach_next [OF run_reach_leased]) (rule qs_crash, rule refl)
  have step: "qstep (ex_runner 3) ?s (?s\<lparr>q_db := drainLease DB_Ok 9 ''w'' (q_db ?s)\<rparr>)"
    by (rule qs_drain) simp
  have a: "life_of run_leased 1 = Held ''w'' 0 5"
    by (simp add: life_of_def row_of_def run_rows(3) lease_row_def run_row_def new_row_def row_life.simps)
  have b: "life_of (drainLease DB_Ok 9 ''w'' run_leased) 1 = Queued 0 5"
    by (simp add: life_of_def row_of_def drainLease_def leased_by_def release_row_def run_rows(3) lease_row_def run_row_def
        new_row_def row_life.simps)
  from queue_refines_life_cycle [OF reach step, of 1] a b show ?thesis by simp
qed

end
