(* ===== verification/Hostcap.thy ===== *)
theory Hostcap
  imports Go_Lib "HOL-Library.Word"
begin

text \<open>
  \<^verbatim>\<open>internal/hostcap/hostcap.go\<close>: a cluster-wide cap on concurrent transfers per host, made of
  session-scoped advisory locks. The lock table of the database maps the hash of a slot key to
  the session that holds it and how often. \<open>hashtext\<close> is the database's hash function and
  \<open>url_host\<close> the host that \<^verbatim>\<open>net/url\<close> finds in a destination; both are parameters.
\<close>

unbundle bit_operations_syntax

section \<open>Slots\<close>

definition slotKey :: "string \<Rightarrow> int \<Rightarrow> string" where
  "slotKey host slot = ''ftp_host_'' @ host @ ''_'' @ itoa slot"

text \<open>FNV-1a with 32 bits.\<close>

definition fnv1a :: "string \<Rightarrow> 32 word" where
  "fnv1a s = foldl (\<lambda>h c. (h XOR of_nat (of_char c)) * 16777619) 2166136261 s"

definition slotHash :: "string \<Rightarrow> string \<Rightarrow> int \<Rightarrow> 32 word" where
  "slotHash host dst cap = fnv1a (host @ [CHR 0x00] @ dst) mod of_int cap"

text \<open>The remainder panics when the cap is zero as a 32-bit word.\<close>

definition slotHash_panics :: "int \<Rightarrow> bool" where
  "slotHash_panics cap \<longleftrightarrow> (of_int cap :: 32 word) = 0"

definition maxBackoff :: duration where
  "maxBackoff = 2 * Second"

definition nextBackoff :: "duration \<Rightarrow> duration \<Rightarrow> duration" where
  "nextBackoff cur base =
     (let base = (if base \<le> 0 then 100 * Millisecond else base);
          cur = (if cur < base then base else cur);
          next = wrap64 (cur * 2)
      in if next > maxBackoff then maxBackoff else next)"

definition jittered :: "(rat \<Rightarrow> int) \<Rightarrow> duration \<Rightarrow> 32 word \<Rightarrow> duration" where
  "jittered oor d seed =
     (if d \<le> 0 then d
      else let frac = fl (of_int (uint (seed mod 1000)) / 1000);
               delta = fl (fl (fl (fl (frac * 2) - 1) * (1 / 4)) * fl (of_int d))
           in wrap64 (d + float_to_int64 oor delta))"

definition lcg_step :: "32 word \<Rightarrow> 32 word" where
  "lcg_step seed = seed * 1664525 + 1013904223"

section \<open>Advisory locks\<close>

type_synonym session = nat
type_synonym lock_table = "int \<rightharpoonup> session \<times> nat"

definition try_advisory_lock :: "session \<Rightarrow> int \<Rightarrow> lock_table \<Rightarrow> bool \<times> lock_table" where
  "try_advisory_lock s k L =
     (case L k of
        None \<Rightarrow> (True, L(k \<mapsto> (s, 1)))
      | Some (s', n) \<Rightarrow> if s' = s then (True, L(k \<mapsto> (s, n + 1))) else (False, L))"

definition advisory_unlock :: "session \<Rightarrow> int \<Rightarrow> lock_table \<Rightarrow> lock_table" where
  "advisory_unlock s k L =
     (case L k of
        None \<Rightarrow> L
      | Some (s', n) \<Rightarrow> if s' \<noteq> s then L else if n \<le> 1 then L(k := None) else L(k \<mapsto> (s, n - 1)))"

section \<open>Acquiring a slot\<close>

text \<open>One probe: what other sessions do before it, and its error if it has one.\<close>

record probe_env =
  pr_others :: "lock_table \<Rightarrow> lock_table"
  pr_err :: "go_error option"

text \<open>
  The inner loop from the i-th probe on, over the environments of the remaining probes; \<open>None\<close>
  when every slot was taken.
\<close>

fun probe_slots ::
  "(string \<Rightarrow> int) \<Rightarrow> session \<Rightarrow> string \<Rightarrow> int \<Rightarrow> int \<Rightarrow> int \<Rightarrow> probe_env list \<Rightarrow> lock_table \<Rightarrow>
   (go_error + int) option \<times> lock_table"
where
  "probe_slots hashtext s host cap start i [] L = (None, L)"
| "probe_slots hashtext s host cap start i (e # es) L =
     (let slot = (start + i) mod cap; L0 = pr_others e L in
      case pr_err e of
        Some err \<Rightarrow> (Some (Inl (wrap_err ''hostcap: try lock: '' err)), L0)
      | None \<Rightarrow>
          (case try_advisory_lock s (hashtext (slotKey host slot)) L0 of
             (True, L1) \<Rightarrow> (Some (Inr slot), L1)
           | (False, L1) \<Rightarrow> probe_slots hashtext s host cap start (i + 1) es L1))"

text \<open>A round: the environments of its probes (by index) and the context's error, if it is done, after it.\<close>

record round_env =
  ro_probe :: "nat \<Rightarrow> probe_env"
  ro_done :: "go_error option"

text \<open>
  The outer loop over the given rounds; the first component is \<open>None\<close> while it still waits, and
  the second lists the waits.
\<close>

fun acquire_rounds ::
  "(string \<Rightarrow> int) \<Rightarrow> (rat \<Rightarrow> int) \<Rightarrow> session \<Rightarrow> string \<Rightarrow> int \<Rightarrow> duration \<Rightarrow> int \<Rightarrow> duration \<Rightarrow> 32 word \<Rightarrow>
   round_env list \<Rightarrow> lock_table \<Rightarrow> (go_error + int) option \<times> duration list \<times> lock_table"
where
  "acquire_rounds hashtext oor s host cap backoff start wait seed [] L = (None, [], L)"
| "acquire_rounds hashtext oor s host cap backoff start wait seed (r # rs) L =
     (case probe_slots hashtext s host cap start 0 (map (ro_probe r) [0 ..< nat cap]) L of
        (Some res, L1) \<Rightarrow> (Some res, [], L1)
      | (None, L1) \<Rightarrow>
          (case ro_done r of
             Some e \<Rightarrow> (Some (Inl e), [], L1)
           | None \<Rightarrow>
               (case acquire_rounds hashtext oor s host cap backoff start (nextBackoff wait backoff)
                       (lcg_step seed) rs L1 of
                  (res, waits, L2) \<Rightarrow> (res, jittered oor wait seed # waits, L2))))"

definition acquireSlot ::
  "(string \<Rightarrow> int) \<Rightarrow> (rat \<Rightarrow> int) \<Rightarrow> session \<Rightarrow> string \<Rightarrow> string \<Rightarrow> int \<Rightarrow> duration \<Rightarrow>
   round_env list \<Rightarrow> lock_table \<Rightarrow> (go_error + int) option \<times> duration list \<times> lock_table"
where
  "acquireSlot hashtext oor s host dst cap backoff rs L =
     acquire_rounds hashtext oor s host cap backoff (uint (slotHash host dst cap)) backoff
       (slotHash host (dst @ ''#jitter'') (wrap64 (cap * 7 + 13))) rs L"

section \<open>The transport\<close>

record hostcap_config =
  hc_Cap :: int
  hc_Host :: string
  hc_AcquireBackoff :: duration

definition Wrap_config :: "hostcap_config \<Rightarrow> hostcap_config" where
  "Wrap_config cfg =
     cfg\<lparr>hc_Cap := (if hc_Cap cfg \<le> 0 then 8 else hc_Cap cfg),
         hc_AcquireBackoff := (if hc_AcquireBackoff cfg \<le> 0 then 100 * Millisecond
                               else hc_AcquireBackoff cfg)\<rparr>"

definition cap_host :: "(string \<Rightarrow> go_error + string) \<Rightarrow> hostcap_config \<Rightarrow> string \<Rightarrow> string" where
  "cap_host url_host cfg dst =
     (if hc_Host cfg \<noteq> [] then hc_Host cfg else case url_host dst of Inl _ \<Rightarrow> [] | Inr h \<Rightarrow> h)"

text \<open>
  \<^verbatim>\<open>Send\<close>: \<open>conn\<close> is the pinned session or the error of acquiring it; \<open>inner\<close> is the wrapped
  transport's call; \<open>others\<close> is what happens to the lock table while it runs, and \<open>unlocked\<close>
  says whether the deferred unlock reaches the database. \<open>None\<close> while it waits for a slot.
\<close>

definition hostcap_Send ::
  "(string \<Rightarrow> int) \<Rightarrow> (rat \<Rightarrow> int) \<Rightarrow> (string \<Rightarrow> go_error + string) \<Rightarrow> hostcap_config \<Rightarrow>
   (go_error + session) \<Rightarrow> round_env list \<Rightarrow> (lock_table \<Rightarrow> lock_table) \<Rightarrow> bool \<Rightarrow>
   ('w \<Rightarrow> (go_error + 'r) go \<times> 'w) \<Rightarrow> string \<Rightarrow> 'w \<Rightarrow> lock_table \<Rightarrow>
   ((go_error + 'r) go \<times> 'w) option \<times> lock_table"
where
  "hostcap_Send hashtext oor url_host cfg conn rs others unlocked inner dst w L =
     (let host = cap_host url_host cfg dst
      in if host = [] then
           (Some (Ret (Inl (PlainErr ''hostcap: cannot derive host from dst'')), w), L)
         else case conn of
           Inl e \<Rightarrow> (Some (Ret (Inl (wrap_err ''hostcap: acquire dedicated conn: '' e)), w), L)
         | Inr s \<Rightarrow>
             if slotHash_panics (hc_Cap cfg) \<or> slotHash_panics (wrap64 (hc_Cap cfg * 7 + 13)) then
               (Some (Panic ''runtime error: integer divide by zero'', w), L)
             else
             (case acquireSlot hashtext oor s host dst (hc_Cap cfg) (hc_AcquireBackoff cfg) rs L of
                (None, _, L1) \<Rightarrow> (None, L1)
              | (Some (Inl e), _, L1) \<Rightarrow> (Some (Ret (Inl e), w), L1)
              | (Some (Inr slot), _, L1) \<Rightarrow>
                  let L2 = others L1 in
                  (Some (inner w),
                   if unlocked then advisory_unlock s (hashtext (slotKey host slot)) L2 else L2)))"

section \<open>Probing\<close>

definition free_for :: "session \<Rightarrow> int \<Rightarrow> lock_table \<Rightarrow> bool" where
  "free_for s k L \<longleftrightarrow> (case L k of None \<Rightarrow> True | Some (s', _) \<Rightarrow> s' = s)"

definition held_by :: "session \<Rightarrow> int \<Rightarrow> lock_table \<Rightarrow> bool" where
  "held_by s k L \<longleftrightarrow> (case L k of None \<Rightarrow> False | Some (s', _) \<Rightarrow> s' = s)"

lemma try_lock_cases:
  obtains (got) n where "free_for s k L" "try_advisory_lock s k L = (True, L(k \<mapsto> (s, n)))" "1 \<le> n"
  | (busy) "\<not> free_for s k L" "try_advisory_lock s k L = (False, L)"
proof (cases "free_for s k L")
  case True
  then have "\<exists>n \<ge> 1. try_advisory_lock s k L = (True, L(k \<mapsto> (s, n)))"
    by (cases "L k") (auto simp: free_for_def try_advisory_lock_def split: option.splits intro!: exI [of _ "n + 1" for n])
  with True got show thesis by blast
next
  case False
  with busy show thesis
    by (auto simp: free_for_def try_advisory_lock_def split: option.splits prod.splits)
qed

text \<open>The probes of a round visit every slot.\<close>

lemma probes_cover:
  assumes "0 \<le> slot" and "slot < (cap :: int)"
  obtains i where "i < nat cap" "(start + int i) mod cap = slot"
proof
  let ?i = "nat ((slot - start) mod cap)"
  have "0 < cap" using assms by simp
  then show "?i < nat cap" by simp
  show "(start + int ?i) mod cap = slot"
    using \<open>0 < cap\<close> assms by (simp add: mod_simps)
qed

definition calm :: "probe_env \<Rightarrow> bool" where
  "calm e \<longleftrightarrow> pr_err e = None \<and> (\<forall>L. pr_others e L = L)"

lemma probe_slots_finds:
  assumes "\<forall>e \<in> set es. calm e" and "0 < cap"
    and "\<exists>k < length es. free_for s (hashtext (slotKey host ((start + i + int k) mod cap))) L"
  shows "\<exists>slot n. probe_slots hashtext s host cap start i es L =
      (Some (Inr slot), L(hashtext (slotKey host slot) \<mapsto> (s, n))) \<and> 0 \<le> slot \<and> slot < cap"
  using assms
proof (induction es arbitrary: i)
  case (Cons e es)
  let ?k = "hashtext (slotKey host ((start + i) mod cap))"
  show ?case
  proof (cases rule: try_lock_cases [of s ?k L])
    case (got n)
    then show ?thesis
      using Cons.prems(1,2)
      by (intro exI [of _ "(start + i) mod cap"] exI [of _ n]) (simp add: calm_def Let_def fun_upd_def)
  next
    case busy
    from Cons.prems(3) obtain k where k: "k < length (e # es)"
      "free_for s (hashtext (slotKey host ((start + i + int k) mod cap))) L" by blast
    with busy have "k \<noteq> 0" by (cases k) auto
    then have "\<exists>k < length es. free_for s (hashtext (slotKey host ((start + (i + 1) + int k) mod cap))) L"
      using k by (intro exI [of _ "k - 1"]) (auto simp: of_nat_diff algebra_simps)
    from Cons.IH [OF _ Cons.prems(2) this] Cons.prems(1) busy show ?thesis
      by (auto simp: calm_def Let_def)
  qed
qed simp

section \<open>Waiting\<close>

lemma jittered_quarter:
  assumes "0 < d" and "d \<le> 2 ^ 53"
  shows "3 * d \<le> 4 * jittered oor d seed \<and> 4 * jittered oor d seed \<le> 5 * d"
proof -
  define f where "f = fl (of_int (uint (seed mod 1000)) / 1000 :: rat)"
  define g where "g = fl (fl (fl (f * 2) - 1) * (1 / 4))"
  define x where "x = fl (g * fl (of_int d))"
  have 1: "representable 1" using representable_of_int [of 1] by simp
  have m: "0 \<le> uint (seed mod 1000)" "uint (seed mod 1000) < 1000"
    by (simp_all add: uint_mod_distrib)
  then have "0 \<le> (of_int (uint (seed mod 1000)) / 1000 :: rat)"
    and "(of_int (uint (seed mod 1000)) / 1000 :: rat) \<le> 1" by linarith+
  then have f: "0 \<le> f" "f \<le> 1"
    unfolding f_def by (auto intro: fl_nonneg fl_le [OF _ 1])
  have r: "representable (of_int d / 2 ^ k)" for k
    using representable_dyadic [of d 0 k] assms by simp
  have 2: "representable 2" using representable_of_int [of 2] by simp
  have "0 \<le> fl (f * 2)" "fl (f * 2) \<le> 2" using f 2 by (intro fl_nonneg fl_le; simp)+
  then have "\<bar>fl (f * 2) - 1\<bar> \<le> 1" by (simp add: abs_le_iff)
  from fl_abs_le [OF this 1] have "\<bar>fl (fl (f * 2) - 1) * (1 / 4)\<bar> \<le> 1 / 4" by (simp add: abs_mult)
  from fl_abs_le [OF this half_representable(3)] have g: "\<bar>g\<bar> \<le> 1 / 4" by (simp add: g_def)
  have d: "fl (of_int d) = (of_int d :: rat)" using r [of 0] by (simp add: fl_representable)
  have "\<bar>g * of_int d\<bar> \<le> 1 / 4 * of_int d"
    unfolding abs_mult using g assms(1) by (intro mult_mono) auto
  then have x: "\<bar>x\<bar> \<le> of_int d / 4"
    unfolding x_def d using r [of 2] by (intro fl_abs_le) simp_all
  then have "float_to_int64 oor x = trunc x"
    using assms by (intro float_to_int64_small [of x d]) simp_all
  then have j: "jittered oor d seed = wrap64 (d + trunc x)"
    unfolding jittered_def Let_def f_def [symmetric] g_def [symmetric] x_def [symmetric]
    using assms(1) by simp
  have "\<bar>of_int (4 * trunc x)\<bar> \<le> (of_int d :: rat)" using trunc_abs [of x] x by simp
  then have "\<bar>4 * trunc x\<bar> \<le> d" by (metis of_int_abs of_int_le_iff)
  moreover from this have "wrap64 (d + trunc x) = d + trunc x"
    using assms by (intro wrap64_id) auto
  ultimately show ?thesis using j by linarith
qed

lemma nextBackoff_range:
  assumes "0 < base" and "cur \<le> 2 ^ 53" and "base \<le> 2 ^ 53"
  shows "min base maxBackoff \<le> nextBackoff cur base" and "nextBackoff cur base \<le> maxBackoff"
  using assms by (auto simp: nextBackoff_def maxBackoff_def Let_def)

lemma waits_range:
  assumes "0 < backoff" and "backoff \<le> 2 ^ 53"
    and "min backoff maxBackoff \<le> wait" and "wait \<le> max backoff maxBackoff"
    and "acquire_rounds hashtext oor s host cap backoff start wait seed rs L = (res, waits, L')"
    and "d \<in> set waits"
  shows "3 * min backoff maxBackoff \<le> 4 * d \<and> 4 * d \<le> 5 * max backoff maxBackoff"
  using assms(3-)
proof (induction rs arbitrary: wait seed L waits res)
  case (Cons r rs)
  have b: "0 < wait" "wait \<le> 2 ^ 53"
    using Cons.prems(1,2) assms(1,2) by (auto simp: maxBackoff_def)
  from Cons.prems(3,4) obtain L1 res' waits' where
    rec: "acquire_rounds hashtext oor s host cap backoff start (nextBackoff wait backoff) (lcg_step seed) rs L1 =
      (res', waits', L')" and d: "d = jittered oor wait seed \<or> d \<in> set waits'"
    by (auto split: prod.splits option.splits)
  have "min backoff maxBackoff \<le> nextBackoff wait backoff"
    "nextBackoff wait backoff \<le> max backoff maxBackoff"
    using nextBackoff_range [OF assms(1) b(2) assms(2)] by auto
  note ih = Cons.IH [OF this rec]
  show ?case
  proof (cases "d \<in> set waits'")
    case False
    with d have "d = jittered oor wait seed" by simp
    with jittered_quarter [OF b, of oor seed] Cons.prems(1,2) show ?thesis by linarith
  qed (rule ih)
qed simp

section \<open>The cap across the cluster\<close>

text \<open>
  All sessions of the cluster on one lock table. A session is sending to a host from the
  successful probe of \<^verbatim>\<open>acquireSlot\<close> to the deferred unlock; \<open>cp_leak\<close> is an unlock that fails
  (its error is dropped), and \<open>cp_foreign\<close> are other users of advisory locks.
\<close>

record cap_sys =
  cs_locks :: lock_table
  cs_sending :: "session \<rightharpoonup> string \<times> int"

inductive cap_step :: "(string \<Rightarrow> int) \<Rightarrow> int \<Rightarrow> cap_sys \<Rightarrow> cap_sys \<Rightarrow> bool"
  for hashtext :: "string \<Rightarrow> int" and cap :: int where
  cp_acquire: "cs_sending c s = None \<Longrightarrow>
    probe_slots hashtext s host cap start i [e] (cs_locks c) = (Some (Inr slot), L') \<Longrightarrow>
    pr_others e = (\<lambda>L. L) \<Longrightarrow>
    cap_step hashtext cap c (c\<lparr>cs_locks := L', cs_sending := (cs_sending c)(s \<mapsto> (host, slot))\<rparr>)"
| cp_release: "cs_sending c s = Some (host, slot) \<Longrightarrow>
    cap_step hashtext cap c (c\<lparr>cs_locks := advisory_unlock s (hashtext (slotKey host slot)) (cs_locks c),
      cs_sending := (cs_sending c)(s := None)\<rparr>)"
| cp_leak: "cap_step hashtext cap c (c\<lparr>cs_sending := (cs_sending c)(s := None)\<rparr>)"
| cp_foreign: "cs_sending c s = None \<Longrightarrow>
    L' = snd (try_advisory_lock s k (cs_locks c)) \<or> L' = advisory_unlock s k (cs_locks c) \<Longrightarrow>
    cap_step hashtext cap c (c\<lparr>cs_locks := L'\<rparr>)"

definition cap_init :: "cap_sys \<Rightarrow> bool" where
  "cap_init c \<longleftrightarrow> cs_sending c = Map.empty"

definition cap_inv :: "(string \<Rightarrow> int) \<Rightarrow> int \<Rightarrow> cap_sys \<Rightarrow> bool" where
  "cap_inv hashtext cap c \<longleftrightarrow>
     (\<forall>s host slot. cs_sending c s = Some (host, slot) \<longrightarrow>
        0 \<le> slot \<and> slot < cap \<and> held_by s (hashtext (slotKey host slot)) (cs_locks c))"

lemma held_by_try_lock: "held_by s k L \<Longrightarrow> held_by s k (snd (try_advisory_lock s' k' L))"
  by (cases rule: try_lock_cases [of s' k' L]) (auto simp: held_by_def free_for_def split: option.splits)

lemma held_by_unlock: "held_by s k L \<Longrightarrow> s \<noteq> s' \<Longrightarrow> held_by s k (advisory_unlock s' k' L)"
  by (auto simp: held_by_def advisory_unlock_def split: option.splits prod.splits)

lemma probe_one:
  assumes "probe_slots hashtext s host cap start i [e] L = (Some (Inr slot), L')" and "pr_others e = (\<lambda>L. L)"
  shows "slot = (start + i) mod cap" and "L' = snd (try_advisory_lock s (hashtext (slotKey host slot)) L)"
    and "held_by s (hashtext (slotKey host slot)) L'"
proof -
  let ?k = "hashtext (slotKey host ((start + i) mod cap))"
  have "slot = (start + i) mod cap \<and> try_advisory_lock s ?k L = (True, L')"
    using assms by (auto simp: Let_def split: option.splits prod.splits bool.splits)
  moreover from this have "held_by s ?k L'"
    by (cases rule: try_lock_cases [of s ?k L]) (auto simp: held_by_def)
  ultimately show "slot = (start + i) mod cap"
    and "L' = snd (try_advisory_lock s (hashtext (slotKey host slot)) L)"
    and "held_by s (hashtext (slotKey host slot)) L'" by simp_all
qed

interpretation hostcap_inv: inductive_invariant cap_init "cap_step hashtext (int (Suc n))" "cap_inv hashtext (int (Suc n))"
  for hashtext n
proof
  show "cap_inv hashtext (int (Suc n)) c" if "cap_init c" for c
    using that by (simp add: cap_init_def cap_inv_def)
  show "cap_inv hashtext (int (Suc n)) t" if "cap_step hashtext (int (Suc n)) c t" "cap_inv hashtext (int (Suc n)) c" for c t
    using that
  proof cases
    case (cp_acquire s host start i e slot L')
    note p = probe_one [OF cp_acquire(3,4)]
    have "0 \<le> slot" "slot < int (Suc n)" by (simp_all add: p(1))
    with that(2) cp_acquire(1) p(3) held_by_try_lock show ?thesis
      unfolding cap_inv_def p(2) by auto
  next
    case (cp_release s host slot)
    with that(2) held_by_unlock show ?thesis unfolding cap_inv_def by auto
  next
    case (cp_foreign s L' k)
    with that(2) held_by_unlock held_by_try_lock show ?thesis unfolding cap_inv_def by (auto; metis option.distinct(1))
  qed (auto simp: cap_inv_def)
qed

section \<open>Properties\<close>





text \<open>
  The waits between rounds are bounded on both sides: every wait is at least three quarters of
  the configured backoff (or of two seconds, if that is less) and at most five quarters of two
  seconds (or of the configured backoff, if that is more), for any number of rounds.
\<close>

lemma acquire_waits_bounded:
  assumes "0 < backoff" and "backoff \<le> 2 ^ 53"
    and "acquireSlot hashtext oor s host dst cap backoff rs L = (res, waits, L')" and "d \<in> set waits"
  shows "3 * min backoff (2 * Second) \<le> 4 * d \<and> 4 * d \<le> 5 * max backoff (2 * Second)"
  using waits_range [OF assms(1,2) _ _ assms(3) [unfolded acquireSlot_def] assms(4)]
  by (simp add: maxBackoff_def)

section \<open>Releasing\<close>

definition holds_nothing :: "session \<Rightarrow> lock_table \<Rightarrow> bool" where
  "holds_nothing s L \<longleftrightarrow> (\<forall>k. \<not> held_by s k L)"

definition holds_only :: "session \<Rightarrow> int \<Rightarrow> lock_table \<Rightarrow> bool" where
  "holds_only s k L \<longleftrightarrow> L k = Some (s, 1) \<and> (\<forall>k'. k' \<noteq> k \<longrightarrow> \<not> held_by s k' L)"

lemma holds_only_upd: "holds_nothing s L \<Longrightarrow> holds_only s k (L(k \<mapsto> (s, 1)))"
  by (simp add: holds_only_def holds_nothing_def held_by_def)

lemma probe_slots_locks:
  assumes "holds_nothing s L" and "\<forall>e \<in> set es. \<forall>L. holds_nothing s L \<longrightarrow> holds_nothing s (pr_others e L)"
    and "probe_slots hashtext s host cap start i es L = (res, L')"
  shows "(\<forall>slot. res \<noteq> Some (Inr slot)) \<and> holds_nothing s L' \<or>
    (\<exists>slot. res = Some (Inr slot) \<and> holds_only s (hashtext (slotKey host slot)) L')"
  using assms
proof (induction es arbitrary: i L)
  case (Cons e es)
  let ?L = "pr_others e L" and ?slot = "(start + i) mod cap"
  have L: "holds_nothing s ?L" using Cons.prems(1,2) by simp
  show ?case
  proof (cases "pr_err e")
    case (Some err)
    then show ?thesis using Cons.prems(3) L by (auto simp: Let_def)
  next
    case None
    show ?thesis
    proof (cases "?L (hashtext (slotKey host ?slot))")
      case free: None
      then have "res = Some (Inr ?slot)" "L' = ?L(hashtext (slotKey host ?slot) \<mapsto> (s, 1))"
        using None Cons.prems(3) by (auto simp: Let_def try_advisory_lock_def)
      with holds_only_upd [OF L] show ?thesis by metis
    next
      case (Some p)
      then have "fst p \<noteq> s"
        using L by (cases p) (auto simp: holds_nothing_def held_by_def split: option.splits)
      then have "probe_slots hashtext s host cap start (i + 1) es ?L = (res, L')"
        using None Some Cons.prems(3) by (auto simp: Let_def try_advisory_lock_def split: prod.splits)
      from Cons.IH [OF L _ this] Cons.prems(2) show ?thesis by auto
    qed
  qed
qed auto

lemma acquire_rounds_locks:
  assumes "holds_nothing s L"
    and "\<forall>r \<in> set rs. \<forall>k L. holds_nothing s L \<longrightarrow> holds_nothing s (pr_others (ro_probe r k) L)"
    and "acquire_rounds hashtext oor s host cap backoff start wait seed rs L = (res, waits, L')"
  shows "(\<forall>slot. res \<noteq> Some (Inr slot)) \<and> holds_nothing s L' \<or>
    (\<exists>slot. res = Some (Inr slot) \<and> holds_only s (hashtext (slotKey host slot)) L')"
  using assms
proof (induction rs arbitrary: wait seed L waits)
  case (Cons r rs)
  obtain res1 L1 where p: "probe_slots hashtext s host cap start 0 (map (ro_probe r) [0 ..< nat cap]) L = (res1, L1)"
    by fastforce
  note one = probe_slots_locks [OF Cons.prems(1) _ p]
  show ?case
  proof (cases "res1 = None \<and> ro_done r = None")
    case True
    then have "holds_nothing s L1" using one Cons.prems(2) by auto
    moreover obtain waits' where
      "acquire_rounds hashtext oor s host cap backoff start (nextBackoff wait backoff) (lcg_step seed) rs L1 = (res, waits', L')"
      using Cons.prems(3) p True by (auto split: prod.splits)
    ultimately show ?thesis using Cons.IH Cons.prems(2) by auto
  next
    case False
    then show ?thesis using one Cons.prems(2,3) p by (auto split: option.splits)
  qed
qed auto

text \<open>
  C25. A transfer gives its slot back. If the pinned session held no lock before and other sessions
  never take or release locks in its name, then when \<^verbatim>\<open>Send\<close> has returned, panicked or failed and
  its unlock reached the database, the session holds no lock, whatever happened: no host, no
  connection, no slot, a cancelled wait, or a transfer of any outcome.
\<close>

theorem hostcap_Send_releases:
  assumes "holds_nothing s L"
    and "\<forall>r \<in> set rs. \<forall>k L. holds_nothing s L \<longrightarrow> holds_nothing s (pr_others (ro_probe r k) L)"
    and "\<forall>L k. held_by s k (others L) \<longleftrightarrow> held_by s k L" and "\<forall>L k. held_by s k L \<longrightarrow> others L k = L k"
    and "hostcap_Send hashtext oor url_host cfg (Inr s) rs others True inner dst w L = (res, L')"
  shows "holds_nothing s L'"
proof -
  define host where "host = cap_host url_host cfg dst"
  obtain r waits L1 where a: "acquireSlot hashtext oor s host dst (hc_Cap cfg) (hc_AcquireBackoff cfg) rs L = (r, waits, L1)"
    by (metis prod_cases3)
  note locks = acquire_rounds_locks [OF assms(1,2) a [unfolded acquireSlot_def]]
  let ?bad = "slotHash_panics (hc_Cap cfg) \<or> slotHash_panics (wrap64 (hc_Cap cfg * 7 + 13))"
  show ?thesis
  proof (cases "\<exists>slot. host \<noteq> [] \<and> \<not> ?bad \<and> r = Some (Inr slot)")
    case True
    then obtain slot where h: "host \<noteq> []" "\<not> ?bad" "r = Some (Inr slot)"
      and L1: "holds_only s (hashtext (slotKey host slot)) L1" using locks by auto
    let ?k = "hashtext (slotKey host slot)"
    have k: "others L1 ?k = Some (s, 1)" using assms(4) L1 by (simp add: held_by_def holds_only_def)
    have L': "L' = advisory_unlock s ?k (others L1)"
      using assms(5) a h by (simp add: hostcap_Send_def host_def [symmetric] Let_def)
    have "\<not> held_by s k' L'" for k'
    proof (cases "k' = ?k")
      case False
      then have "\<not> held_by s k' L1" using L1 by (simp add: holds_only_def)
      then have "\<not> held_by s k' (others L1)" using assms(3) by simp
      with False show ?thesis unfolding L' by (simp add: advisory_unlock_def k held_by_def)
    qed (simp add: L' advisory_unlock_def k held_by_def)
    then show ?thesis by (simp add: holds_nothing_def)
  next
    case False
    then show ?thesis
      using assms(1,5) a locks
      by (auto simp: hostcap_Send_def host_def [symmetric] Let_def split: option.splits sum.splits if_splits)
  qed
qed

theorem hostcap_Send_releases_witness:
  "let round = \<lparr>ro_probe = (\<lambda>_. \<lparr>pr_others = (\<lambda>L. L), pr_err = None\<rparr>), ro_done = None\<rparr>;
       cfg = \<lparr>hc_Cap = 8, hc_Host = ''h'', hc_AcquireBackoff = 100000000\<rparr>
   in holds_nothing 1 (snd (hostcap_Send (\<lambda>k. int (length k)) (\<lambda>_. 0) (\<lambda>_. Inr ''h'') cfg (Inr 1) [round]
        (\<lambda>L. L) True (\<lambda>w. (Panic ''boom'', w)) ''ftp://h/x'' () [0 \<mapsto> (2, 1)]))"
  unfolding Let_def
  by (rule hostcap_Send_releases [OF _ _ _ _ prod.collapse [symmetric]])
     (simp_all add: holds_nothing_def held_by_def split: if_splits)

text \<open>
  The hash divides by the cap as a 32-bit word: every cap up to 613566754 is safe, and one that is a multiple of
  4294967296 makes each transfer panic.
\<close>

lemma slotHash_panics_dvd: "slotHash_panics k \<longleftrightarrow> 4294967296 dvd k"
  unfolding slotHash_panics_def word_of_int_eq_0_iff by simp

lemma slotHash_safe: "0 < cap \<Longrightarrow> cap \<le> 613566754 \<Longrightarrow> \<not> slotHash_panics cap \<and> \<not> slotHash_panics (wrap64 (cap * 7 + 13))"
  by (simp add: slotHash_panics_dvd wrap64_id zdvd_not_zless)

lemma hostcap_cap_divides_by_zero:
  assumes "hc_Cap cfg = 4294967296" and "hc_Host cfg \<noteq> []"
  shows "hostcap_Send hashtext oor url_host cfg (Inr s) rs others unlocked inner dst w L =
    (Some (Panic ''runtime error: integer divide by zero'', w), L)"
  using assms by (simp add: hostcap_Send_def cap_host_def slotHash_panics_dvd)

lemma slotKey_index:
  assumes "0 \<le> slot"
  shows "takeWhile is_digit (rev (slotKey host slot)) = rev (itoa slot)"
proof -
  have "itoa slot = digits (nat slot)" using assms by (simp add: itoa_def)
  then show ?thesis
    using digits_are_digits [of "nat slot"] sign_not_digit(3)
    by (simp add: slotKey_def list_all_iff takeWhile_tail)
qed

text \<open>
  Slot keys do not collide: the key of a slot determines the host and the slot, even for hosts
  that contain underscores and digits, so two hosts never share the text of a key.
\<close>

lemma slotKey_injective:
  assumes "0 \<le> slot" and "0 \<le> slot'" and "slotKey host slot = slotKey host' slot'"
  shows "host = host' \<and> slot = slot'"
proof -
  have "rev (itoa slot) = rev (itoa slot')"
    using slotKey_index [OF assms(1), of host] slotKey_index [OF assms(2), of host'] assms(3) by simp
  then have "slot = slot'" by (simp add: itoa_inj)
  with assms(3) show ?thesis by (simp add: slotKey_def)
qed

end
