(* ===== verification/Ftp_Pool.thy ===== *)
theory Ftp_Pool
  imports Go_Lib
begin

text \<open>
  \<^verbatim>\<open>internal/transports/ftp/pool.go\<close>: the per-host FTP connection pool. Every critical section of
  \<^verbatim>\<open>Acquire\<close>, \<^verbatim>\<open>Release\<close> and \<^verbatim>\<open>Close\<close> is a function on the state of one host; goroutines run them
  in any order. Connections and wake channels are numbers; the one-element buffer of a channel
  is membership in \<open>hp_tokens\<close>.
\<close>

section \<open>State\<close>

record PoolConfig =
  MaxPerHost :: int
  IdleTTL :: duration
  NoopAfter :: duration
  AuthUser :: string
  AuthPassword :: string
  DialTimeout :: duration

definition NewPool_config :: "PoolConfig \<Rightarrow> PoolConfig" where
  "NewPool_config cfg =
     cfg\<lparr>MaxPerHost := (if MaxPerHost cfg \<le> 0 then 4 else MaxPerHost cfg),
         IdleTTL := (if IdleTTL cfg \<le> 0 then 5 * Minute else IdleTTL cfg),
         NoopAfter := (if NoopAfter cfg \<le> 0 then 60 * Second else NoopAfter cfg),
         DialTimeout := (if DialTimeout cfg \<le> 0 then 10 * Second else DialTimeout cfg)\<rparr>"

text \<open>Times are nanoseconds of the monotonic clock.\<close>

record idleEntry =
  ie_conn :: nat
  ie_enqueue :: int
  ie_lastUse :: int

record hostPool =
  hp_idle :: "idleEntry list"
  hp_inUse :: int
  hp_waiters :: "nat list"
  hp_tokens :: "nat list"

definition empty_host :: hostPool where
  "empty_host = \<lparr>hp_idle = [], hp_inUse = 0, hp_waiters = [], hp_tokens = []\<rparr>"

definition getHost :: "string \<Rightarrow> (string \<rightharpoonup> hostPool) \<Rightarrow> hostPool \<times> (string \<rightharpoonup> hostPool)" where
  "getHost host hosts =
     (case hosts host of Some hp \<Rightarrow> (hp, hosts) | None \<Rightarrow> (empty_host, hosts(host \<mapsto> empty_host)))"

definition IdleCount :: "string \<Rightarrow> (string \<rightharpoonup> hostPool) \<Rightarrow> nat" where
  "IdleCount host hosts = (case hosts host of Some hp \<Rightarrow> length (hp_idle hp) | None \<Rightarrow> 0)"

section \<open>Critical sections\<close>

definition wakeOneWaiter :: "hostPool \<Rightarrow> hostPool" where
  "wakeOneWaiter hp =
     (case hp_waiters hp of
        [] \<Rightarrow> hp
      | ch # ws \<Rightarrow>
          hp\<lparr>hp_waiters := ws,
             hp_tokens := (if ch \<in> set (hp_tokens hp) then hp_tokens hp else hp_tokens hp @ [ch])\<rparr>)"

text \<open>
  The scan for an idle connection, from the most recently released one: the entry found with
  the connections left, and the expired connections that were quit.
\<close>

fun scan_idle :: "int \<Rightarrow> duration \<Rightarrow> idleEntry list \<Rightarrow> idleEntry option \<times> idleEntry list" where
  "scan_idle now ttl [] = (None, [])"
| "scan_idle now ttl (ie # rest) =
     (if now - ie_enqueue ie > ttl then scan_idle now ttl rest else (Some ie, rest))"

datatype decision = D_closed | D_idle nat bool | D_dial | D_wait

text \<open>
  One turn of the loop of \<^verbatim>\<open>Acquire\<close> up to the point where it unlocks; \<open>ch\<close> is the channel it makes
  if it has to wait.
\<close>

definition acquire_section :: "PoolConfig \<Rightarrow> int \<Rightarrow> nat \<Rightarrow> bool \<Rightarrow> hostPool \<Rightarrow> decision \<times> hostPool" where
  "acquire_section cfg now ch cl hp =
     (if cl then (D_closed, hp)
      else case scan_idle now (IdleTTL cfg) (rev (hp_idle hp)) of
        (Some ie, rest) \<Rightarrow>
          (D_idle (ie_conn ie) (now - ie_lastUse ie > NoopAfter cfg),
           hp\<lparr>hp_idle := rev rest, hp_inUse := hp_inUse hp + 1\<rparr>)
      | (None, rest) \<Rightarrow>
          if hp_inUse hp < MaxPerHost cfg then
            (D_dial, hp\<lparr>hp_idle := rev rest, hp_inUse := hp_inUse hp + 1\<rparr>)
          else
            (D_wait, hp\<lparr>hp_idle := rev rest, hp_waiters := hp_waiters hp @ [ch]\<rparr>))"

text \<open>What a failed \<^verbatim>\<open>NOOP\<close> and a failed dial do: free the slot and wake a waiter.\<close>

definition slot_freed :: "hostPool \<Rightarrow> hostPool" where
  "slot_freed hp = wakeOneWaiter (hp\<lparr>hp_inUse := hp_inUse hp - 1\<rparr>)"

text \<open>A waiter whose context is done: leave the list, or pass on the wake-up it was given.\<close>

definition cancel_wait :: "nat \<Rightarrow> hostPool \<Rightarrow> hostPool" where
  "cancel_wait ch hp =
     (if ch \<in> set (hp_waiters hp) then hp\<lparr>hp_waiters := remove1 ch (hp_waiters hp)\<rparr>
      else wakeOneWaiter (hp\<lparr>hp_tokens := removeAll ch (hp_tokens hp)\<rparr>))"

definition take_token :: "nat \<Rightarrow> hostPool \<Rightarrow> hostPool" where
  "take_token ch hp = hp\<lparr>hp_tokens := removeAll ch (hp_tokens hp)\<rparr>"

definition release :: "int \<Rightarrow> bool \<Rightarrow> nat \<Rightarrow> bool \<Rightarrow> hostPool \<Rightarrow> hostPool" where
  "release now cl c broken hp =
     (let hp1 = hp\<lparr>hp_inUse := hp_inUse hp - 1\<rparr>;
          hp2 = (if broken \<or> cl then hp1
                 else hp1\<lparr>hp_idle := hp_idle hp1 @ [\<lparr>ie_conn = c, ie_enqueue = now, ie_lastUse = now\<rparr>]\<rparr>)
      in wakeOneWaiter hp2)"

definition close_host :: "hostPool \<Rightarrow> hostPool" where
  "close_host hp = hp\<lparr>hp_idle := []\<rparr>"

text \<open>\<^verbatim>\<open>PooledConn.Release\<close>: a handle whose connection was already given back is \<open>None\<close>.\<close>

definition PooledConn_Release ::
  "int \<Rightarrow> bool \<Rightarrow> bool \<Rightarrow> nat option \<Rightarrow> hostPool \<Rightarrow> nat option \<times> hostPool"
where
  "PooledConn_Release now cl broken pc hp =
     (case pc of None \<Rightarrow> (None, hp) | Some c \<Rightarrow> (None, release now cl c broken hp))"

section \<open>Goroutines\<close>

datatype gstate =
    Looping
  | Pinging nat
  | Dialing
  | Parked nat
  | Holding nat

record pool_sys =
  ps_closed :: bool
  ps_hp :: hostPool
  ps_gs :: "nat \<rightharpoonup> gstate"
  ps_chan :: nat

fun after_decision :: "nat \<Rightarrow> decision \<Rightarrow> gstate option" where
  "after_decision ch D_closed = None"
| "after_decision ch (D_idle c ping) = Some (if ping then Pinging c else Holding c)"
| "after_decision ch D_dial = Some Dialing"
| "after_decision ch D_wait = Some (Parked ch)"

definition conns_in_use :: "pool_sys \<Rightarrow> nat set" where
  "conns_in_use s =
     ie_conn ` set (hp_idle (ps_hp s)) \<union> {c. \<exists>g. ps_gs s g = Some (Pinging c) \<or> ps_gs s g = Some (Holding c)}"

inductive pool_step :: "PoolConfig \<Rightarrow> pool_sys \<Rightarrow> pool_sys \<Rightarrow> bool" for cfg :: PoolConfig where
  ps_enter: "ps_gs s g = None \<Longrightarrow> pool_step cfg s (s\<lparr>ps_gs := (ps_gs s)(g \<mapsto> Looping)\<rparr>)"
| ps_acquire: "ps_gs s g = Some Looping \<Longrightarrow>
    acquire_section cfg now (ps_chan s) (ps_closed s) (ps_hp s) = (d, hp) \<Longrightarrow>
    pool_step cfg s (s\<lparr>ps_hp := hp, ps_gs := (ps_gs s)(g := after_decision (ps_chan s) d),
      ps_chan := Suc (ps_chan s)\<rparr>)"
| ps_ping_ok: "ps_gs s g = Some (Pinging c) \<Longrightarrow> pool_step cfg s (s\<lparr>ps_gs := (ps_gs s)(g \<mapsto> Holding c)\<rparr>)"
| ps_ping_fail: "ps_gs s g = Some (Pinging c) \<Longrightarrow>
    pool_step cfg s (s\<lparr>ps_hp := slot_freed (ps_hp s), ps_gs := (ps_gs s)(g \<mapsto> Looping)\<rparr>)"
| ps_dial_ok: "ps_gs s g = Some Dialing \<Longrightarrow> c \<notin> conns_in_use s \<Longrightarrow>
    pool_step cfg s (s\<lparr>ps_gs := (ps_gs s)(g \<mapsto> Holding c)\<rparr>)"
| ps_dial_fail: "ps_gs s g = Some Dialing \<Longrightarrow>
    pool_step cfg s (s\<lparr>ps_hp := slot_freed (ps_hp s), ps_gs := (ps_gs s)(g := None)\<rparr>)"
| ps_wake: "ps_gs s g = Some (Parked ch) \<Longrightarrow> ch \<in> set (hp_tokens (ps_hp s)) \<Longrightarrow>
    pool_step cfg s (s\<lparr>ps_hp := take_token ch (ps_hp s), ps_gs := (ps_gs s)(g \<mapsto> Looping)\<rparr>)"
| ps_cancel: "ps_gs s g = Some (Parked ch) \<Longrightarrow>
    pool_step cfg s (s\<lparr>ps_hp := cancel_wait ch (ps_hp s), ps_gs := (ps_gs s)(g := None)\<rparr>)"
| ps_release: "ps_gs s g = Some (Holding c) \<Longrightarrow> PooledConn_Release now (ps_closed s) broken (Some c) (ps_hp s) = (pc, hp) \<Longrightarrow>
    pool_step cfg s (s\<lparr>ps_hp := hp, ps_gs := (ps_gs s)(g := None)\<rparr>)"
| ps_close: "pool_step cfg s (s\<lparr>ps_closed := True, ps_hp := close_host (ps_hp s)\<rparr>)"
| ps_other: "ps_chan s \<le> n \<Longrightarrow> pool_step cfg s (s\<lparr>ps_chan := n\<rparr>)"

definition pool_init :: "pool_sys \<Rightarrow> bool" where
  "pool_init s \<longleftrightarrow> s = \<lparr>ps_closed = False, ps_hp = empty_host, ps_gs = Map.empty, ps_chan = 0\<rparr>"

text \<open>Who occupies a connection slot, and who is about to run the acquire section.\<close>

fun has_slot :: "gstate option \<Rightarrow> bool" where
  "has_slot (Some (Pinging _)) = True"
| "has_slot (Some Dialing) = True"
| "has_slot (Some (Holding _)) = True"
| "has_slot _ = False"

fun runnable :: "nat list \<Rightarrow> gstate option \<Rightarrow> bool" where
  "runnable ws (Some Looping) = True"
| "runnable ws (Some (Parked ch)) = (ch \<notin> set ws)"
| "runnable ws _ = False"

fun owns :: "gstate option \<Rightarrow> nat option" where
  "owns (Some (Pinging c)) = Some c"
| "owns (Some (Holding c)) = Some c"
| "owns _ = None"

definition slots :: "pool_sys \<Rightarrow> nat" where
  "slots s = card {g. has_slot (ps_gs s g)}"

definition runnables :: "pool_sys \<Rightarrow> nat" where
  "runnables s = card {g. runnable (hp_waiters (ps_hp s)) (ps_gs s g)}"

section \<open>Counting goroutines\<close>

lemma card_fun_upd:
  assumes "finite {x. P (f x)}"
  shows "card {x. P ((f(a := v)) x)} + (if P (f a) then 1 else 0) =
    card {x. P (f x)} + (if P v then 1 else 0)"
proof -
  let ?A = "{x. P (f x)}"
  define B where "B = ?A - {a}"
  have B: "finite B" "a \<notin> B" using assms by (simp_all add: B_def)
  have "{x. P ((f(a := v)) x)} = (if P v then insert a B else B)" by (auto simp: B_def)
  moreover have "card B + (if P (f a) then 1 else 0) = card ?A"
  proof (cases "P (f a)")
    case True
    with card_Suc_Diff1 [OF assms, of a] show ?thesis by (simp add: B_def)
  next
    case False
    then have "B = ?A" by (auto simp: B_def)
    with False show ?thesis by simp
  qed
  ultimately show ?thesis using B by simp
qed

lemma finite_slots: "finite (dom f) \<Longrightarrow> finite {g. has_slot (f g)}"
proof (rule finite_subset [of _ "dom f"])
  show "{g. has_slot (f g)} \<subseteq> dom f"
  proof
    fix g assume "g \<in> {g. has_slot (f g)}"
    then show "g \<in> dom f" by (cases "f g") auto
  qed
qed

lemma finite_runnable: "finite (dom f) \<Longrightarrow> finite {g. runnable ws (f g)}"
proof (rule finite_subset [of _ "dom f"])
  show "{g. runnable ws (f g)} \<subseteq> dom f"
  proof
    fix g assume "g \<in> {g. runnable ws (f g)}"
    then show "g \<in> dom f" by (cases "f g") auto
  qed
qed

abbreviation run_count :: "nat list \<Rightarrow> (nat \<rightharpoonup> gstate) \<Rightarrow> nat" where
  "run_count ws f \<equiv> card {g. runnable ws (f g)}"

lemma run_count_cong:
  assumes "\<And>g ch. f g = Some (Parked ch) \<Longrightarrow> ch \<in> set ws \<longleftrightarrow> ch \<in> set ws'"
  shows "run_count ws f = run_count ws' f"
proof -
  have "runnable ws (f g) \<longleftrightarrow> runnable ws' (f g)" for g
    using assms [of g] by (cases "f g" rule: owns.cases) auto
  then show ?thesis by simp
qed

lemma run_count_pop:
  assumes "finite (dom f)" and "ch \<notin> set ws" and "f a = Some (Parked ch)"
    and "\<And>g. f g = Some (Parked ch) \<Longrightarrow> g = a"
  shows "run_count ws f = run_count (ch # ws) f + 1"
proof -
  have "runnable ws (f g) \<longleftrightarrow> g = a \<or> runnable (ch # ws) (f g)" for g
  proof (cases "g = a")
    case True
    with assms(2,3) show ?thesis by simp
  next
    case False
    with assms(4) have "f g \<noteq> Some (Parked ch)" by blast
    with False show ?thesis by (cases "f g" rule: owns.cases) auto
  qed
  then have "{g. runnable ws (f g)} = insert a {g. runnable (ch # ws) (f g)}" by auto
  moreover have "\<not> runnable (ch # ws) (f a)" using assms(3) by simp
  ultimately show ?thesis using finite_runnable [OF assms(1)] by simp
qed

section \<open>Invariants\<close>

definition counts_ok :: "PoolConfig \<Rightarrow> pool_sys \<Rightarrow> bool" where
  "counts_ok cfg s \<longleftrightarrow> 0 < MaxPerHost cfg \<and> finite (dom (ps_gs s)) \<and> hp_inUse (ps_hp s) = int (slots s) \<and>
     hp_inUse (ps_hp s) + int (length (hp_idle (ps_hp s))) \<le> MaxPerHost cfg"

fun parked :: "gstate option \<Rightarrow> nat option" where
  "parked (Some (Parked ch)) = Some ch"
| "parked _ = None"

text \<open>
  Waiting goroutines (\<open>p\<close> gives the channel a goroutine waits on), the list of waiters, the
  channels with a token and the next channel.
\<close>

definition wait_ok :: "(nat \<Rightarrow> nat option) \<Rightarrow> nat list \<Rightarrow> nat set \<Rightarrow> nat \<Rightarrow> bool" where
  "wait_ok p ws ts n \<longleftrightarrow> distinct ws \<and> set ws \<inter> ts = {} \<and> (\<forall>ch \<in> ts. ch < n) \<and>
     (\<forall>ch \<in> set ws. \<exists>g. p g = Some ch) \<and>
     (\<forall>g ch. p g = Some ch \<longrightarrow> ch < n \<and> (ch \<in> set ws \<or> ch \<in> ts)) \<and>
     (\<forall>g g' ch. p g = Some ch \<longrightarrow> p g' = Some ch \<longrightarrow> g = g')"

definition waiters_ok :: "pool_sys \<Rightarrow> bool" where
  "waiters_ok s \<longleftrightarrow>
     wait_ok (\<lambda>g. parked (ps_gs s g)) (hp_waiters (ps_hp s)) (set (hp_tokens (ps_hp s))) (ps_chan s)"

definition queue_moves :: "PoolConfig \<Rightarrow> pool_sys \<Rightarrow> bool" where
  "queue_moves cfg s \<longleftrightarrow> ps_closed s \<or> hp_waiters (ps_hp s) = [] \<or>
     MaxPerHost cfg \<le> hp_inUse (ps_hp s) + int (run_count (hp_waiters (ps_hp s)) (ps_gs s))"

definition owners_ok :: "pool_sys \<Rightarrow> bool" where
  "owners_ok s \<longleftrightarrow> distinct (map ie_conn (hp_idle (ps_hp s))) \<and>
     (\<forall>g c. owns (ps_gs s g) = Some c \<longrightarrow> c \<notin> ie_conn ` set (hp_idle (ps_hp s)) \<and>
        (\<forall>g'. owns (ps_gs s g') = Some c \<longrightarrow> g' = g))"

lemma wake_simps [simp]:
  "hp_idle (wakeOneWaiter hp) = hp_idle hp" "hp_inUse (wakeOneWaiter hp) = hp_inUse hp"
  "hp_waiters (wakeOneWaiter hp) = tl (hp_waiters hp)"
  "set (hp_tokens (wakeOneWaiter hp)) = set (hp_tokens hp) \<union> set (take 1 (hp_waiters hp))"
  by (auto simp: wakeOneWaiter_def split: list.splits)

lemma scan_idle_suffix: "scan_idle now ttl xs = (r, rest) \<Longrightarrow>
    \<exists>ys. xs = ys @ (case r of None \<Rightarrow> [] | Some ie \<Rightarrow> [ie]) @ rest \<and> (r = None \<longrightarrow> rest = [])"
proof (induction xs)
  case (Cons ie xs)
  show ?case
  proof (cases "now - ie_enqueue ie > ttl")
    case True
    with Cons obtain ys where "xs = ys @ (case r of None \<Rightarrow> [] | Some ie \<Rightarrow> [ie]) @ rest"
      "r = None \<longrightarrow> rest = []" by auto
    then show ?thesis by (intro exI [of _ "ie # ys"]) simp
  next
    case False
    with Cons.prems show ?thesis by (intro exI [of _ "[]"]) auto
  qed
qed simp

text \<open>What the acquire section decides, and how the host's state changes with it.\<close>

lemma acquire_section_cases:
  assumes "acquire_section cfg now ch cl hp = (d, hp')"
  obtains (closed) "cl" "d = D_closed" "hp' = hp"
  | (idle) c ping ys ie rest where "\<not> cl" "d = D_idle c ping" "hp_idle hp = rest @ ie # ys" "ie_conn ie = c"
      "hp' = hp\<lparr>hp_idle := rest, hp_inUse := hp_inUse hp + 1\<rparr>"
  | (dial) "\<not> cl" "d = D_dial" "hp_inUse hp < MaxPerHost cfg"
      "hp' = hp\<lparr>hp_idle := [], hp_inUse := hp_inUse hp + 1\<rparr>"
  | (wait) "\<not> cl" "d = D_wait" "MaxPerHost cfg \<le> hp_inUse hp"
      "hp' = hp\<lparr>hp_idle := [], hp_waiters := hp_waiters hp @ [ch]\<rparr>"
proof (cases cl)
  case True
  with assms closed show thesis by (simp add: acquire_section_def)
next
  case False
  obtain r rest where sc: "scan_idle now (IdleTTL cfg) (rev (hp_idle hp)) = (r, rest)" by fastforce
  obtain ys where ys: "rev (hp_idle hp) = ys @ (case r of None \<Rightarrow> [] | Some ie \<Rightarrow> [ie]) @ rest"
    "r = None \<longrightarrow> rest = []" using scan_idle_suffix [OF sc] by blast
  show thesis
  proof (cases r)
    case (Some ie)
    with ys have "rev (rev (hp_idle hp)) = rev rest @ ie # rev ys" by (simp only:) simp
    then have "hp_idle hp = rev rest @ ie # rev ys" by simp
    with Some False sc assms show thesis
      by (intro idle [of "ie_conn ie" "NoopAfter cfg < now - ie_lastUse ie" "rev rest" ie]) (auto simp: acquire_section_def)
  next
    case None
    with False sc ys(2) assms dial wait show thesis
      by (auto simp: acquire_section_def split: if_splits)
  qed
qed

lemma counts_step:
  assumes "counts_ok cfg s" and "ps_gs t = (ps_gs s)(g := v)"
    and "hp_inUse (ps_hp t) + (if has_slot (ps_gs s g) then 1 else 0) =
         hp_inUse (ps_hp s) + (if has_slot v then 1 else 0)"
    and "hp_inUse (ps_hp t) + int (length (hp_idle (ps_hp t))) \<le> MaxPerHost cfg"
  shows "counts_ok cfg t"
proof -
  have fin: "finite (dom (ps_gs s))" using assms(1) by (simp add: counts_ok_def)
  note upd = card_fun_upd [of has_slot "ps_gs s" g v, OF finite_slots [OF fin]]
  have "slots t + (if has_slot (ps_gs s g) then 1 else 0) = slots s + (if has_slot v then 1 else 0)"
    unfolding slots_def assms(2) by (rule upd)
  moreover have "finite (dom (ps_gs t))"
    unfolding assms(2) using fin by simp
  ultimately show ?thesis
    using assms(1,3,4) unfolding counts_ok_def
    by (cases "has_slot (ps_gs s g)"; cases "has_slot v") simp_all
qed

lemma counts_inv: "pool_step cfg s t \<Longrightarrow> counts_ok cfg s \<Longrightarrow> counts_ok cfg t"
proof (induction rule: pool_step.induct)
  case (ps_enter s g)
  then show ?case by (rule_tac g = g and s = s in counts_step) (auto simp: counts_ok_def)
next
  case (ps_acquire s g now d hp)
  from ps_acquire(2) show ?case
  proof (cases rule: acquire_section_cases)
    case closed
    with ps_acquire(1,3) show ?thesis
      by (rule_tac g = g and s = s and v = "after_decision (ps_chan s) d" in counts_step)
         (simp_all add: counts_ok_def)
  next
    case (idle c ping ys ie rest)
    with ps_acquire(1,3) show ?thesis
      by (rule_tac g = g and s = s and v = "after_decision (ps_chan s) d" in counts_step)
         (simp_all add: counts_ok_def)
  next
    case dial
    with ps_acquire(1,3) show ?thesis
      by (rule_tac g = g and s = s and v = "after_decision (ps_chan s) d" in counts_step)
         (simp_all add: counts_ok_def)
  next
    case wait
    with ps_acquire(1,3) show ?thesis
      by (rule_tac g = g and s = s and v = "after_decision (ps_chan s) d" in counts_step)
         (simp_all add: counts_ok_def)
  qed
next
  case (ps_ping_ok s g c)
  then show ?case by (rule_tac g = g and s = s in counts_step) (auto simp: counts_ok_def)
next
  case (ps_ping_fail s g c)
  then show ?case by (rule_tac g = g and s = s in counts_step) (auto simp: counts_ok_def slot_freed_def)
next
  case (ps_dial_ok s g c)
  then show ?case by (rule_tac g = g and s = s in counts_step) (auto simp: counts_ok_def)
next
  case (ps_dial_fail s g)
  then show ?case by (rule_tac g = g and s = s in counts_step) (auto simp: counts_ok_def slot_freed_def)
next
  case (ps_wake s g ch)
  then show ?case by (rule_tac g = g and s = s in counts_step) (auto simp: counts_ok_def take_token_def)
next
  case (ps_cancel s g ch)
  then show ?case by (rule_tac g = g and s = s in counts_step) (auto simp: counts_ok_def cancel_wait_def)
next
  case (ps_release s g c now broken pc hp)
  then show ?case
    by (rule_tac g = g and s = s in counts_step)
       (auto simp: counts_ok_def release_def PooledConn_Release_def Let_def)
next
  case (ps_close s)
  then show ?case by (auto simp: counts_ok_def close_host_def slots_def)
next
  case (ps_other s n)
  then show ?case by (simp add: counts_ok_def slots_def)
qed

section \<open>Waiters\<close>

lemma parked_upd: "(\<lambda>g'. parked ((f(g := v)) g')) = (\<lambda>g'. parked (f g'))(g := parked v)"
  by auto

lemma wait_ok_later: "wait_ok p ws ts n \<Longrightarrow> n \<le> m \<Longrightarrow> wait_ok p ws ts m"
  unfolding wait_ok_def by (meson less_le_trans)

lemma wait_ok_wake: "wait_ok p (ch # ws) ts n \<Longrightarrow> wait_ok p ws (insert ch ts) n"
  unfolding wait_ok_def by (auto; blast)

lemma wait_ok_park:
  assumes "wait_ok p ws ts n" and "p g = None"
  shows "wait_ok (p(g \<mapsto> n)) (ws @ [n]) ts (Suc n)"
proof -
  have "n \<notin> ts" using assms(1) by (auto simp: wait_ok_def)
  moreover have "n \<notin> set ws" using assms(1) by (auto simp: wait_ok_def) blast
  moreover have "p g' \<noteq> Some n" for g' using assms(1) by (auto simp: wait_ok_def)
  moreover have "\<exists>g'. (p(g \<mapsto> n)) g' = Some ch" if "ch \<in> set ws" for ch
    using assms that unfolding wait_ok_def by (metis fun_upd_apply option.distinct(1))
  ultimately show ?thesis
    using assms unfolding wait_ok_def by (auto simp: less_SucI)
qed

lemma wait_ok_unpark:
  assumes "wait_ok p ws ts n" and "p g = Some ch" and "ch \<notin> set ws"
  shows "wait_ok (p(g := None)) ws (ts - {ch}) n"
proof -
  have "\<exists>g'. (p(g := None)) g' = Some c" if c: "c \<in> set ws" for c
  proof -
    obtain g' where "p g' = Some c" using assms(1) c by (auto simp: wait_ok_def)
    with assms(2,3) c show ?thesis by (intro exI [of _ g']) auto
  qed
  moreover have "c \<in> set ws \<or> c \<in> ts - {ch}" if "(p(g := None)) g' = Some c" for g' c
    using assms that unfolding wait_ok_def by (metis Diff_iff fun_upd_apply option.distinct(1) singletonD)
  ultimately show ?thesis
    using assms unfolding wait_ok_def by auto
qed

lemma wait_ok_cancel:
  assumes "wait_ok p ws ts n" and "p g = Some ch" and "ch \<in> set ws"
  shows "wait_ok (p(g := None)) (remove1 ch ws) ts n"
proof -
  have set: "set (remove1 ch ws) = set ws - {ch}" using assms(1) by (simp add: wait_ok_def)
  have other: "c \<noteq> ch" if "(p(g := None)) g' = Some c" for g' c
    using assms(1,2) that unfolding wait_ok_def by (metis fun_upd_apply option.distinct(1))
  have "\<exists>g'. (p(g := None)) g' = Some c" if c: "c \<in> set ws" "c \<noteq> ch" for c
  proof -
    obtain g' where "p g' = Some c" using assms(1) c by (auto simp: wait_ok_def)
    with assms(2) c(2) show ?thesis by (intro exI [of _ g']) auto
  qed
  moreover have "(c \<in> set ws \<or> c \<in> ts) \<and> c < n" if "(p(g := None)) g' = Some c" for g' c
    using assms(1) that unfolding wait_ok_def by (metis fun_upd_apply option.distinct(1))
  ultimately show ?thesis
    using assms(1) other unfolding wait_ok_def set
    by (auto simp del: fun_upd_apply) (metis fun_upd_apply option.distinct(1))
qed

lemma wait_ok_wakeOneWaiter:
  assumes "wait_ok p (hp_waiters hp) (set (hp_tokens hp)) n"
  shows "wait_ok p (hp_waiters (wakeOneWaiter hp)) (set (hp_tokens (wakeOneWaiter hp))) n"
  using assms wait_ok_wake [of p _ _ "set (hp_tokens hp)" n] by (cases "hp_waiters hp") auto

text \<open>How a step moves the waiters, for a goroutine that does not wait before and after.\<close>

lemma waiters_wake:
  assumes "waiters_ok s" and "parked (ps_gs s g) = None" and "parked v = None"
    and "hp_waiters hp = hp_waiters (ps_hp s)" and "hp_tokens hp = hp_tokens (ps_hp s)"
  shows "waiters_ok (s\<lparr>ps_hp := wakeOneWaiter hp, ps_gs := (ps_gs s)(g := v)\<rparr>)"
proof -
  have "(\<lambda>g'. parked (ps_gs s g'))(g := None) = (\<lambda>g'. parked (ps_gs s g'))" using assms(2) by auto
  then show ?thesis
    using wait_ok_wakeOneWaiter [of "\<lambda>g'. parked (ps_gs s g')" hp "ps_chan s"] assms
    by (simp add: waiters_ok_def parked_upd del: fun_upd_apply wake_simps)
qed

lemma waiters_still:
  assumes "waiters_ok s" and "parked (ps_gs s g) = None" and "parked v = None"
    and "hp_waiters hp = hp_waiters (ps_hp s)" and "hp_tokens hp = hp_tokens (ps_hp s)" and "ps_chan s \<le> n"
  shows "waiters_ok (s\<lparr>ps_hp := hp, ps_gs := (ps_gs s)(g := v), ps_chan := n\<rparr>)"
proof -
  have "(\<lambda>g'. parked (ps_gs s g'))(g := None) = (\<lambda>g'. parked (ps_gs s g'))" using assms(2) by auto
  then show ?thesis
    using wait_ok_later [OF _ assms(6)] assms
    by (simp add: waiters_ok_def parked_upd del: fun_upd_apply)
qed

lemma same_hp: "s\<lparr>ps_gs := f\<rparr> = s\<lparr>ps_hp := ps_hp s, ps_gs := f, ps_chan := ps_chan s\<rparr>" for s :: pool_sys
  by simp

lemma waiters_inv: "pool_step cfg s t \<Longrightarrow> waiters_ok s \<Longrightarrow> waiters_ok t"
proof (induction rule: pool_step.induct)
  case (ps_enter s g)
  then show ?case by (subst same_hp, rule_tac waiters_still) auto
next
  case (ps_acquire s g now d hp)
  from ps_acquire(2) show ?case
  proof (cases rule: acquire_section_cases)
    case wait
    have "wait_ok ((\<lambda>g'. parked (ps_gs s g'))(g \<mapsto> ps_chan s)) (hp_waiters (ps_hp s) @ [ps_chan s])
        (set (hp_tokens (ps_hp s))) (Suc (ps_chan s))"
      using ps_acquire(1,3) by (intro wait_ok_park) (simp_all add: waiters_ok_def)
    with wait show ?thesis by (simp add: waiters_ok_def parked_upd del: fun_upd_apply)
  next
    case (idle c ping ys ie rest)
    with ps_acquire(1,3) show ?thesis by (rule_tac waiters_still) auto
  qed (use ps_acquire(1,3) in \<open>rule_tac waiters_still; simp\<close>)+
next
  case (ps_ping_ok s g c)
  then show ?case by (subst same_hp, rule_tac waiters_still) auto
next
  case (ps_ping_fail s g c)
  then show ?case unfolding slot_freed_def by (rule_tac waiters_wake) auto
next
  case (ps_dial_ok s g c)
  then show ?case by (subst same_hp, rule_tac waiters_still) auto
next
  case (ps_dial_fail s g)
  then show ?case unfolding slot_freed_def by (rule_tac waiters_wake) auto
next
  case (ps_wake s g ch)
  then have "ch \<notin> set (hp_waiters (ps_hp s))" by (auto simp: waiters_ok_def wait_ok_def)
  then have "wait_ok ((\<lambda>g'. parked (ps_gs s g'))(g := None)) (hp_waiters (ps_hp s))
      (set (hp_tokens (ps_hp s)) - {ch}) (ps_chan s)"
    using ps_wake by (intro wait_ok_unpark) (simp_all add: waiters_ok_def)
  then show ?case by (simp add: waiters_ok_def take_token_def parked_upd del: fun_upd_apply)
next
  case (ps_cancel s g ch)
  let ?p = "\<lambda>g'. parked (ps_gs s g')"
  show ?case
  proof (cases "ch \<in> set (hp_waiters (ps_hp s))")
    case True
    then have "wait_ok (?p(g := None)) (remove1 ch (hp_waiters (ps_hp s))) (set (hp_tokens (ps_hp s))) (ps_chan s)"
      using ps_cancel by (intro wait_ok_cancel) (simp_all add: waiters_ok_def)
    with True show ?thesis by (simp add: waiters_ok_def cancel_wait_def parked_upd del: fun_upd_apply)
  next
    case False
    then have "wait_ok (?p(g := None)) (hp_waiters (ps_hp s)) (set (hp_tokens (ps_hp s)) - {ch}) (ps_chan s)"
      using ps_cancel by (intro wait_ok_unpark) (simp_all add: waiters_ok_def)
    then have "wait_ok (?p(g := None)) (hp_waiters (cancel_wait ch (ps_hp s)))
        (set (hp_tokens (cancel_wait ch (ps_hp s)))) (ps_chan s)"
      using wait_ok_wakeOneWaiter [of "?p(g := None)" "ps_hp s\<lparr>hp_tokens := removeAll ch (hp_tokens (ps_hp s))\<rparr>"] False
      by (simp add: cancel_wait_def del: wake_simps)
    then show ?thesis by (simp add: waiters_ok_def parked_upd del: fun_upd_apply)
  qed
next
  case (ps_release s g c now broken pc hp)
  then have "hp = release now (ps_closed s) c broken (ps_hp s)" by (simp add: PooledConn_Release_def)
  then show ?case
    using ps_release unfolding release_def Let_def by (auto intro!: waiters_wake)
next
  case (ps_close s)
  then show ?case by (simp add: waiters_ok_def close_host_def)
next
  case (ps_other s n)
  then show ?case by (simp add: waiters_ok_def wait_ok_later)
qed

section \<open>The queue of waiters moves\<close>

lemma run_upd:
  assumes "finite (dom f)"
  shows "run_count ws (f(a := v)) + (if runnable ws (f a) then 1 else 0) =
    run_count ws f + (if runnable ws v then 1 else 0)"
  by (rule card_fun_upd) (rule finite_runnable [OF assms])

lemma parked_Some [simp]: "parked x = Some ch \<longleftrightarrow> x = Some (Parked ch)"
  by (cases x rule: parked.cases) auto

lemma waiter_popped:
  assumes "waiters_ok s" and "finite (dom (ps_gs s))" and "hp_waiters (ps_hp s) = ch # ws"
  shows "run_count ws (ps_gs s) = run_count (ch # ws) (ps_gs s) + 1"
proof -
  obtain a where a: "ps_gs s a = Some (Parked ch)" "\<And>g. ps_gs s g = Some (Parked ch) \<Longrightarrow> g = a" "ch \<notin> set ws"
    using assms(1,3) by (auto simp: waiters_ok_def wait_ok_def)
  show ?thesis by (rule run_count_pop [OF assms(2) a(3,1,2)])
qed

lemma moves_wake:
  assumes "queue_moves cfg s" and "waiters_ok s" and "finite (dom (ps_gs s))" and "has_slot (ps_gs s g)"
    and "hp_waiters hp = hp_waiters (ps_hp s)" and "hp_inUse hp = hp_inUse (ps_hp s) - 1"
  shows "queue_moves cfg (s\<lparr>ps_hp := wakeOneWaiter hp, ps_gs := (ps_gs s)(g := v)\<rparr>)"
proof (cases "ps_closed s \<or> tl (hp_waiters (ps_hp s)) = []")
  case True
  then show ?thesis using assms(5) by (auto simp: queue_moves_def)
next
  case False
  then obtain ch ws where ws: "hp_waiters (ps_hp s) = ch # ws" by (cases "hp_waiters (ps_hp s)") auto
  have "\<not> runnable ws (ps_gs s g)" using assms(4) by (cases "ps_gs s g" rule: has_slot.cases) auto
  then have "run_count ws (ps_gs s) \<le> run_count ws ((ps_gs s)(g := v))"
    using run_upd [OF assms(3), of ws g v] by auto
  moreover note waiter_popped [OF assms(2,3) ws]
  moreover have "MaxPerHost cfg \<le> hp_inUse (ps_hp s) + int (run_count (ch # ws) (ps_gs s))"
    using assms(1) ws False by (simp add: queue_moves_def)
  ultimately show ?thesis using ws assms(5,6) by (simp add: queue_moves_def del: fun_upd_apply)
qed

lemma moves_still:
  assumes "queue_moves cfg s" and "finite (dom (ps_gs s))" and "hp_waiters hp = hp_waiters (ps_hp s)"
    and "hp_inUse hp + int (if runnable (hp_waiters (ps_hp s)) v then 1 else 0) \<ge>
         hp_inUse (ps_hp s) + int (if runnable (hp_waiters (ps_hp s)) (ps_gs s g) then 1 else 0)"
  shows "queue_moves cfg (s\<lparr>ps_hp := hp, ps_gs := (ps_gs s)(g := v), ps_chan := n\<rparr>)"
  using assms run_upd [OF assms(2), of "hp_waiters (ps_hp s)" g v]
  by (auto simp: queue_moves_def simp del: fun_upd_apply split: if_splits)

lemma moves_cancel:
  assumes q: "queue_moves cfg s" and w: "waiters_ok s" and f: "finite (dom (ps_gs s))"
    and g: "ps_gs s g = Some (Parked ch)"
  shows "queue_moves cfg (s\<lparr>ps_hp := cancel_wait ch (ps_hp s), ps_gs := (ps_gs s)(g := None)\<rparr>)"
proof (cases "ch \<in> set (hp_waiters (ps_hp s))")
  case True
  let ?ws = "hp_waiters (ps_hp s)" and ?f = "(ps_gs s)(g := None)"
  have other: "c \<noteq> ch" if "?f g' = Some (Parked c)" for g' c
    using w g that by (auto simp: waiters_ok_def wait_ok_def split: if_splits)
  have "run_count (remove1 ch ?ws) ?f = run_count ?ws ?f"
    using other by (intro run_count_cong) (auto simp del: fun_upd_apply)
  moreover have "run_count ?ws ?f = run_count ?ws (ps_gs s)"
    using run_upd [OF f, of ?ws g None] True g by simp
  moreover have "?ws \<noteq> []" using True by auto
  ultimately show ?thesis
    using q True by (auto simp: queue_moves_def cancel_wait_def simp del: fun_upd_apply)
next
  case False
  let ?ws = "hp_waiters (ps_hp s)"
  show ?thesis
  proof (cases "ps_closed s \<or> tl ?ws = []")
    case True
    then show ?thesis using False by (auto simp: queue_moves_def cancel_wait_def)
  next
    case nonempty: False
    then obtain c ws where ws: "?ws = c # ws" by (cases ?ws) auto
    have "runnable ws (ps_gs s g)" using False ws g by simp
    then have "run_count ws ((ps_gs s)(g := None)) + 1 = run_count ws (ps_gs s)"
      using run_upd [OF f, of ws g None] by simp
    moreover note waiter_popped [OF w f ws]
    moreover have "MaxPerHost cfg \<le> hp_inUse (ps_hp s) + int (run_count (c # ws) (ps_gs s))"
      using q ws nonempty by (simp add: queue_moves_def)
    ultimately show ?thesis
      using ws False by (simp add: queue_moves_def cancel_wait_def del: fun_upd_apply)
  qed
qed

lemma moves_inv:
  "pool_step cfg s t \<Longrightarrow> counts_ok cfg s \<Longrightarrow> waiters_ok s \<Longrightarrow> queue_moves cfg s \<Longrightarrow> queue_moves cfg t"
proof (induction rule: pool_step.induct)
  case (ps_enter s g)
  then show ?case by (subst same_hp, rule_tac moves_still) (auto simp: counts_ok_def)
next
  case (ps_acquire s g now d hp)
  then have fin: "finite (dom (ps_gs s))" by (simp add: counts_ok_def)
  from ps_acquire(2) show ?case
  proof (cases rule: acquire_section_cases)
    case closed
    then show ?thesis by (simp add: queue_moves_def)
  next
    case wait
    then show ?thesis by (simp add: queue_moves_def)
  next
    case (idle c ping ys ie rest)
    then show ?thesis using ps_acquire(1) by (intro moves_still [OF ps_acquire(5) fin]) auto
  next
    case dial
    then show ?thesis using ps_acquire(1) by (intro moves_still [OF ps_acquire(5) fin]) auto
  qed
next
  case (ps_ping_ok s g c)
  then show ?case by (subst same_hp, rule_tac moves_still) (auto simp: counts_ok_def)
next
  case (ps_ping_fail s g c)
  then show ?case unfolding slot_freed_def by (rule_tac moves_wake) (auto simp: counts_ok_def)
next
  case (ps_dial_ok s g c)
  then show ?case by (subst same_hp, rule_tac moves_still) (auto simp: counts_ok_def)
next
  case (ps_dial_fail s g)
  then show ?case unfolding slot_freed_def by (rule_tac moves_wake) (auto simp: counts_ok_def)
next
  case (ps_wake s g ch)
  then have "ch \<notin> set (hp_waiters (ps_hp s))" by (auto simp: waiters_ok_def wait_ok_def)
  with ps_wake have "queue_moves cfg (s\<lparr>ps_hp := take_token ch (ps_hp s), ps_gs := (ps_gs s)(g \<mapsto> Looping),
      ps_chan := ps_chan s\<rparr>)"
    by (rule_tac moves_still) (auto simp: counts_ok_def take_token_def)
  then show ?case by simp
next
  case (ps_cancel s g ch)
  then show ?case by (intro moves_cancel) (auto simp: counts_ok_def)
next
  case (ps_release s g c now broken pc hp)
  then have "hp = release now (ps_closed s) c broken (ps_hp s)" by (simp add: PooledConn_Release_def)
  then show ?case
    using ps_release unfolding release_def Let_def by (auto simp: counts_ok_def intro!: moves_wake)
next
  case (ps_close s)
  then show ?case by (simp add: queue_moves_def)
next
  case (ps_other s n)
  then show ?case by (simp add: queue_moves_def)
qed

section \<open>Ownership\<close>

lemma owns_Some: "owns x = Some c \<longleftrightarrow> x = Some (Pinging c) \<or> x = Some (Holding c)"
  by (cases x rule: owns.cases) auto

text \<open>A step of goroutine \<open>g\<close> that leaves some of the idle connections and gets no new one.\<close>

lemma owners_keep:
  assumes "owners_ok s" and "ps_gs t = (ps_gs s)(g := v)" and "owns v = None \<or> owns v = owns (ps_gs s g)"
    and "distinct (map ie_conn (hp_idle (ps_hp t)))"
    and "set (hp_idle (ps_hp t)) \<subseteq> set (hp_idle (ps_hp s))"
  shows "owners_ok t"
  unfolding owners_ok_def
proof (intro conjI allI impI)
  have before: "owns (ps_gs s g') = Some c" if "owns (ps_gs t g') = Some c" for g' c
    using assms(3) that unfolding assms(2) by (cases "g' = g") auto
  fix h c assume h: "owns (ps_gs t h) = Some c"
  show "c \<notin> ie_conn ` set (hp_idle (ps_hp t))"
    using assms(1) before [OF h] image_mono [OF assms(5)] unfolding owners_ok_def by (meson subsetD)
  fix h' assume "owns (ps_gs t h') = Some c"
  with assms(1) before [OF h] before show "h' = h" unfolding owners_ok_def by metis
qed (rule assms(4))

text \<open>A step in which \<open>g\<close> gets a connection nobody else has.\<close>

lemma owners_get:
  assumes "owners_ok s" and "ps_gs t = (ps_gs s)(g := v)" and "owns v = Some c"
    and "\<And>g'. owns (ps_gs s g') \<noteq> Some c"
    and "distinct (map ie_conn (hp_idle (ps_hp t)))" and "c \<notin> ie_conn ` set (hp_idle (ps_hp t))"
    and "set (hp_idle (ps_hp t)) \<subseteq> set (hp_idle (ps_hp s))"
  shows "owners_ok t"
  unfolding owners_ok_def
proof (intro conjI allI impI)
  have step: "owns (ps_gs t g') = (if g' = g then Some c else owns (ps_gs s g'))" for g'
    unfolding assms(2) using assms(3) by simp
  fix h d assume h: "owns (ps_gs t h) = Some d"
  show "d \<notin> ie_conn ` set (hp_idle (ps_hp t))"
  proof (cases "h = g")
    case True
    with h step assms(6) show ?thesis by simp
  next
    case False
    with h step have "owns (ps_gs s h) = Some d" by simp
    then show ?thesis using assms(1) image_mono [OF assms(7)] unfolding owners_ok_def by (meson subsetD)
  qed
  fix h' assume h': "owns (ps_gs t h') = Some d"
  show "h' = h"
  proof (cases "h = g \<or> h' = g")
    case True
    with h h' step assms(4) show ?thesis by (auto split: if_splits)
  next
    case False
    with h h' step have "owns (ps_gs s h) = Some d" "owns (ps_gs s h') = Some d" by simp_all
    with assms(1) show ?thesis unfolding owners_ok_def by metis
  qed
qed (rule assms(5))

lemma owners_release:
  assumes "owners_ok s" and "owns (ps_gs s g) = Some c" and "ps_gs t = (ps_gs s)(g := None)"
    and "hp_idle (ps_hp t) = hp_idle (ps_hp s) @ [ie]" and "ie_conn ie = c"
  shows "owners_ok t"
  unfolding owners_ok_def
proof (intro conjI allI impI)
  have c: "c \<notin> ie_conn ` set (hp_idle (ps_hp s))" "\<And>h. owns (ps_gs s h) = Some c \<Longrightarrow> h = g"
    using assms(1,2) unfolding owners_ok_def by metis+
  with assms(1,4,5) show "distinct (map ie_conn (hp_idle (ps_hp t)))" by (simp add: owners_ok_def)
  have before: "owns (ps_gs s h) = Some d \<and> h \<noteq> g" if "owns (ps_gs t h) = Some d" for h d
    using that unfolding assms(3) by (cases "h = g") auto
  fix h d assume h: "owns (ps_gs t h) = Some d"
  then have "d \<noteq> c" using before c(2) by metis
  moreover have "d \<notin> ie_conn ` set (hp_idle (ps_hp s))" using assms(1) before [OF h] unfolding owners_ok_def by metis
  ultimately show "d \<notin> ie_conn ` set (hp_idle (ps_hp t))" unfolding assms(4) using assms(5) by auto
  fix h' assume "owns (ps_gs t h') = Some d"
  with assms(1) before [OF h] before show "h' = h" unfolding owners_ok_def by metis
qed

lemma owners_distinct: "owners_ok s \<Longrightarrow> distinct (map ie_conn (hp_idle (ps_hp s)))"
  by (simp add: owners_ok_def)

lemma owners_acquire:
  assumes "owners_ok s" and "ps_gs s g = Some Looping"
    and "acquire_section cfg now (ps_chan s) (ps_closed s) (ps_hp s) = (d, hp)"
  shows "owners_ok (s\<lparr>ps_hp := hp, ps_gs := (ps_gs s)(g := after_decision (ps_chan s) d), ps_chan := n\<rparr>)"
  using assms(3)
proof (cases rule: acquire_section_cases)
  case closed
  then show ?thesis
    by (intro owners_keep [OF assms(1), where g = g and v = None]) (simp_all add: owners_distinct [OF assms(1)])
next
  case (idle c ping ys ie rest)
  have d: "distinct (map ie_conn (rest @ ie # ys))" using owners_distinct [OF assms(1)] idle(3) by simp
  have free: "owns (ps_gs s g') \<noteq> Some c" for g'
    using assms(1) idle(3,4) unfolding owners_ok_def by auto
  show ?thesis
    by (rule owners_get [OF assms(1), where g = g and c = c and v = "Some (if ping then Pinging c else Holding c)"])
       (use d idle free in auto)
next
  case dial
  then show ?thesis by (intro owners_keep [OF assms(1), where g = g and v = "Some Dialing"]) simp_all
next
  case wait
  then show ?thesis by (intro owners_keep [OF assms(1), where g = g and v = "Some (Parked (ps_chan s))"]) simp_all
qed

lemma owners_inv: "pool_step cfg s t \<Longrightarrow> owners_ok s \<Longrightarrow> owners_ok t"
proof (induction rule: pool_step.induct)
  case (ps_acquire s g now d hp)
  then show ?case by (rule_tac owners_acquire)
next
  case (ps_dial_ok s g c)
  then show ?case
    by (rule_tac s = s and g = g and c = c in owners_get)
       (auto simp: owners_distinct conns_in_use_def owns_Some)
next
  case (ps_release s g c now broken pc hp)
  from ps_release(2) have hp: "hp = release now (ps_closed s) c broken (ps_hp s)" by (simp add: PooledConn_Release_def)
  show ?case
  proof (cases "broken \<or> ps_closed s")
    case True
    then show ?thesis
      by (intro owners_keep [OF ps_release(3), where g = g and v = None])
         (simp_all add: hp release_def Let_def owners_distinct [OF ps_release(3)])
  next
    case False
    then show ?thesis
      by (intro owners_release [OF ps_release(3), where g = g and c = c])
         (auto simp: hp release_def Let_def ps_release(1))
  qed
next
  case (ps_close s)
  then show ?case by (simp add: owners_ok_def close_host_def)
next
  case (ps_other s n)
  then show ?case by (simp add: owners_ok_def)
next
  case (ps_ping_ok s g c)
  then show ?case
    by (rule_tac s = s and g = g and v = "Some (Holding c)" in owners_keep) (simp_all add: owners_distinct)
next
  case (ps_ping_fail s g c)
  then show ?case
    by (rule_tac s = s and g = g and v = "Some Looping" in owners_keep) (simp_all add: owners_distinct slot_freed_def)
next
  case (ps_enter s g)
  then show ?case
    by (rule_tac s = s and g = g and v = "Some Looping" in owners_keep) (simp_all add: owners_distinct)
next
  case (ps_dial_fail s g)
  then show ?case
    by (rule_tac s = s and g = g and v = "None" in owners_keep) (simp_all add: owners_distinct slot_freed_def)
next
  case (ps_wake s g ch)
  then show ?case
    by (rule_tac s = s and g = g and v = "Some Looping" in owners_keep) (simp_all add: owners_distinct take_token_def)
next
  case (ps_cancel s g ch)
  then show ?case
    by (rule_tac s = s and g = g and v = "None" in owners_keep) (simp_all add: owners_distinct cancel_wait_def)
qed

section \<open>The invariant\<close>

definition pool_inv :: "PoolConfig \<Rightarrow> pool_sys \<Rightarrow> bool" where
  "pool_inv cfg s \<longleftrightarrow> counts_ok cfg s \<and> waiters_ok s \<and> queue_moves cfg s \<and> owners_ok s"

interpretation ftp_pool_inv: inductive_invariant
    pool_init "pool_step (NewPool_config cfg)" "pool_inv (NewPool_config cfg)" for cfg
proof
  show "pool_inv (NewPool_config cfg) s" if "pool_init s" for s
    using that by (auto simp: pool_init_def pool_inv_def counts_ok_def waiters_ok_def wait_ok_def queue_moves_def
        owners_ok_def empty_host_def slots_def NewPool_config_def)
  show "pool_inv (NewPool_config cfg) t" if "pool_step (NewPool_config cfg) s t" "pool_inv (NewPool_config cfg) s" for s t
    using that counts_inv waiters_inv moves_inv owners_inv unfolding pool_inv_def by blast
qed

end
