(* ===== verification/Ftp_Pool_Hosts.thy ===== *)
theory Ftp_Pool_Hosts
  imports Ftp_Pool
begin

text \<open>
  The whole \<^verbatim>\<open>Pool\<close> of \<^verbatim>\<open>internal/transports/ftp/pool.go\<close>: a map from hosts to their pools under one
  lock, and goroutines that acquire and release connections of any host. Seen from one host
  the pool is the system of \<open>Ftp_Pool\<close>, so its invariants hold for every host.
\<close>

section \<open>The pool\<close>

record Pool =
  pl_hosts :: "string \<rightharpoonup> hostPool"
  pl_closed :: bool

definition Acquire :: "PoolConfig \<Rightarrow> int \<Rightarrow> nat \<Rightarrow> string \<Rightarrow> Pool \<Rightarrow> decision \<times> Pool" where
  "Acquire cfg now ch host P =
     (if pl_closed P then (D_closed, P)
      else case getHost host (pl_hosts P) of (hp, hosts) \<Rightarrow>
        (case acquire_section cfg now ch (pl_closed P) hp of
           (d, hp') \<Rightarrow> (d, P\<lparr>pl_hosts := hosts(host \<mapsto> hp')\<rparr>)))"

text \<open>The sections after a failed ping or dial dereference \<^verbatim>\<open>p.hosts[host]\<close> without a check.\<close>

definition Acquire_failed :: "string \<Rightarrow> Pool \<Rightarrow> Pool go" where
  "Acquire_failed host P =
     (case pl_hosts P host of
        None \<Rightarrow> Panic ''invalid memory address or nil pointer dereference''
      | Some hp \<Rightarrow> Ret (P\<lparr>pl_hosts := (pl_hosts P)(host \<mapsto> slot_freed hp)\<rparr>))"

definition Acquire_cancelled :: "nat \<Rightarrow> string \<Rightarrow> Pool \<Rightarrow> Pool" where
  "Acquire_cancelled ch host P =
     (case pl_hosts P host of
        None \<Rightarrow> P
      | Some hp \<Rightarrow> P\<lparr>pl_hosts := (pl_hosts P)(host \<mapsto> cancel_wait ch hp)\<rparr>)"

definition Acquire_woken :: "nat \<Rightarrow> string \<Rightarrow> Pool \<Rightarrow> Pool" where
  "Acquire_woken ch host P =
     (case pl_hosts P host of
        None \<Rightarrow> P
      | Some hp \<Rightarrow> P\<lparr>pl_hosts := (pl_hosts P)(host \<mapsto> take_token ch hp)\<rparr>)"

definition Pool_release :: "int \<Rightarrow> string \<Rightarrow> nat \<Rightarrow> bool \<Rightarrow> Pool \<Rightarrow> Pool" where
  "Pool_release now host c broken P =
     (case pl_hosts P host of
        None \<Rightarrow> P
      | Some hp \<Rightarrow> P\<lparr>pl_hosts := (pl_hosts P)(host \<mapsto> release now (pl_closed P) c broken hp)\<rparr>)"

definition Pool_Close :: "Pool \<Rightarrow> Pool" where
  "Pool_Close P = P\<lparr>pl_closed := True, pl_hosts := map_option close_host \<circ> pl_hosts P\<rparr>"

text \<open>
  Opening a connection. \<open>Dial\<close> and \<open>Login\<close> are the FTP client's; a connection that cannot log
  in is quit and not returned.
\<close>

definition dial ::
  "(string \<Rightarrow> duration \<Rightarrow> go_error + 'c) \<Rightarrow> ('c \<Rightarrow> string \<Rightarrow> string \<Rightarrow> go_error option) \<Rightarrow>
   PoolConfig \<Rightarrow> string \<Rightarrow> go_error + 'c"
where
  "dial Dial Login cfg host =
     (case Dial host (DialTimeout cfg) of
        Inl err \<Rightarrow> Inl (wrap_err (''ftp dial '' @ host @ '': '') err)
      | Inr c \<Rightarrow>
          (case Login c (AuthUser cfg) (AuthPassword cfg) of
             Some err \<Rightarrow> Inl (wrap_err (''ftp login '' @ host @ '': '') err)
           | None \<Rightarrow> Inr c))"

section \<open>Goroutines on all hosts\<close>

record pool_world =
  pw_pool :: Pool
  pw_gs :: "nat \<rightharpoonup> string \<times> gstate"
  pw_chan :: nat

definition world_conns :: "pool_world \<Rightarrow> nat set" where
  "world_conns s =
     {c. (\<exists>h hp. pl_hosts (pw_pool s) h = Some hp \<and> c \<in> ie_conn ` set (hp_idle hp)) \<or>
         (\<exists>g h. pw_gs s g = Some (h, Pinging c) \<or> pw_gs s g = Some (h, Holding c))}"

inductive world_step :: "PoolConfig \<Rightarrow> pool_world \<Rightarrow> pool_world \<Rightarrow> bool" for cfg :: PoolConfig where
  pw_enter: "pw_gs s g = None \<Longrightarrow> world_step cfg s (s\<lparr>pw_gs := (pw_gs s)(g \<mapsto> (h, Looping))\<rparr>)"
| pw_acquire: "pw_gs s g = Some (h, Looping) \<Longrightarrow> Acquire cfg now (pw_chan s) h (pw_pool s) = (d, P) \<Longrightarrow>
    world_step cfg s (s\<lparr>pw_pool := P, pw_gs := (pw_gs s)(g := map_option (Pair h) (after_decision (pw_chan s) d)),
      pw_chan := Suc (pw_chan s)\<rparr>)"
| pw_ping_ok: "pw_gs s g = Some (h, Pinging c) \<Longrightarrow>
    world_step cfg s (s\<lparr>pw_gs := (pw_gs s)(g \<mapsto> (h, Holding c))\<rparr>)"
| pw_ping_fail: "pw_gs s g = Some (h, Pinging c) \<Longrightarrow> Acquire_failed h (pw_pool s) = Ret P \<Longrightarrow>
    world_step cfg s (s\<lparr>pw_pool := P, pw_gs := (pw_gs s)(g \<mapsto> (h, Looping))\<rparr>)"
| pw_dial_ok: "pw_gs s g = Some (h, Dialing) \<Longrightarrow> c \<notin> world_conns s \<Longrightarrow>
    world_step cfg s (s\<lparr>pw_gs := (pw_gs s)(g \<mapsto> (h, Holding c))\<rparr>)"
| pw_dial_fail: "pw_gs s g = Some (h, Dialing) \<Longrightarrow> Acquire_failed h (pw_pool s) = Ret P \<Longrightarrow>
    world_step cfg s (s\<lparr>pw_pool := P, pw_gs := (pw_gs s)(g := None)\<rparr>)"
| pw_wake: "pw_gs s g = Some (h, Parked ch) \<Longrightarrow> pl_hosts (pw_pool s) h = Some hp \<Longrightarrow> ch \<in> set (hp_tokens hp) \<Longrightarrow>
    world_step cfg s (s\<lparr>pw_pool := Acquire_woken ch h (pw_pool s), pw_gs := (pw_gs s)(g \<mapsto> (h, Looping))\<rparr>)"
| pw_cancel: "pw_gs s g = Some (h, Parked ch) \<Longrightarrow>
    world_step cfg s (s\<lparr>pw_pool := Acquire_cancelled ch h (pw_pool s), pw_gs := (pw_gs s)(g := None)\<rparr>)"
| pw_release: "pw_gs s g = Some (h, Holding c) \<Longrightarrow>
    world_step cfg s (s\<lparr>pw_pool := Pool_release now h c broken (pw_pool s), pw_gs := (pw_gs s)(g := None)\<rparr>)"
| pw_close: "world_step cfg s (s\<lparr>pw_pool := Pool_Close (pw_pool s)\<rparr>)"

definition world_init :: "pool_world \<Rightarrow> bool" where
  "world_init s \<longleftrightarrow> s = \<lparr>pw_pool = \<lparr>pl_hosts = Map.empty, pl_closed = False\<rparr>, pw_gs = Map.empty, pw_chan = 0\<rparr>"

section \<open>One host of the pool\<close>

definition on_host :: "string \<Rightarrow> (string \<times> gstate) option \<Rightarrow> gstate option" where
  "on_host h x = (case x of None \<Rightarrow> None | Some (h', st) \<Rightarrow> if h' = h then Some st else None)"

definition host_of :: "string \<Rightarrow> Pool \<Rightarrow> hostPool" where
  "host_of h P = (case pl_hosts P h of None \<Rightarrow> empty_host | Some hp \<Rightarrow> hp)"

definition view :: "string \<Rightarrow> pool_world \<Rightarrow> pool_sys" where
  "view h s = \<lparr>ps_closed = pl_closed (pw_pool s), ps_hp = host_of h (pw_pool s),
     ps_gs = (\<lambda>g. on_host h (pw_gs s g)), ps_chan = pw_chan s\<rparr>"

text \<open>A goroutine past its first acquire section has its host in the map.\<close>

definition hosts_known :: "pool_world \<Rightarrow> bool" where
  "hosts_known s \<longleftrightarrow> (\<forall>g h st. pw_gs s g = Some (h, st) \<longrightarrow> st = Looping \<or> pl_hosts (pw_pool s) h \<noteq> None)"

lemma view_simps [simp]:
  "ps_closed (view h s) = pl_closed (pw_pool s)" "ps_hp (view h s) = host_of h (pw_pool s)"
  "ps_gs (view h s) g = on_host h (pw_gs s g)" "ps_chan (view h s) = pw_chan s"
  by (simp_all add: view_def)

lemma on_host_simps [simp]:
  "on_host h None = None" "on_host h (Some (h', st)) = (if h' = h then Some st else None)"
  "on_host h (map_option (Pair h') x) = (if h' = h then x else None)"
  by (auto simp: on_host_def split: option.splits)

lemma on_host_Some: "on_host h x = Some st \<longleftrightarrow> x = Some (h, st)"
  by (auto simp: on_host_def split: option.splits if_splits)

lemma on_host_upd: "(\<lambda>g'. on_host h ((f(g := x)) g')) = (\<lambda>g'. on_host h (f g'))(g := on_host h x)"
  by auto

lemma host_of_simps [simp]:
  "host_of h (P\<lparr>pl_hosts := (pl_hosts P)(h' \<mapsto> hp)\<rparr>) = (if h' = h then hp else host_of h P)"
  "host_of h (Pool_Close P) = close_host (host_of h P)"
  by (auto simp: host_of_def Pool_Close_def close_host_def empty_host_def split: option.splits)

text \<open>The whole pool seen from one host: the step of that host, or nothing but channel numbers.\<close>

lemma view_hit:
  assumes "host_of h P = hp" and "pl_closed P = pl_closed (pw_pool s)"
  shows "view h (s\<lparr>pw_pool := P, pw_gs := (pw_gs s)(g := x), pw_chan := n\<rparr>) =
    (view h s)\<lparr>ps_hp := hp, ps_gs := (ps_gs (view h s))(g := on_host h x), ps_chan := n\<rparr>"
  using assms by (auto simp: view_def on_host_upd)

lemma view_miss:
  assumes "host_of h P = host_of h (pw_pool s)" and "pl_closed P = pl_closed (pw_pool s)"
    and "on_host h (pw_gs s g) = None" and "on_host h x = None"
  shows "view h (s\<lparr>pw_pool := P, pw_gs := (pw_gs s)(g := x), pw_chan := n\<rparr>) = (view h s)\<lparr>ps_chan := n\<rparr>"
  using assms by (auto simp: view_def on_host_upd)

lemma Acquire_view:
  assumes "Acquire cfg now ch h P = (d, P')"
  shows "acquire_section cfg now ch (pl_closed P) (host_of h P) = (d, host_of h P')"
    and "h' \<noteq> h \<Longrightarrow> host_of h' P' = host_of h' P" and "pl_closed P' = pl_closed P"
  using assms by (auto simp: Acquire_def getHost_def host_of_def acquire_section_def split: if_splits option.splits prod.splits)

lemma Acquire_failed_view:
  assumes "Acquire_failed h P = Ret P'"
  shows "host_of h P' = slot_freed (host_of h P)"
    and "h' \<noteq> h \<Longrightarrow> host_of h' P' = host_of h' P" and "pl_closed P' = pl_closed P"
  using assms by (auto simp: Acquire_failed_def host_of_def split: option.splits)

lemma other_ops_view:
  assumes "pl_hosts P h \<noteq> None"
  shows "host_of h (Acquire_cancelled ch h P) = cancel_wait ch (host_of h P)"
    and "host_of h (Acquire_woken ch h P) = take_token ch (host_of h P)"
    and "host_of h (Pool_release now h c broken P) = release now (pl_closed P) c broken (host_of h P)"
  using assms by (auto simp: Acquire_cancelled_def Acquire_woken_def Pool_release_def host_of_def)

lemma other_ops_miss [simp]:
  "h' \<noteq> h \<Longrightarrow> host_of h' (Acquire_cancelled ch h P) = host_of h' P"
  "h' \<noteq> h \<Longrightarrow> host_of h' (Acquire_woken ch h P) = host_of h' P"
  "h' \<noteq> h \<Longrightarrow> host_of h' (Pool_release now h c broken P) = host_of h' P"
  "pl_closed (Acquire_cancelled ch h P) = pl_closed P"
  "pl_closed (Acquire_woken ch h P) = pl_closed P"
  "pl_closed (Pool_release now h c broken P) = pl_closed P"
  by (auto simp: Acquire_cancelled_def Acquire_woken_def Pool_release_def host_of_def split: option.splits)

lemma host_step:
  assumes "pool_step cfg (view h s) ((view h s)\<lparr>ps_hp := hp, ps_gs := (ps_gs (view h s))(g := v), ps_chan := n\<rparr>)"
    and "host_of h P = hp" and "pl_closed P = pl_closed (pw_pool s)" and "on_host h x = v" and "pw_chan s \<le> n"
    and "\<And>k. k \<noteq> h \<Longrightarrow> host_of k P = host_of k (pw_pool s) \<and> on_host k (pw_gs s g) = None \<and> on_host k x = None"
  shows "pool_step cfg (view k s) (view k (s\<lparr>pw_pool := P, pw_gs := (pw_gs s)(g := x), pw_chan := n\<rparr>))"
proof (cases "k = h")
  case True
  then show ?thesis using assms(1,4) view_hit [OF assms(2,3), where g = g and x = x and n = n] by simp
next
  case False
  with assms(3,6) have "view k (s\<lparr>pw_pool := P, pw_gs := (pw_gs s)(g := x), pw_chan := n\<rparr>) = (view k s)\<lparr>ps_chan := n\<rparr>"
    by (intro view_miss) simp_all
  then show ?thesis using assms(5) by (simp add: ps_other)
qed

lemma view_same [simp]:
  "(view h s)\<lparr>ps_hp := hp, ps_gs := f, ps_chan := pw_chan s\<rparr> = (view h s)\<lparr>ps_hp := hp, ps_gs := f\<rparr>"
  "(view h s)\<lparr>ps_gs := f, ps_chan := pw_chan s\<rparr> = (view h s)\<lparr>ps_gs := f\<rparr>"
  "(view h s)\<lparr>ps_hp := host_of h (pw_pool s), ps_gs := f\<rparr> = (view h s)\<lparr>ps_gs := f\<rparr>"
  by (simp_all add: view_def)

lemmas host_step_pool = host_step [where n = "pw_chan s" and s = s for s, simplified]
lemmas host_step_local = host_step [where n = "pw_chan s" and P = "pw_pool s" and hp = "host_of h (pw_pool s)"
    and s = s and h = h for s h, simplified]

lemma world_step_view:
  assumes "world_step cfg s t" and "hosts_known s"
  shows "pool_step cfg (view k s) (view k t)"
  using assms
proof (induction rule: world_step.induct)
  case (pw_enter s g h)
  then show ?case
    using ps_enter [of "view h s" g cfg] by (intro host_step_local [where h = h]) simp_all
next
  case (pw_acquire s g h now d P)
  note A = Acquire_view [OF pw_acquire(2)]
  have "pool_step cfg (view h s) ((view h s)\<lparr>ps_hp := host_of h P,
      ps_gs := (ps_gs (view h s))(g := after_decision (pw_chan s) d), ps_chan := Suc (pw_chan s)\<rparr>)"
    using ps_acquire [of "view h s" g cfg now d "host_of h P"] pw_acquire(1) A(1) by simp
  then show ?case
    by (rule host_step) (use pw_acquire(1) A in simp_all)
next
  case (pw_ping_ok s g h c)
  then show ?case
    using ps_ping_ok [of "view h s" g c cfg] by (intro host_step_local [where h = h]) simp_all
next
  case (pw_ping_fail s g h c P)
  then show ?case
    using ps_ping_fail [of "view h s" g c cfg] Acquire_failed_view [OF pw_ping_fail(2)]
    by (intro host_step_pool [where h = h]) simp_all
next
  case (pw_dial_ok s g h c)
  then have "c \<notin> conns_in_use (view h s)"
    by (auto simp: world_conns_def conns_in_use_def on_host_Some host_of_def empty_host_def split: option.splits)
  with pw_dial_ok show ?case
    using ps_dial_ok [of "view h s" g c cfg] by (intro host_step_local [where h = h]) simp_all
next
  case (pw_dial_fail s g h P)
  then show ?case
    using ps_dial_fail [of "view h s" g cfg] Acquire_failed_view [OF pw_dial_fail(2)]
    by (intro host_step_pool [where h = h]) simp_all
next
  case (pw_wake s g h ch hp)
  from pw_wake(2) have "host_of h (pw_pool s) = hp" by (simp add: host_of_def)
  with pw_wake show ?case
    using ps_wake [of "view h s" g ch cfg] other_ops_view(2) [of "pw_pool s" h ch]
    by (intro host_step_pool [where h = h]) simp_all
next
  case (pw_cancel s g h ch)
  then have "pl_hosts (pw_pool s) h \<noteq> None" by (fastforce simp: hosts_known_def)
  with pw_cancel show ?case
    using ps_cancel [of "view h s" g ch cfg] other_ops_view(1) [of "pw_pool s" h ch]
    by (intro host_step_pool [where h = h]) simp_all
next
  case (pw_release s g h c now broken)
  then have "pl_hosts (pw_pool s) h \<noteq> None" by (fastforce simp: hosts_known_def)
  with pw_release show ?case
    using ps_release [of "view h s" g c now broken] other_ops_view(3) [of "pw_pool s" h now c broken]
    by (intro host_step_pool [where h = h]) (simp_all add: PooledConn_Release_def)
next
  case (pw_close s)
  have "view k (s\<lparr>pw_pool := Pool_Close (pw_pool s)\<rparr>) =
      (view k s)\<lparr>ps_closed := True, ps_hp := close_host (ps_hp (view k s))\<rparr>"
    by (simp add: view_def) (simp add: Pool_Close_def)
  then show ?case by (simp only: ps_close)
qed

section \<open>Invariants of the whole pool\<close>

lemma hosts_known_upd:
  assumes "hosts_known s" and "dom (pl_hosts (pw_pool s)) \<subseteq> dom (pl_hosts (pw_pool t))"
    and "\<And>g h st. pw_gs t g = Some (h, st) \<Longrightarrow>
      st = Looping \<or> h \<in> dom (pl_hosts (pw_pool t)) \<or> (\<exists>st'. pw_gs s g = Some (h, st') \<and> st' \<noteq> Looping)"
  shows "hosts_known t"
  unfolding hosts_known_def
proof (intro allI impI)
  fix g h st assume "pw_gs t g = Some (h, st)"
  from assms(3) [OF this] assms(1) have "st = Looping \<or> h \<in> dom (pl_hosts (pw_pool s)) \<union> dom (pl_hosts (pw_pool t))"
    unfolding hosts_known_def by blast
  with assms(2) show "st = Looping \<or> pl_hosts (pw_pool t) h \<noteq> None" by blast
qed

lemma hosts_known_step: "world_step cfg s t \<Longrightarrow> hosts_known s \<Longrightarrow> hosts_known t"
proof (induction rule: world_step.induct)
  case (pw_acquire s g h now d P)
  have P: "dom (pl_hosts (pw_pool s)) \<subseteq> dom (pl_hosts P)" "d \<noteq> D_closed \<Longrightarrow> h \<in> dom (pl_hosts P)"
    using pw_acquire(2) by (auto simp: Acquire_def getHost_def split: if_splits option.splits prod.splits)
  show ?case
    by (rule hosts_known_upd [OF pw_acquire(3)]) (use P in \<open>cases d; auto split: if_splits\<close>)+
qed (erule hosts_known_upd;
    force simp: Acquire_failed_def Acquire_woken_def Acquire_cancelled_def Pool_release_def Pool_Close_def
      split: if_splits option.splits)+

definition world_inv :: "PoolConfig \<Rightarrow> pool_world \<Rightarrow> bool" where
  "world_inv cfg s \<longleftrightarrow> hosts_known s \<and> (\<forall>h. pool_inv cfg (view h s))"

interpretation ftp_pool_world: inductive_invariant
    world_init "world_step (NewPool_config cfg)" "world_inv (NewPool_config cfg)" for cfg
proof
  fix s t
  show "world_inv (NewPool_config cfg) s" if init: "world_init s"
  proof -
    from init have "pool_init (view h s)" for h
      by (simp add: world_init_def pool_init_def view_def host_of_def)
    then show ?thesis
      using init ftp_pool_inv.inv_init by (simp add: world_inv_def hosts_known_def world_init_def)
  qed
  show "world_inv (NewPool_config cfg) t"
    if "world_step (NewPool_config cfg) s t" "world_inv (NewPool_config cfg) s"
    using that hosts_known_step world_step_view ftp_pool_inv.inv_step unfolding world_inv_def by blast
qed

section \<open>A run\<close>

text \<open>
  One connection per host and three goroutines: the first dials, the other two wait, the pool
  is closed, the first releases its connection and the second wakes up.
\<close>

definition one_per_host :: PoolConfig where
  "one_per_host = NewPool_config \<lparr>MaxPerHost = 1, IdleTTL = 0, NoopAfter = 0, AuthUser = [], AuthPassword = [], DialTimeout = 0\<rparr>"

definition a_world :: "bool \<Rightarrow> hostPool \<Rightarrow> (nat \<rightharpoonup> gstate) \<Rightarrow> nat \<Rightarrow> pool_world" where
  "a_world cl hp gs n = \<lparr>pw_pool = \<lparr>pl_hosts = [''h'' \<mapsto> hp], pl_closed = cl\<rparr>,
     pw_gs = (\<lambda>g. map_option (Pair ''h'') (gs g)), pw_chan = n\<rparr>"

lemma one_per_host_simps [simp]: "MaxPerHost one_per_host = 1" "IdleTTL one_per_host = 5 * Minute"
  by (simp_all add: one_per_host_def NewPool_config_def)

abbreviation "runs \<equiv> reach world_init (world_step one_per_host)"

lemma a_world_simps [simp]:
  "pw_pool (a_world cl hp gs n) = \<lparr>pl_hosts = [''h'' \<mapsto> hp], pl_closed = cl\<rparr>"
  "pw_gs (a_world cl hp gs n) g = map_option (Pair ''h'') (gs g)" "pw_chan (a_world cl hp gs n) = n"
  by (simp_all add: a_world_def)

lemma a_world_upd: "(\<lambda>g'. map_option (Pair h) ((gs(g := v)) g')) = (\<lambda>g'. map_option (Pair h) (gs g'))(g := map_option (Pair h) v)"
  by auto

lemma a_world_eqI:
  assumes "pw_pool s = \<lparr>pl_hosts = [''h'' \<mapsto> hp], pl_closed = cl\<rparr>"
    and "\<And>g. pw_gs s g = map_option (Pair ''h'') (gs g)" and "pw_chan s = n"
  shows "a_world cl hp gs n = s"
  using assms by (cases s) (auto simp: a_world_def)

abbreviation "busy ws \<equiv> \<lparr>hp_idle = [], hp_inUse = 1, hp_waiters = ws, hp_tokens = []\<rparr>"

lemma run_dialing: "runs (a_world False (busy []) [0 \<mapsto> Dialing, 1 \<mapsto> Looping, 2 \<mapsto> Looping] 1)"
proof -
  let ?s = "\<lambda>f. \<lparr>pw_pool = \<lparr>pl_hosts = Map.empty, pl_closed = False\<rparr>, pw_gs = f, pw_chan = 0\<rparr>"
  have "runs (?s Map.empty)" by (rule reach_init) (simp add: world_init_def)
  from reach_step [OF this, OF pw_enter [of _ 0 _ "''h''"]] have "runs (?s [0 \<mapsto> (''h'', Looping)])" by simp
  from reach_step [OF this, OF pw_enter [of _ 1 _ "''h''"]] have "runs (?s [0 \<mapsto> (''h'', Looping), 1 \<mapsto> (''h'', Looping)])" by simp
  from reach_step [OF this, OF pw_enter [of _ 2 _ "''h''"]]
  have "runs (?s [0 \<mapsto> (''h'', Looping), 1 \<mapsto> (''h'', Looping), 2 \<mapsto> (''h'', Looping)])" (is "runs ?u") by simp
  moreover have "world_step one_per_host ?u (a_world False (busy []) [0 \<mapsto> Dialing, 1 \<mapsto> Looping, 2 \<mapsto> Looping] 1)"
    by (subst a_world_eqI, rule_tac [4] pw_acquire [of _ 0 "''h''" _ 0 D_dial])
       (auto simp: Acquire_def getHost_def acquire_section_def empty_host_def)
  ultimately show ?thesis by (rule reach_step)
qed


lemma run_full: "runs (a_world False (busy [1, 2]) [0 \<mapsto> Holding 7, 1 \<mapsto> Parked 1, 2 \<mapsto> Parked 2] 3)"
proof -
  have "world_step one_per_host (a_world False (busy []) [0 \<mapsto> Dialing, 1 \<mapsto> Looping, 2 \<mapsto> Looping] 1)
      (a_world False (busy []) [0 \<mapsto> Holding 7, 1 \<mapsto> Looping, 2 \<mapsto> Looping] 1)"
    by (subst (2) a_world_eqI, rule_tac [4] pw_dial_ok [of _ 0 "''h''" 7]) (auto simp: world_conns_def split: if_splits)
  moreover have "world_step one_per_host (a_world False (busy []) [0 \<mapsto> Holding 7, 1 \<mapsto> Looping, 2 \<mapsto> Looping] 1)
      (a_world False (busy [1]) [0 \<mapsto> Holding 7, 1 \<mapsto> Parked 1, 2 \<mapsto> Looping] 2)"
    by (subst (2) a_world_eqI, rule_tac [4] pw_acquire [of _ 1 "''h''" _ 0 D_wait])
       (auto simp: Acquire_def getHost_def acquire_section_def)
  moreover have "world_step one_per_host (a_world False (busy [1]) [0 \<mapsto> Holding 7, 1 \<mapsto> Parked 1, 2 \<mapsto> Looping] 2)
      (a_world False (busy [1, 2]) [0 \<mapsto> Holding 7, 1 \<mapsto> Parked 1, 2 \<mapsto> Parked 2] 3)"
    by (subst (2) a_world_eqI, rule_tac [4] pw_acquire [of _ 2 "''h''" _ 0 D_wait])
       (auto simp: Acquire_def getHost_def acquire_section_def)
  ultimately show ?thesis using run_dialing by (meson reach_step)
qed

definition stranded_world :: pool_world where
  "stranded_world = a_world True \<lparr>hp_idle = [], hp_inUse = 0, hp_waiters = [2], hp_tokens = []\<rparr> [2 \<mapsto> Parked 2] 4"

lemma run_stranded: "runs stranded_world"
proof -
  let ?hp = "\<lparr>hp_idle = [], hp_inUse = 0, hp_waiters = [2], hp_tokens = [1]\<rparr>"
  have "world_step one_per_host (a_world False (busy [1, 2]) [0 \<mapsto> Holding 7, 1 \<mapsto> Parked 1, 2 \<mapsto> Parked 2] 3)
      (a_world True (busy [1, 2]) [0 \<mapsto> Holding 7, 1 \<mapsto> Parked 1, 2 \<mapsto> Parked 2] 3)"
    by (subst (2) a_world_eqI, rule_tac [4] pw_close) (auto simp: Pool_Close_def close_host_def)
  moreover have "world_step one_per_host (a_world True (busy [1, 2]) [0 \<mapsto> Holding 7, 1 \<mapsto> Parked 1, 2 \<mapsto> Parked 2] 3)
      (a_world True ?hp [1 \<mapsto> Parked 1, 2 \<mapsto> Parked 2] 3)"
    by (subst (2) a_world_eqI, rule_tac [4] pw_release [of _ 0 "''h''" 7 _ 0 False])
       (auto simp: Pool_release_def release_def wakeOneWaiter_def)
  moreover have "world_step one_per_host (a_world True ?hp [1 \<mapsto> Parked 1, 2 \<mapsto> Parked 2] 3)
      (a_world True (?hp\<lparr>hp_tokens := []\<rparr>) [1 \<mapsto> Looping, 2 \<mapsto> Parked 2] 3)"
    by (subst (2) a_world_eqI, rule_tac [4] pw_wake [of _ 1 "''h''" 1]) (auto simp: Acquire_woken_def take_token_def)
  moreover have "world_step one_per_host (a_world True (?hp\<lparr>hp_tokens := []\<rparr>) [1 \<mapsto> Looping, 2 \<mapsto> Parked 2] 3) stranded_world"
    unfolding stranded_world_def
    by (subst (2) a_world_eqI, rule_tac [4] pw_acquire [of _ 1 "''h''" _ 0 D_closed]) (auto simp: Acquire_def)
  ultimately show ?thesis using run_full by (meson reach_step)
qed

text \<open>
  A waiter of a closed pool that nobody will wake: the goroutines of its host wait like it or
  are about to find the pool closed.
\<close>

definition stranded :: "nat \<Rightarrow> string \<Rightarrow> nat \<Rightarrow> pool_world \<Rightarrow> bool" where
  "stranded g h ch s \<longleftrightarrow> pl_closed (pw_pool s) \<and> pw_gs s g = Some (h, Parked ch) \<and>
     distinct (hp_waiters (host_of h (pw_pool s))) \<and> hp_tokens (host_of h (pw_pool s)) = [] \<and>
     (\<forall>g' st. pw_gs s g' = Some (h, st) \<longrightarrow>
        st = Looping \<or> (\<exists>c \<in> set (hp_waiters (host_of h (pw_pool s))). st = Parked c)) \<and>
     inj_on (pw_gs s) {k. \<exists>c. pw_gs s k = Some (h, Parked c)}"

lemma stranded_upd:
  assumes "stranded g h ch s" and "pl_closed P" and "g' \<noteq> g"
    and "hp_tokens (host_of h P) = []" and "distinct (hp_waiters (host_of h P))"
    and "set (hp_waiters (host_of h P)) \<supseteq> set (hp_waiters (host_of h (pw_pool s))) - {c. pw_gs s g' = Some (h, Parked c)}"
    and "x = None \<or> x = Some (h, Looping) \<or> fst (the x) \<noteq> h"
  shows "stranded g h ch (s\<lparr>pw_pool := P, pw_gs := (pw_gs s)(g' := x), pw_chan := n\<rparr>)"
proof -
  have "st = Looping \<or> (\<exists>c \<in> set (hp_waiters (host_of h P)). st = Parked c)"
    if k: "((pw_gs s)(g' := x)) k = Some (h, st)" for k st
  proof (cases "k = g'")
    case True
    with k assms(7) show ?thesis by auto
  next
    case False
    with k have "pw_gs s k = Some (h, st)" by simp
    moreover from this assms(1) have "st = Looping \<or> (\<exists>c \<in> set (hp_waiters (host_of h (pw_pool s))). st = Parked c)"
      unfolding stranded_def by metis
    moreover have "pw_gs s g' \<noteq> Some (h, Parked c)" if "pw_gs s k = Some (h, Parked c)" for c
      using that False inj_onD [of "pw_gs s" "{k. \<exists>c. pw_gs s k = Some (h, Parked c)}" k g'] assms(1)
      by (auto simp: stranded_def)
    ultimately show ?thesis using assms(6) by auto
  qed
  moreover have "inj_on ((pw_gs s)(g' := x)) {k. \<exists>c. ((pw_gs s)(g' := x)) k = Some (h, Parked c)}"
  proof -
    have "{k. \<exists>c. ((pw_gs s)(g' := x)) k = Some (h, Parked c)} = {k. \<exists>c. pw_gs s k = Some (h, Parked c)} - {g'}"
      using assms(7) by auto
    moreover have "inj_on (pw_gs s) ({k. \<exists>c. pw_gs s k = Some (h, Parked c)} - {g'})"
      using assms(1) by (simp add: stranded_def inj_on_diff)
    ultimately show ?thesis by (simp add: inj_on_def)
  qed
  ultimately show ?thesis using assms(1-5) by (simp add: stranded_def)
qed

lemmas stranded_upd_pool = stranded_upd [where n = "pw_chan s" and s = s for s, simplified]
lemmas stranded_upd_local = stranded_upd [where n = "pw_chan s" and P = "pw_pool s" and s = s for s, simplified]

lemma stranded_others: "stranded g h ch s \<Longrightarrow> pw_gs s g' = Some (h', st) \<Longrightarrow> has_slot (Some st) \<Longrightarrow> h' \<noteq> h"
  by (fastforce simp: stranded_def)

lemma stranded_facts:
  assumes "stranded g h ch s"
  shows "pl_closed (pw_pool s)" "pw_gs s g = Some (h, Parked ch)" "distinct (hp_waiters (host_of h (pw_pool s)))"
    "hp_tokens (host_of h (pw_pool s)) = []"
  using assms by (simp_all add: stranded_def)

lemma stranded_step:
  assumes "world_step cfg s t" and "stranded g h ch s" and "pw_gs t g \<noteq> None"
  shows "stranded g h ch t"
  using assms
proof (induction rule: world_step.induct)
  case (pw_enter s g' h')
  then show ?case by (rule_tac s = s and g' = g' in stranded_upd_local) (auto simp: stranded_facts)
next
  case (pw_acquire s g' h' now d P)
  then show ?case by (rule_tac s = s and g' = g' in stranded_upd) (auto simp: stranded_facts Acquire_def)
next
  case (pw_ping_ok s g' h' c)
  have "h' \<noteq> h" using stranded_others [OF pw_ping_ok(2,1)] by simp
  with pw_ping_ok show ?case by (rule_tac s = s and g' = g' in stranded_upd_local) (auto simp: stranded_facts)
next
  case (pw_ping_fail s g' h' c P)
  have "h' \<noteq> h" using stranded_others [OF pw_ping_fail(3,1)] by simp
  with pw_ping_fail show ?case using Acquire_failed_view [OF pw_ping_fail(2)]
    by (rule_tac s = s and g' = g' in stranded_upd_pool) (auto simp: stranded_facts)
next
  case (pw_dial_ok s g' h' c)
  have "h' \<noteq> h" using stranded_others [OF pw_dial_ok(3,1)] by simp
  with pw_dial_ok show ?case by (rule_tac s = s and g' = g' in stranded_upd_local) (auto simp: stranded_facts)
next
  case (pw_dial_fail s g' h' P)
  have "h' \<noteq> h" using stranded_others [OF pw_dial_fail(3,1)] by simp
  with pw_dial_fail show ?case using Acquire_failed_view [OF pw_dial_fail(2)]
    by (rule_tac s = s and g' = g' in stranded_upd_pool) (auto simp: stranded_facts)
next
  case (pw_wake s g' h' c hp)
  then have "h' \<noteq> h" by (auto simp: stranded_def host_of_def)
  with pw_wake show ?case by (rule_tac s = s and g' = g' in stranded_upd_pool) (auto simp: stranded_facts)
next
  case (pw_cancel s g' h' c)
  then have g: "g' \<noteq> g" by auto
  show ?case
  proof (cases "h' = h")
    case True
    with pw_cancel have c: "c \<in> set (hp_waiters (host_of h (pw_pool s)))" by (auto simp: stranded_def)
    then have "pl_hosts (pw_pool s) h \<noteq> None"
      by (cases "pl_hosts (pw_pool s) h") (simp_all add: host_of_def empty_host_def)
    with other_ops_view(1) [of "pw_pool s" h c] True pw_cancel g c show ?thesis
      by (rule_tac s = s and g' = g' in stranded_upd_pool) (auto simp: stranded_facts cancel_wait_def)
  next
    case False
    with pw_cancel g show ?thesis by (rule_tac s = s and g' = g' in stranded_upd_pool) (auto simp: stranded_facts)
  qed
next
  case (pw_release s g' h' c now broken)
  have "h' \<noteq> h" using stranded_others [OF pw_release(2,1)] by simp
  with pw_release show ?case by (rule_tac s = s and g' = g' in stranded_upd_pool) (auto simp: stranded_facts)
next
  case (pw_close s)
  then show ?case by (auto simp: stranded_def close_host_def) (simp add: Pool_Close_def)
qed

section \<open>Properties\<close>

lemma world_reach_inv:
  assumes "reach world_init (world_step (NewPool_config cfg)) s" and "pl_hosts (pw_pool s) h = Some hp"
  shows "pool_inv (NewPool_config cfg) (view h s)" and "host_of h (pw_pool s) = hp"
  using ftp_pool_world.reach_inv [OF assms(1)] assms(2) by (simp_all add: world_inv_def host_of_def)

lemma has_slot_on_host:
  "has_slot (on_host h x) \<longleftrightarrow> x = Some (h, Dialing) \<or> (\<exists>c. x = Some (h, Pinging c) \<or> x = Some (h, Holding c))"
  by (cases "on_host h x" rule: has_slot.cases) (auto simp: on_host_def split: option.splits if_splits)

text \<open>
  C26. The cap of the FTP pool: in every reachable state, whatever goroutines acquire, ping, dial, wait,
  give up, release or close, the counter of a host is the number of goroutines that occupy one
  of its connections, and connections in use and idle together never exceed the configured maximum.
\<close>
theorem pool_cap:
  assumes "reach world_init (world_step (NewPool_config cfg)) s" and "pl_hosts (pw_pool s) h = Some hp"
  shows "hp_inUse hp = int (card {g. pw_gs s g = Some (h, Dialing) \<or>
           (\<exists>c. pw_gs s g = Some (h, Pinging c) \<or> pw_gs s g = Some (h, Holding c))}) \<and>
    hp_inUse hp + int (length (hp_idle hp)) \<le> MaxPerHost (NewPool_config cfg)"
  using world_reach_inv [OF assms]
  by (simp add: pool_inv_def counts_ok_def slots_def has_slot_on_host)

theorem pool_cap_witness:
  "hp_inUse (busy [1, 2]) + int (length (hp_idle (busy [1, 2]))) \<le> MaxPerHost one_per_host"
  using pool_cap [OF run_full [unfolded one_per_host_def], of "''h''" "busy [1, 2]"] by simp

text \<open>
  C27. No lost wake-ups: while the pool is open, if a host has waiters and none of its goroutines is
  about to try again, then every connection the cap allows is occupied by a goroutine (and its
  release wakes a waiter); a waiter never sleeps beside a free slot or an idle connection.
\<close>
theorem pool_waiters_not_stranded:
  assumes "reach world_init (world_step (NewPool_config cfg)) s" and "pl_hosts (pw_pool s) h = Some hp"
    and "\<not> pl_closed (pw_pool s)" and "hp_waiters hp \<noteq> []"
    and "\<And>g. pw_gs s g \<noteq> Some (h, Looping)"
    and "\<And>g ch. pw_gs s g = Some (h, Parked ch) \<Longrightarrow> ch \<in> set (hp_waiters hp)"
  shows "hp_inUse hp = MaxPerHost (NewPool_config cfg) \<and> hp_idle hp = []"
proof -
  note inv = world_reach_inv [OF assms(1,2)]
  have "\<not> runnable (hp_waiters hp) (on_host h (pw_gs s g))" for g
    using assms(5,6) by (cases "on_host h (pw_gs s g)" rule: owns.cases) (auto simp: on_host_Some)
  then have "hp_inUse hp \<ge> MaxPerHost (NewPool_config cfg)"
    using inv assms(3,4) by (simp add: pool_inv_def queue_moves_def)
  moreover have "hp_inUse hp + int (length (hp_idle hp)) \<le> MaxPerHost (NewPool_config cfg)"
    using inv by (simp add: pool_inv_def counts_ok_def)
  ultimately have "length (hp_idle hp) = 0" "hp_inUse hp = MaxPerHost (NewPool_config cfg)" by linarith+
  then show ?thesis by simp
qed

theorem pool_waiters_not_stranded_witness:
  "hp_inUse (busy [1, 2]) = MaxPerHost one_per_host \<and> hp_idle (busy [1, 2]) = []"
  unfolding one_per_host_def
  by (rule pool_waiters_not_stranded [OF run_full [unfolded one_per_host_def], of "''h''" "busy [1, 2]"])
     (auto split: if_splits)

text \<open>
  C28. Connections are exclusive: a connection that a goroutine pings or holds is not in the idle list,
  no other goroutine of the host has it, and no connection is in the idle list twice.
\<close>
theorem pool_connections_exclusive:
  assumes "reach world_init (world_step (NewPool_config cfg)) s" and "pl_hosts (pw_pool s) h = Some hp"
    and "pw_gs s g = Some (h, st)" and "st = Pinging c \<or> st = Holding c"
  shows "c \<notin> ie_conn ` set (hp_idle hp) \<and> distinct (map ie_conn (hp_idle hp)) \<and>
    {k. pw_gs s k = Some (h, Pinging c) \<or> pw_gs s k = Some (h, Holding c)} = {g}"
proof -
  note inv = world_reach_inv [OF assms(1,2)]
  have own: "owners_ok (view h s)" using inv(1) by (simp add: pool_inv_def)
  have g: "owns (ps_gs (view h s) g) = Some c" using assms(3,4) by auto
  have "k = g" if "pw_gs s k = Some (h, Pinging c) \<or> pw_gs s k = Some (h, Holding c)" for k
  proof -
    have "owns (ps_gs (view h s) k) = Some c" using that by auto
    with own g show ?thesis unfolding owners_ok_def by metis
  qed
  moreover have "c \<notin> ie_conn ` set (hp_idle hp)" using own g inv(2) unfolding owners_ok_def by (metis view_simps(2))
  moreover have "distinct (map ie_conn (hp_idle hp))" using owners_distinct [OF own] inv(2) by simp
  ultimately show ?thesis using assms(3,4) by auto
qed

theorem pool_connections_exclusive_witness:
  "7 \<notin> ie_conn ` set (hp_idle (busy [1, 2]))"
  using pool_connections_exclusive [OF run_full [unfolded one_per_host_def], of "''h''" "busy [1, 2]" 0 "Holding 7" 7] by simp

text \<open>
  C29. Hosts are independent: seen from any host, a step of the whole pool is a step of that host's
  own pool (or only uses up a channel), so the pool with its map refines one pool per host.
\<close>
theorem pool_hosts_independent:
  assumes "reach world_init (world_step (NewPool_config cfg)) s" and "world_step (NewPool_config cfg) s t"
  shows "pool_step (NewPool_config cfg) (view h s) (view h t)"
  using world_step_view [OF assms(2)] ftp_pool_world.reach_inv [OF assms(1)] by (simp add: world_inv_def)

theorem pool_hosts_independent_witness:
  "pool_step one_per_host (view ''other'' (a_world False (busy [1, 2]) [0 \<mapsto> Holding 7, 1 \<mapsto> Parked 1, 2 \<mapsto> Parked 2] 3))
     (view ''other'' ((a_world False (busy [1, 2]) [0 \<mapsto> Holding 7, 1 \<mapsto> Parked 1, 2 \<mapsto> Parked 2] 3)
       \<lparr>pw_pool := Pool_Close \<lparr>pl_hosts = [''h'' \<mapsto> busy [1, 2]], pl_closed = False\<rparr>\<rparr>))"
  unfolding one_per_host_def
  by (rule pool_hosts_independent [OF run_full [unfolded one_per_host_def]])
     (use pw_close [where s = "a_world False (busy [1, 2]) [0 \<mapsto> Holding 7, 1 \<mapsto> Parked 1, 2 \<mapsto> Parked 2] 3"] in simp)

text \<open>
  Closing strands waiters: \<^verbatim>\<open>Close\<close> wakes nobody and a waiter that finds the pool closed wakes nobody
  either. With one connection per host there is a reachable state of a closed pool in which a goroutine waits
  in \<^verbatim>\<open>Acquire\<close> and from which no run ever wakes it, unless its own context ends.
\<close>
lemma pool_close_strands_waiter:
  "\<exists>s. reach world_init (world_step one_per_host) s \<and> pl_closed (pw_pool s) \<and>
     {t. (\<lambda>a b. world_step one_per_host a b \<and> pw_gs b 2 \<noteq> None)\<^sup>*\<^sup>* s t} \<subseteq> {t. pw_gs t 2 = Some (''h'', Parked 2)}"
proof (intro exI conjI)
  show "runs stranded_world" by (rule run_stranded)
  show "pl_closed (pw_pool stranded_world)" by (simp add: stranded_world_def)
  have start: "stranded 2 ''h'' 2 stranded_world"
    by (auto simp: stranded_def stranded_world_def host_of_def inj_on_def split: if_splits)
  have "stranded 2 ''h'' 2 t" if "(\<lambda>a b. world_step one_per_host a b \<and> pw_gs b 2 \<noteq> None)\<^sup>*\<^sup>* stranded_world t" for t
    using that by (induction rule: rtranclp_induct) (auto intro: start stranded_step)
  then show "{t. (\<lambda>a b. world_step one_per_host a b \<and> pw_gs b 2 \<noteq> None)\<^sup>*\<^sup>* stranded_world t}
      \<subseteq> {t. pw_gs t 2 = Some (''h'', Parked 2)}"
    by (auto simp: stranded_def)
qed

end
