(* ===== verification/Observability.thy ===== *)
theory Observability
  imports Worker
begin

text \<open>
  \<^verbatim>\<open>internal/health/server.go\<close> and \<^verbatim>\<open>internal/metrics\<close>: the health endpoints and the counters, gauges and
  scrape-time collectors, with the callbacks the worker command wires to them. A counter family is a function from
  its label values to its value.
\<close>

section \<open>Health (server.go)\<close>

text \<open>Clock readings are nanoseconds; \<open>None\<close> is Go's zero \<^verbatim>\<open>time.Time\<close>.\<close>

record Status =
  LastLeaseAttemptTS :: "int option"
  LastLeaseSuccessTS :: "int option"
  LastSweepTS :: "int option"

definition NewStatus :: Status where
  "NewStatus = \<lparr>LastLeaseAttemptTS = None, LastLeaseSuccessTS = None, LastSweepTS = None\<rparr>"

definition Status_OnLeaseAttempt :: "int \<Rightarrow> int \<Rightarrow> bool \<Rightarrow> Status \<Rightarrow> Status" where
  "Status_OnLeaseAttempt now now' success s =
     (let s1 = s\<lparr>LastLeaseAttemptTS := Some now\<rparr> in if success then s1\<lparr>LastLeaseSuccessTS := Some now'\<rparr> else s1)"

definition Status_OnSweepCycle :: "int \<Rightarrow> Status \<Rightarrow> Status" where
  "Status_OnSweepCycle now s = s\<lparr>LastSweepTS := Some now\<rparr>"

record 'h Server =
  sv_metrics :: "'h option"
  sv_liveAfter :: duration

definition DefaultLivenessThreshold :: duration where
  "DefaultLivenessThreshold = 10 * Second"

datatype 'h server_option = WithMetrics "'h option" | WithLivenessThreshold duration

fun apply_option :: "'h Server \<Rightarrow> 'h server_option \<Rightarrow> 'h Server" where
  "apply_option s (WithMetrics h) = (case h of None \<Rightarrow> s | Some _ \<Rightarrow> s\<lparr>sv_metrics := h\<rparr>)"
| "apply_option s (WithLivenessThreshold d) = s\<lparr>sv_liveAfter := d\<rparr>"

definition NewServer :: "'h server_option list \<Rightarrow> 'h Server" where
  "NewServer opts = foldl apply_option \<lparr>sv_metrics = None, sv_liveAfter = DefaultLivenessThreshold\<rparr> opts"

definition livez :: "'h Server \<Rightarrow> int \<Rightarrow> Status \<Rightarrow> int" where
  "livez s now st =
     (if sv_liveAfter s > 0 then
        (case LastLeaseAttemptTS st of
           None \<Rightarrow> 200
         | Some t \<Rightarrow> if now - t > sv_liveAfter s then 503 else 200)
      else 200)"

text \<open>\<open>ping\<close> is the error of the database ping within two seconds, if any; the reply is the code and the body.\<close>

definition readyz :: "go_error option \<Rightarrow> int \<times> string" where
  "readyz ping = (case ping of Some err \<Rightarrow> (503, err_text err) | None \<Rightarrow> (200, []))"

datatype health_value = TimeOf "int option" | CountOf int

definition healthz :: "int \<Rightarrow> int \<Rightarrow> int \<Rightarrow> Status \<Rightarrow> int \<times> (string \<times> health_value) list" where
  "healthz in_use idle mx st =
     (200, [(''last_lease_attempt_ts'', TimeOf (LastLeaseAttemptTS st)),
            (''last_lease_success_ts'', TimeOf (LastLeaseSuccessTS st)),
            (''last_sweep_ts'', TimeOf (LastSweepTS st)),
            (''pool_in_use'', CountOf in_use), (''pool_idle'', CountOf idle), (''pool_max'', CountOf mx)])"

text \<open>The paths that are served.\<close>

definition served :: "'h Server \<Rightarrow> string \<Rightarrow> bool" where
  "served s path \<longleftrightarrow> path \<in> {''/livez'', ''/readyz'', ''/healthz''} \<or> path = ''/metrics'' \<and> sv_metrics s \<noteq> None"

section \<open>Metrics (metrics.go)\<close>

record Metrics =
  leaseAttempts :: "string \<Rightarrow> int"
  jobsProcessed :: "string \<times> string \<times> string \<Rightarrow> int"
  jobRetries :: "string \<times> string \<times> string \<Rightarrow> int"
  jobDuration :: "string \<times> string \<times> string \<Rightarrow> duration list"
  sweepCycles :: int
  retentionRows :: int
  ftpPoolSize :: "string \<times> string \<Rightarrow> int"
  snifferEnq :: "string \<Rightarrow> int"
  snifferErr :: "string \<Rightarrow> int"
  snifferLastRun :: "string \<Rightarrow> int"
  workersActive :: "string \<Rightarrow> int"
  snifferLast :: "string \<rightharpoonup> int"

definition New_metrics :: Metrics where
  "New_metrics = \<lparr>leaseAttempts = (\<lambda>_. 0), jobsProcessed = (\<lambda>_. 0), jobRetries = (\<lambda>_. 0), jobDuration = (\<lambda>_. []),
     sweepCycles = 0, retentionRows = 0, ftpPoolSize = (\<lambda>_. 0), snifferEnq = (\<lambda>_. 0), snifferErr = (\<lambda>_. 0),
     snifferLastRun = (\<lambda>_. 0), workersActive = (\<lambda>_. 0), snifferLast = Map.empty\<rparr>"

definition inc :: "'l \<Rightarrow> int \<Rightarrow> ('l \<Rightarrow> int) \<Rightarrow> 'l \<Rightarrow> int" where
  "inc l n c = c(l := c l + n)"

definition or_unknown :: "string \<Rightarrow> string" where
  "or_unknown s = (if s = [] then ''unknown'' else s)"

definition m_OnLeaseAttempt :: "bool \<Rightarrow> go_error option \<Rightarrow> Metrics \<Rightarrow> Metrics" where
  "m_OnLeaseAttempt success err m =
     m\<lparr>leaseAttempts := inc (if err \<noteq> None then ''error'' else if success then ''success'' else ''empty'') 1 (leaseAttempts m)\<rparr>"

definition m_OnJobFinished :: "string \<Rightarrow> string \<Rightarrow> string \<Rightarrow> duration \<Rightarrow> Metrics \<Rightarrow> Metrics" where
  "m_OnJobFinished src dst result dur m =
     (let l = (or_unknown src, or_unknown dst, or_unknown result) in
      m\<lparr>jobsProcessed := inc l 1 (jobsProcessed m), jobDuration := (jobDuration m)(l := jobDuration m l @ [dur])\<rparr>)"

definition m_OnRetry :: "string \<Rightarrow> string \<Rightarrow> string \<Rightarrow> Metrics \<Rightarrow> Metrics" where
  "m_OnRetry src dst stage m = m\<lparr>jobRetries := inc (or_unknown src, or_unknown dst, or_unknown stage) 1 (jobRetries m)\<rparr>"

definition m_OnSweepCycle :: "Metrics \<Rightarrow> Metrics" where
  "m_OnSweepCycle m = m\<lparr>sweepCycles := sweepCycles m + 1\<rparr>"

definition m_OnRetention :: "int \<Rightarrow> Metrics \<Rightarrow> Metrics" where
  "m_OnRetention deleted m = m\<lparr>retentionRows := retentionRows m + deleted\<rparr>"

definition m_OnSnifferEnqueue :: "string \<Rightarrow> int \<Rightarrow> Metrics \<Rightarrow> Metrics" where
  "m_OnSnifferEnqueue source n m = m\<lparr>snifferEnq := inc source n (snifferEnq m)\<rparr>"

definition m_OnSnifferError :: "string \<Rightarrow> Metrics \<Rightarrow> Metrics" where
  "m_OnSnifferError source m = m\<lparr>snifferErr := inc source 1 (snifferErr m)\<rparr>"

definition m_OnSnifferRun :: "int \<Rightarrow> string \<Rightarrow> Metrics \<Rightarrow> Metrics" where
  "m_OnSnifferRun now source m =
     m\<lparr>snifferLastRun := (snifferLastRun m)(source := now div Second), snifferLast := (snifferLast m)(source \<mapsto> now)\<rparr>"

definition m_OnFTPPoolChange :: "string \<Rightarrow> int \<Rightarrow> int \<Rightarrow> Metrics \<Rightarrow> Metrics" where
  "m_OnFTPPoolChange host inUse idle m =
     m\<lparr>ftpPoolSize := (ftpPoolSize m)((host, ''in_use'') := inUse, (host, ''idle'') := idle)\<rparr>"

definition m_SetWorkersActive :: "string \<Rightarrow> int \<Rightarrow> Metrics \<Rightarrow> Metrics" where
  "m_SetWorkersActive pod n m = m\<lparr>workersActive := (workersActive m)(pod := n)\<rparr>"

section \<open>Collectors\<close>

fun status_text :: "job_status \<Rightarrow> string" where
  "status_text Pending = ''pending''"
| "status_text Leased = ''leased''"
| "status_text Succeeded = ''succeeded''"
| "status_text Skipped = ''skipped''"
| "status_text Dead = ''dead''"

text \<open>\<^verbatim>\<open>SELECT status, COUNT(*) ... GROUP BY status\<close>: one sample for each status that occurs. When the iteration
  over the groups fails, the samples of the groups \<open>seen\<close> so far are kept.\<close>

definition queue_depth_Collect :: "go_error option \<Rightarrow> (job_status \<Rightarrow> bool) \<Rightarrow> db \<Rightarrow> (string \<times> int) list" where
  "queue_depth_Collect err seen D =
     (case err of
        Some _ \<Rightarrow> []
      | None \<Rightarrow> map (\<lambda>st. (status_text st, int (count_if (\<lambda>j. Status j = st) (transfer_jobs D))))
                 (filter (\<lambda>st. seen st \<and> (\<exists>j \<in> set (transfer_jobs D). Status j = st)) [Pending, Leased, Succeeded, Skipped, Dead]))"

text \<open>An age in seconds, as the server converts the interval to double precision.\<close>

definition age_seconds :: "timestamp \<Rightarrow> timestamp \<Rightarrow> rat" where
  "age_seconds now t = fl (of_int (now - t) / 1000000)"

definition lease_lock_age :: "go_error option \<Rightarrow> timestamp \<Rightarrow> db \<Rightarrow> rat" where
  "lease_lock_age err now D =
     (case err of
        Some _ \<Rightarrow> 0
      | None \<Rightarrow>
          (case List.map_filter LockedAt (filter (\<lambda>j. Status j = Leased) (transfer_jobs D)) of
             [] \<Rightarrow> 0
           | t # ts \<Rightarrow> age_seconds now (fold min ts t)))"

definition oldest_pending_age :: "go_error option \<Rightarrow> timestamp \<Rightarrow> db \<Rightarrow> rat" where
  "oldest_pending_age err now D =
     (case err of
        Some _ \<Rightarrow> 0
      | None \<Rightarrow>
          (case map NextRunAt (filter (\<lambda>j. Status j = Pending \<and> NextRunAt j \<le> now) (transfer_jobs D)) of
             [] \<Rightarrow> 0
           | t # ts \<Rightarrow> age_seconds now (fold min ts t)))"

definition sniffer_lag_Collect :: "int \<Rightarrow> Metrics \<Rightarrow> string \<rightharpoonup> rat" where
  "sniffer_lag_Collect now m source =
     map_option (\<lambda>ts. let lag = duration_seconds (now - ts) in if lag < 0 then 0 else lag) (snifferLast m source)"

definition db_pool_Collect :: "int \<Rightarrow> int \<Rightarrow> int \<Rightarrow> (string \<times> int) list" where
  "db_pool_Collect acquired idle mx = [(''in_use'', acquired), (''idle'', idle), (''max'', mx)]"

section \<open>The worker's callbacks\<close>

text \<open>
  What the worker command attaches to the runner: every callback goes to the health status and the metrics.
  The state also has the gauge of running workers; \<open>now\<close> is the clock at the callback.
\<close>

record observers =
  ob_status :: Status
  ob_metrics :: Metrics
  ob_workers :: int

fun observe :: "string \<Rightarrow> Job \<Rightarrow> int \<Rightarrow> duration \<Rightarrow> action \<Rightarrow> observers \<Rightarrow> observers" where
  "observe pod job now dur (OnLeaseAttempt success) s =
     s\<lparr>ob_status := Status_OnLeaseAttempt now now success (ob_status s), ob_metrics := m_OnLeaseAttempt success None (ob_metrics s)\<rparr>"
| "observe pod job now dur (OnFinish result) s =
     s\<lparr>ob_metrics := m_OnJobFinished (SrcProtocol job) (DstProtocol job) result dur (ob_metrics s)\<rparr>"
| "observe pod job now dur (OnRetry stage) s =
     s\<lparr>ob_metrics := m_OnRetry (SrcProtocol job) (DstProtocol job) stage (ob_metrics s)\<rparr>"
| "observe pod job now dur OnWorkerStart s =
     s\<lparr>ob_workers := ob_workers s + 1, ob_metrics := m_SetWorkersActive pod (ob_workers s + 1) (ob_metrics s)\<rparr>"
| "observe pod job now dur OnWorkerStop s =
     s\<lparr>ob_workers := ob_workers s - 1, ob_metrics := m_SetWorkersActive pod (ob_workers s - 1) (ob_metrics s)\<rparr>"
| "observe pod job now dur BodyClosed s = s"
| "observe pod job now dur WakeAll s = s"
| "observe pod job now dur WaitOnce s = s"

text \<open>A sequence of callbacks, each with the job it is about, the clock and the job's duration.\<close>

fun observe_all :: "string \<Rightarrow> (Job \<times> int \<times> duration \<times> action) list \<Rightarrow> observers \<Rightarrow> observers" where
  "observe_all pod [] s = s"
| "observe_all pod ((job, now, dur, a) # cs) s = observe_all pod cs (observe pod job now dur a s)"

section \<open>Properties\<close>

definition finish_label :: "Job \<Rightarrow> string \<Rightarrow> string \<times> string \<times> string" where
  "finish_label job result = (or_unknown (SrcProtocol job), or_unknown (DstProtocol job), or_unknown result)"

definition finishes :: "string \<times> string \<times> string \<Rightarrow> Job \<Rightarrow> action \<Rightarrow> bool" where
  "finishes l job a = (case a of OnFinish result \<Rightarrow> finish_label job result = l | _ \<Rightarrow> False)"

lemma observe_counts:
  "leaseAttempts (ob_metrics (observe pod job now dur a s)) ''success'' =
     leaseAttempts (ob_metrics s) ''success'' + (if a = OnLeaseAttempt True then 1 else 0)"
  "leaseAttempts (ob_metrics (observe pod job now dur a s)) ''empty'' =
     leaseAttempts (ob_metrics s) ''empty'' + (if a = OnLeaseAttempt False then 1 else 0)"
  "leaseAttempts (ob_metrics (observe pod job now dur a s)) ''error'' = leaseAttempts (ob_metrics s) ''error''"
  "jobsProcessed (ob_metrics (observe pod job now dur a s)) l =
     jobsProcessed (ob_metrics s) l + (if finishes l job a then 1 else 0)"
  "int (length (jobDuration (ob_metrics (observe pod job now dur a s)) l)) =
     int (length (jobDuration (ob_metrics s) l)) + (if finishes l job a then 1 else 0)"
  "ob_workers (observe pod job now dur a s) =
     ob_workers s + (if a = OnWorkerStart then 1 else 0) - (if a = OnWorkerStop then 1 else 0)"
  by (cases a; simp add: m_OnLeaseAttempt_def m_OnJobFinished_def m_OnRetry_def m_SetWorkersActive_def inc_def
      finish_label_def finishes_def Let_def)+

lemma count_if_Cons_int: "int (count_if p (x # xs)) = (if p x then 1 else 0) + int (count_if p xs)"
  by simp

text \<open>
  The counters count the worker's callbacks, whatever their order and number: successful lease attempts and all
  other attempts each under their label and none as errors, finished jobs under their protocols and result, with
  one duration recorded for each, and the gauge of active workers is the number of starts minus the number of stops.
\<close>
lemma metrics_count_callbacks:
  "let s' = observe_all pod cs s; m = ob_metrics s; m' = ob_metrics s' in
   leaseAttempts m' ''success'' = leaseAttempts m ''success'' + int (count_if (\<lambda>(_, _, _, a). a = OnLeaseAttempt True) cs) \<and>
   leaseAttempts m' ''empty'' = leaseAttempts m ''empty'' + int (count_if (\<lambda>(_, _, _, a). a = OnLeaseAttempt False) cs) \<and>
   leaseAttempts m' ''error'' = leaseAttempts m ''error'' \<and>
   jobsProcessed m' l = jobsProcessed m l +
     int (count_if (\<lambda>(job, _, _, a). finishes l job a) cs) \<and>
   int (length (jobDuration m' l)) = int (length (jobDuration m l)) + int (count_if (\<lambda>(job, _, _, a). finishes l job a) cs) \<and>
   ob_workers s' = ob_workers s + int (count_if (\<lambda>(_, _, _, a). a = OnWorkerStart) cs) -
     int (count_if (\<lambda>(_, _, _, a). a = OnWorkerStop) cs)"
proof (induction cs arbitrary: s)
  case (Cons c cs)
  obtain job now dur a where c: "c = (job, now, dur, a)" by (cases c)
  show ?case
    using Cons.IH [of "observe pod job now dur a s"]
    by (simp add: c Let_def observe_counts count_if_Cons_int del: count_if_simps observe.simps split del: if_split)
qed simp

text \<open>
  \<^verbatim>\<open>/livez\<close> fails exactly when the liveness check is enabled and the last lease attempt is older than the threshold;
  a process that never attempts a lease is always live. After an attempt the answer is positive until the threshold has passed.
\<close>
lemma livez_answer:
  "livez s now st = (if sv_liveAfter s > 0 \<and> (\<exists>t. LastLeaseAttemptTS st = Some t \<and> now - t > sv_liveAfter s) then 503 else 200) \<and>
   livez s now NewStatus = 200 \<and>
   livez s (t + max 0 (min d (sv_liveAfter s))) (Status_OnLeaseAttempt t t' ok st) = 200"
  by (auto simp: livez_def NewStatus_def Status_OnLeaseAttempt_def Let_def split: option.splits)

text \<open>
  The worker loop attempts a lease only between jobs. So when all workers of a pod are busy with jobs they leased
  more than the threshold ago, the pod is reported dead although nothing is stuck.
\<close>

lemma livez_fails_while_busy:
  "livez (NewServer []) (t + 10 * Second + 1)
     (ob_status (observe_all pod [(job1, t, d1, OnLeaseAttempt True), (job2, t, d2, OnLeaseAttempt True)] s)) = 503"
  by (simp add: livez_def NewServer_def DefaultLivenessThreshold_def Status_OnLeaseAttempt_def Let_def)

text \<open>A lease attempt that fails in the database is counted as an empty queue.\<close>

lemma lease_error_counted_empty:
  assumes "LeaseJob out now skip lb (it_pre it D) = (Inl err, D1)" and "it_lease it = out" "it_now it = now" "it_skip it = skip"
  shows "\<exists>rest w' D'. loop_turn r lb it w D = (OnLeaseAttempt False # rest, w', D') \<and>
    leaseAttempts (ob_metrics (observe pod job t d (OnLeaseAttempt False) s)) ''empty'' = leaseAttempts (ob_metrics s) ''empty'' + 1"
  using assms by (simp add: loop_turn_def m_OnLeaseAttempt_def inc_def)

lemma count_if_sum:
  "int (length xs) = sum_list (map (\<lambda>st. int (count_if (\<lambda>j. Status j = st) xs)) [Pending, Leased, Succeeded, Skipped, Dead])"
proof (induction xs)
  case (Cons x xs)
  then show ?case by (cases "Status x") simp_all
qed simp

lemma sum_list_filter_zero: "(\<And>x. x \<in> set xs \<Longrightarrow> \<not> P x \<Longrightarrow> f x = 0) \<Longrightarrow> sum_list (map f (filter P xs)) = sum_list (map f xs)"
  for f :: "'a \<Rightarrow> int"
  by (induction xs) auto

lemma fold_min: "fold min ts t \<in> set (t # ts) \<and> (\<forall>u \<in> set (t # ts). fold min ts t \<le> u)" for t :: int
proof -
  have "Min (set (t # ts)) \<in> set (t # ts)" by (rule Min_in) simp_all
  moreover have "\<forall>u \<in> set (t # ts). Min (set (t # ts)) \<le> u" by (intro ballI Min_le) simp_all
  ultimately show ?thesis unfolding Min.set_eq_fold by blast
qed

lemma oldest_pending_cases:
  "if \<exists>j \<in> set (transfer_jobs D). Status j = Pending \<and> NextRunAt j \<le> now
   then \<exists>j \<in> set (transfer_jobs D). Status j = Pending \<and> NextRunAt j \<le> now \<and>
     oldest_pending_age None now D = age_seconds now (NextRunAt j) \<and>
     {k \<in> set (transfer_jobs D). Status k = Pending \<and> NextRunAt k < NextRunAt j} = {}
   else oldest_pending_age None now D = 0"
proof -
  let ?due = "filter (\<lambda>j. Status j = Pending \<and> NextRunAt j \<le> now) (transfer_jobs D)"
  show ?thesis
  proof (cases "map NextRunAt ?due")
    case Nil
    then have "?due = []" by simp
    then have "\<not> (\<exists>j \<in> set (transfer_jobs D). Status j = Pending \<and> NextRunAt j \<le> now)" by (auto simp: filter_empty_conv)
    with Nil show ?thesis by (auto simp: oldest_pending_age_def)
  next
    case (Cons t ts)
    have set: "set (t # ts) = NextRunAt ` set ?due" by (metis Cons set_map)
    have "fold min ts t \<in> NextRunAt ` set ?due" using fold_min [of ts t] unfolding set by blast
    then obtain j where j: "j \<in> set ?due" "NextRunAt j = fold min ts t" by auto
    have least: "NextRunAt j \<le> NextRunAt k" if "k \<in> set ?due" for k
      using fold_min [of ts t] that unfolding set j(2) by blast
    have "False" if k: "k \<in> set (transfer_jobs D)" "Status k = Pending" "NextRunAt k < NextRunAt j" for k
      using least [of k] k j(1) by simp
    then have none: "{k \<in> set (transfer_jobs D). Status k = Pending \<and> NextRunAt k < NextRunAt j} = {}" by blast
    have age: "oldest_pending_age None now D = age_seconds now (NextRunAt j)"
      using Cons j(2) by (simp add: oldest_pending_age_def)
    have in_due: "j \<in> set (transfer_jobs D)" "Status j = Pending \<and> NextRunAt j \<le> now" using j(1) by simp_all
    have due: "\<exists>j \<in> set (transfer_jobs D). Status j = Pending \<and> NextRunAt j \<le> now" using in_due by blast
    show ?thesis unfolding if_P [OF due]
      by (rule bexI [OF _ in_due(1)]) (intro conjI in_due(2) [THEN conjunct1] in_due(2) [THEN conjunct2] age none)
  qed
qed

text \<open>
  The scraped gauges describe the table: without a database error the samples per status add up to the number of rows,
  each status that occurs has a positive sample and no other has one; the age of the oldest pending job is that of a
  pending row that is due and that no due row has waited longer than, and zero when none is due.
\<close>
lemma gauges_describe_queue:
  "sum_list (map snd (queue_depth_Collect None (\<lambda>_. True) D)) = int (length (transfer_jobs D)) \<and>
   fst ` set (queue_depth_Collect None (\<lambda>_. True) D) = status_text ` Status ` set (transfer_jobs D) \<and>
   list_all (\<lambda>(_, n). 0 < n) (queue_depth_Collect None (\<lambda>_. True) D) \<and>
   (if \<exists>j \<in> set (transfer_jobs D). Status j = Pending \<and> NextRunAt j \<le> now
    then \<exists>j \<in> set (transfer_jobs D). Status j = Pending \<and> NextRunAt j \<le> now \<and>
      oldest_pending_age None now D = age_seconds now (NextRunAt j) \<and>
      {k \<in> set (transfer_jobs D). Status k = Pending \<and> NextRunAt k < NextRunAt j} = {}
    else oldest_pending_age None now D = 0)"
proof (intro conjI)
  let ?n = "\<lambda>st. int (count_if (\<lambda>j. Status j = st) (transfer_jobs D))"
  let ?all = "[Pending, Leased, Succeeded, Skipped, Dead]"
  have zero: "?n st = 0" if "\<not> (\<exists>j \<in> set (transfer_jobs D). Status j = st)" for st
    using that by (simp add: count_if_zero_iff)
  show "sum_list (map snd (queue_depth_Collect None (\<lambda>_. True) D)) = int (length (transfer_jobs D))"
    unfolding count_if_sum [of "transfer_jobs D"]
    using sum_list_filter_zero [of ?all "\<lambda>st. \<exists>j \<in> set (transfer_jobs D). Status j = st" ?n] zero
    by (simp add: queue_depth_Collect_def comp_def del: filter.simps list.map)
  have "set ?all = UNIV" using job_status.exhaust by auto
  then have "set (filter (\<lambda>st. \<exists>j \<in> set (transfer_jobs D). Status j = st) ?all) = Status ` set (transfer_jobs D)"
    unfolding set_filter by blast
  then show "fst ` set (queue_depth_Collect None (\<lambda>_. True) D) = status_text ` Status ` set (transfer_jobs D)"
    by (simp add: queue_depth_Collect_def image_image del: filter.simps list.map)
  show "list_all (\<lambda>(_, n). 0 < n) (queue_depth_Collect None (\<lambda>_. True) D)"
    by (auto simp: queue_depth_Collect_def list_all_iff count_if_def filter_empty_conv)
  show "if \<exists>j \<in> set (transfer_jobs D). Status j = Pending \<and> NextRunAt j \<le> now
    then \<exists>j \<in> set (transfer_jobs D). Status j = Pending \<and> NextRunAt j \<le> now \<and>
      oldest_pending_age None now D = age_seconds now (NextRunAt j) \<and>
      {k \<in> set (transfer_jobs D). Status k = Pending \<and> NextRunAt k < NextRunAt j} = {}
    else oldest_pending_age None now D = 0"
    by (rule oldest_pending_cases)
qed

end
