(* ===== verification/Pool_Gauge.thy ===== *)
theory Pool_Gauge
  imports Ftp_Pool_Hosts Observability
begin

text \<open>
  The FTP pool together with the gauge that reports it: \<^verbatim>\<open>OnPoolChange\<close> of \<^verbatim>\<open>internal/transports/ftp/pool.go\<close>, wired to
  \<^verbatim>\<open>Metrics.OnFTPPoolChange\<close> by the worker command. A critical section takes a snapshot of the counters under the lock;
  the goroutine reports it after it has released the lock, so that other goroutines can come in between.
\<close>

section \<open>Snapshots and writes\<close>

definition snapshot :: "string \<Rightarrow> Pool \<Rightarrow> int \<times> int" where
  "snapshot h P = (hp_inUse (host_of h P), int (length (hp_idle (host_of h P))))"

text \<open>The two writes of \<^verbatim>\<open>OnFTPPoolChange\<close>, in their order; each is atomic.\<close>

definition pool_change_writes :: "string \<Rightarrow> int \<times> int \<Rightarrow> ((string \<times> string) \<times> int) list" where
  "pool_change_writes h sn = [((h, ''in_use''), fst sn), ((h, ''idle''), snd sn)]"

definition gauge_set :: "(string \<times> string) \<times> int \<Rightarrow> Metrics \<Rightarrow> Metrics" where
  "gauge_set x m = m\<lparr>ftpPoolSize := (ftpPoolSize m)(fst x := snd x)\<rparr>"

lemma pool_change_writes_all: "fold gauge_set (pool_change_writes h (u, i)) m = m_OnFTPPoolChange h u i m"
  by (simp add: pool_change_writes_def gauge_set_def m_OnFTPPoolChange_def)

section \<open>Which sections report\<close>

text \<open>The steps of a goroutine on the pool, split by whether they end in a call of \<^verbatim>\<open>OnPoolChange\<close>.\<close>

inductive notifying :: "PoolConfig \<Rightarrow> nat \<Rightarrow> string \<Rightarrow> pool_world \<Rightarrow> pool_world \<Rightarrow> bool" for cfg g h where
  no_acquire: "pw_gs s g = Some (h, Looping) \<Longrightarrow> Acquire cfg now (pw_chan s) h (pw_pool s) = (d, P) \<Longrightarrow>
    d = D_dial \<or> d = D_idle c ping \<Longrightarrow>
    notifying cfg g h s (s\<lparr>pw_pool := P, pw_gs := (pw_gs s)(g := map_option (Pair h) (after_decision (pw_chan s) d)),
      pw_chan := Suc (pw_chan s)\<rparr>)"
| no_ping_fail: "pw_gs s g = Some (h, Pinging c) \<Longrightarrow> Acquire_failed h (pw_pool s) = Ret P \<Longrightarrow>
    notifying cfg g h s (s\<lparr>pw_pool := P, pw_gs := (pw_gs s)(g \<mapsto> (h, Looping))\<rparr>)"
| no_dial_fail: "pw_gs s g = Some (h, Dialing) \<Longrightarrow> Acquire_failed h (pw_pool s) = Ret P \<Longrightarrow>
    notifying cfg g h s (s\<lparr>pw_pool := P, pw_gs := (pw_gs s)(g := None)\<rparr>)"
| no_release: "pw_gs s g = Some (h, Holding c) \<Longrightarrow> pl_hosts (pw_pool s) h \<noteq> None \<Longrightarrow>
    notifying cfg g h s (s\<lparr>pw_pool := Pool_release now h c broken (pw_pool s), pw_gs := (pw_gs s)(g := None)\<rparr>)"

inductive quiet :: "PoolConfig \<Rightarrow> nat \<Rightarrow> pool_world \<Rightarrow> pool_world \<Rightarrow> bool" for cfg g where
  qu_enter: "pw_gs s g = None \<Longrightarrow> quiet cfg g s (s\<lparr>pw_gs := (pw_gs s)(g \<mapsto> (h, Looping))\<rparr>)"
| qu_acquire: "pw_gs s g = Some (h, Looping) \<Longrightarrow> Acquire cfg now (pw_chan s) h (pw_pool s) = (d, P) \<Longrightarrow>
    d = D_closed \<or> d = D_wait \<Longrightarrow>
    quiet cfg g s (s\<lparr>pw_pool := P, pw_gs := (pw_gs s)(g := map_option (Pair h) (after_decision (pw_chan s) d)),
      pw_chan := Suc (pw_chan s)\<rparr>)"
| qu_ping_ok: "pw_gs s g = Some (h, Pinging c) \<Longrightarrow> quiet cfg g s (s\<lparr>pw_gs := (pw_gs s)(g \<mapsto> (h, Holding c))\<rparr>)"
| qu_dial_ok: "pw_gs s g = Some (h, Dialing) \<Longrightarrow> c \<notin> world_conns s \<Longrightarrow>
    quiet cfg g s (s\<lparr>pw_gs := (pw_gs s)(g \<mapsto> (h, Holding c))\<rparr>)"
| qu_wake: "pw_gs s g = Some (h, Parked ch) \<Longrightarrow> pl_hosts (pw_pool s) h = Some hp \<Longrightarrow> ch \<in> set (hp_tokens hp) \<Longrightarrow>
    quiet cfg g s (s\<lparr>pw_pool := Acquire_woken ch h (pw_pool s), pw_gs := (pw_gs s)(g \<mapsto> (h, Looping))\<rparr>)"
| qu_cancel: "pw_gs s g = Some (h, Parked ch) \<Longrightarrow>
    quiet cfg g s (s\<lparr>pw_pool := Acquire_cancelled ch h (pw_pool s), pw_gs := (pw_gs s)(g := None)\<rparr>)"

lemma notifying_world_step: "notifying cfg g h s t \<Longrightarrow> world_step cfg s t"
  by (induction rule: notifying.induct) (auto intro: world_step.intros)

lemma quiet_world_step: "quiet cfg g s t \<Longrightarrow> world_step cfg s t"
  by (induction rule: quiet.induct) (auto intro: world_step.intros)

section \<open>Pool and gauge\<close>

record gauge_world =
  gw_world :: pool_world
  gw_pending :: "nat \<Rightarrow> ((string \<times> string) \<times> int) list"
  gw_metrics :: Metrics

text \<open>A goroutine makes its pending writes before it goes on.\<close>

inductive gauge_step :: "PoolConfig \<Rightarrow> gauge_world \<Rightarrow> gauge_world \<Rightarrow> bool" for cfg where
  ga_notify: "gw_pending s g = [] \<Longrightarrow> notifying cfg g h (gw_world s) w \<Longrightarrow>
    gauge_step cfg s (s\<lparr>gw_world := w, gw_pending := (gw_pending s)(g := pool_change_writes h (snapshot h (pw_pool w)))\<rparr>)"
| ga_quiet: "gw_pending s g = [] \<Longrightarrow> quiet cfg g (gw_world s) w \<Longrightarrow> gauge_step cfg s (s\<lparr>gw_world := w\<rparr>)"
| ga_write: "gw_pending s g = x # xs \<Longrightarrow>
    gauge_step cfg s (s\<lparr>gw_pending := (gw_pending s)(g := xs), gw_metrics := gauge_set x (gw_metrics s)\<rparr>)"
| ga_close: "gauge_step cfg s (s\<lparr>gw_world := (gw_world s)\<lparr>pw_pool := Pool_Close (pw_pool (gw_world s))\<rparr>\<rparr>)"

definition gauge_init :: "gauge_world \<Rightarrow> bool" where
  "gauge_init s \<longleftrightarrow> world_init (gw_world s) \<and> gw_pending s = (\<lambda>_. []) \<and> gw_metrics s = New_metrics"

lemma gauge_world_step: "gauge_step cfg s t \<Longrightarrow> gw_world t = gw_world s \<or> world_step cfg (gw_world s) (gw_world t)"
  by (induction rule: gauge_step.induct) (auto intro: notifying_world_step quiet_world_step pw_close)

section \<open>The gauge stays within the cap\<close>

definition in_cap :: "PoolConfig \<Rightarrow> int \<Rightarrow> bool" where
  "in_cap cfg n \<longleftrightarrow> 0 \<le> n \<and> n \<le> MaxPerHost cfg"

definition gauge_inv :: "PoolConfig \<Rightarrow> gauge_world \<Rightarrow> bool" where
  "gauge_inv cfg s \<longleftrightarrow> world_inv cfg (gw_world s) \<and> (\<forall>l. in_cap cfg (ftpPoolSize (gw_metrics s) l)) \<and>
     (\<forall>g. list_all (\<lambda>x. in_cap cfg (snd x)) (gw_pending s g))"

lemma snapshot_in_cap:
  assumes "world_inv cfg w"
  shows "in_cap cfg (fst (snapshot h (pw_pool w)))" and "in_cap cfg (snd (snapshot h (pw_pool w)))"
proof -
  have "counts_ok cfg (view h w)" using assms by (simp add: world_inv_def pool_inv_def)
  then show "in_cap cfg (fst (snapshot h (pw_pool w)))" and "in_cap cfg (snd (snapshot h (pw_pool w)))"
    by (simp_all add: counts_ok_def in_cap_def snapshot_def)
qed

interpretation pool_gauge: inductive_invariant
    gauge_init "gauge_step (NewPool_config cfg)" "gauge_inv (NewPool_config cfg)" for cfg
proof
  fix s t
  show "gauge_inv (NewPool_config cfg) s" if "gauge_init s"
    using that ftp_pool_world.inv_init [of "gw_world s" cfg]
    by (auto simp: gauge_init_def gauge_inv_def in_cap_def New_metrics_def NewPool_config_def)
  show "gauge_inv (NewPool_config cfg) t" if st: "gauge_step (NewPool_config cfg) s t" and inv: "gauge_inv (NewPool_config cfg) s"
  proof -
    have w: "world_inv (NewPool_config cfg) (gw_world t)"
      using gauge_world_step [OF st] inv ftp_pool_world.inv_step by (metis gauge_inv_def)
    from st show ?thesis
    proof (cases rule: gauge_step.cases)
      case (ga_notify g h w)
      with w have "world_inv (NewPool_config cfg) w" by simp
      from snapshot_in_cap [OF this, of h] ga_notify inv w show ?thesis
        by (auto simp: gauge_inv_def pool_change_writes_def)
    next
      case (ga_write g x xs)
      then have "list_all (\<lambda>y. in_cap (NewPool_config cfg) (snd y)) (x # xs)" using inv by (metis gauge_inv_def)
      with ga_write inv w show ?thesis by (auto simp: gauge_inv_def gauge_set_def)
    qed (use inv w in \<open>auto simp: gauge_inv_def\<close>)
  qed
qed

section \<open>When the gauge is exact\<close>

definition settled :: "gauge_world \<Rightarrow> bool" where
  "settled s \<longleftrightarrow> (\<forall>g. gw_pending s g = [])"

definition shows_counts :: "gauge_world \<Rightarrow> bool" where
  "shows_counts s \<longleftrightarrow> (\<forall>h. ftpPoolSize (gw_metrics s) (h, ''in_use'') = fst (snapshot h (pw_pool (gw_world s))) \<and>
     ftpPoolSize (gw_metrics s) (h, ''idle'') = snd (snapshot h (pw_pool (gw_world s))))"

text \<open>
  Steps that do not overlap: the pool changes only when no report is pending, it is not closed, and nobody starts to
  wait on a host that still has idle connections (which have then all expired and are dropped without a report).
\<close>

definition serial_step :: "PoolConfig \<Rightarrow> gauge_world \<Rightarrow> gauge_world \<Rightarrow> bool" where
  "serial_step cfg s t \<longleftrightarrow> gauge_step cfg s t \<and> (gw_world t = gw_world s \<or> settled s) \<and>
     \<not> pl_closed (pw_pool (gw_world t)) \<and>
     (\<forall>h. length (hp_waiters (host_of h (pw_pool (gw_world s)))) < length (hp_waiters (host_of h (pw_pool (gw_world t)))) \<longrightarrow>
       hp_idle (host_of h (pw_pool (gw_world s))) = [])"

lemma notifying_moves: "notifying cfg g h s t \<Longrightarrow> t \<noteq> s"
proof (induction rule: notifying.induct)
  case (no_acquire s now d P c ping)
  then show ?case by (metis pool_world.select_convs(3) pool_world.surjective pool_world.update_convs(3) n_not_Suc_n)
next
  case (no_ping_fail s c P)
  have "pw_gs (s\<lparr>pw_pool := P, pw_gs := (pw_gs s)(g \<mapsto> (h, Looping))\<rparr>) g \<noteq> pw_gs s g" using no_ping_fail(1) by simp
  then show ?case by metis
next
  case (no_dial_fail s P)
  have "pw_gs (s\<lparr>pw_pool := P, pw_gs := (pw_gs s)(g := None)\<rparr>) g \<noteq> pw_gs s g" using no_dial_fail(1) by simp
  then show ?case by metis
next
  case (no_release s c now broken)
  have "pw_gs (s\<lparr>pw_pool := Pool_release now h c broken (pw_pool s), pw_gs := (pw_gs s)(g := None)\<rparr>) g \<noteq> pw_gs s g"
    using no_release(1) by simp
  then show ?case by metis
qed

lemma notifying_others:
  assumes "notifying cfg g h s t" and "k \<noteq> h"
  shows "snapshot k (pw_pool t) = snapshot k (pw_pool s)"
  using assms
  by (cases rule: notifying.cases) (auto simp: snapshot_def dest: Acquire_view(2) Acquire_failed_view(2))

lemma wakeOneWaiter_counts [simp]: "hp_inUse (wakeOneWaiter hp) = hp_inUse hp" "hp_idle (wakeOneWaiter hp) = hp_idle hp"
  by (simp_all add: wakeOneWaiter_def split: list.splits)

lemma scan_idle_None: "scan_idle now ttl xs = (None, rest) \<Longrightarrow> rest = []"
  by (induction xs) (auto split: if_splits)

lemma acquire_section_waits:
  assumes "acquire_section cfg now ch cl hp = (d, hp')" and "d = D_closed \<or> d = D_wait"
  shows "hp' = hp \<or> hp' = hp\<lparr>hp_idle := [], hp_waiters := hp_waiters hp @ [ch]\<rparr>"
  using assms by (auto simp: acquire_section_def dest: scan_idle_None split: if_splits prod.splits option.splits)

lemma quiet_counts:
  assumes "quiet cfg g s t" and "hosts_known s"
    and "\<forall>h. length (hp_waiters (host_of h (pw_pool s))) < length (hp_waiters (host_of h (pw_pool t))) \<longrightarrow>
      hp_idle (host_of h (pw_pool s)) = []"
  shows "snapshot k (pw_pool t) = snapshot k (pw_pool s)"
  using assms(1)
proof (cases rule: quiet.cases)
  case (qu_acquire h now d P)
  note A = Acquire_view [OF qu_acquire(3)]
  show ?thesis
  proof (cases "k = h")
    case True
    with acquire_section_waits [OF A(1) qu_acquire(4)] assms(3) qu_acquire(1) show ?thesis by (auto simp: snapshot_def)
  qed (use qu_acquire A in \<open>simp add: snapshot_def\<close>)
next
  case (qu_wake h ch hp)
  then show ?thesis
    by (cases "k = h") (auto simp: snapshot_def other_ops_view take_token_def)
next
  case (qu_cancel h ch)
  then have "pl_hosts (pw_pool s) h \<noteq> None" using assms(2) by (fastforce simp: hosts_known_def)
  with qu_cancel show ?thesis
    by (cases "k = h") (auto simp: snapshot_def other_ops_view cancel_wait_def)
qed (simp_all add: snapshot_def)

text \<open>What the gauge will show once the pending writes of one goroutine are made.\<close>

definition serial_inv :: "PoolConfig \<Rightarrow> gauge_world \<Rightarrow> bool" where
  "serial_inv cfg s \<longleftrightarrow> world_inv cfg (gw_world s) \<and>
     (\<exists>g. (\<forall>g'. g' \<noteq> g \<longrightarrow> gw_pending s g' = []) \<and>
       shows_counts (s\<lparr>gw_metrics := fold gauge_set (gw_pending s g) (gw_metrics s)\<rparr>))"

lemma shows_counts_notify:
  assumes "shows_counts s" and "notifying cfg g h (gw_world s) w"
  shows "shows_counts (s\<lparr>gw_world := w, gw_pending := p,
    gw_metrics := fold gauge_set (pool_change_writes h (snapshot h (pw_pool w))) (gw_metrics s)\<rparr>)"
  using assms notifying_others [OF assms(2)]
  by (auto simp: shows_counts_def pool_change_writes_def gauge_set_def)

lemma shows_counts_pending [simp]: "shows_counts (s\<lparr>gw_pending := p, gw_metrics := m\<rparr>) = shows_counts (s\<lparr>gw_metrics := m\<rparr>)"
  by (simp add: shows_counts_def)

interpretation pool_gauge_serial: inductive_invariant
    gauge_init "serial_step (NewPool_config cfg)" "serial_inv (NewPool_config cfg)" for cfg
proof
  fix s t
  show "serial_inv (NewPool_config cfg) s" if "gauge_init s"
    using that ftp_pool_world.inv_init [of "gw_world s" cfg]
    by (auto simp: gauge_init_def serial_inv_def shows_counts_def New_metrics_def snapshot_def host_of_def world_init_def empty_host_def)
  show "serial_inv (NewPool_config cfg) t" if ss: "serial_step (NewPool_config cfg) s t" and inv: "serial_inv (NewPool_config cfg) s"
  proof -
    have st: "gauge_step (NewPool_config cfg) s t" using ss by (simp add: serial_step_def)
    have w: "world_inv (NewPool_config cfg) (gw_world t)"
      using gauge_world_step [OF st] inv ftp_pool_world.inv_step by (metis serial_inv_def)
    obtain g0 where g0: "\<forall>g'. g' \<noteq> g0 \<longrightarrow> gw_pending s g' = []"
      "shows_counts (s\<lparr>gw_metrics := fold gauge_set (gw_pending s g0) (gw_metrics s)\<rparr>)"
      using inv by (auto simp: serial_inv_def)
    from st show ?thesis
    proof (cases rule: gauge_step.cases)
      case (ga_notify g h w')
      then have "gw_world t \<noteq> gw_world s" using notifying_moves by auto
      with ss have set: "settled s" by (simp add: serial_step_def)
      then have "shows_counts s" using g0(2) by (simp add: settled_def)
      from shows_counts_notify [OF this ga_notify(3)] ga_notify(1) set w show ?thesis
        by (auto simp: serial_inv_def settled_def intro!: exI [of _ g])
    next
      case (ga_quiet g w')
      have "snapshot k (pw_pool w') = snapshot k (pw_pool (gw_world s))" for k
        using quiet_counts [OF ga_quiet(3)] inv ss ga_quiet(1) by (simp add: serial_inv_def world_inv_def serial_step_def)
      with ga_quiet(1) g0 w show ?thesis by (auto simp: serial_inv_def shows_counts_def)
    next
      case (ga_write g x xs)
      then have "g = g0" using g0(1) by force
      with ga_write g0 w show ?thesis by (auto simp: serial_inv_def intro!: exI [of _ g0])
    next
      case ga_close
      then show ?thesis using ss by (simp add: serial_step_def Pool_Close_def)
    qed
  qed
qed

section \<open>Runs\<close>

definition two_per_host :: PoolConfig where
  "two_per_host = \<lparr>MaxPerHost = 2, IdleTTL = 0, NoopAfter = 0, AuthUser = [], AuthPassword = [], DialTimeout = 0\<rparr>"

definition dialed :: "int \<Rightarrow> (nat \<rightharpoonup> string \<times> gstate) \<Rightarrow> nat \<Rightarrow> pool_world" where
  "dialed n gs ch = \<lparr>pw_pool = \<lparr>pl_hosts = [''h'' \<mapsto> \<lparr>hp_idle = [], hp_inUse = n, hp_waiters = [], hp_tokens = []\<rparr>], pl_closed = False\<rparr>,
     pw_gs = gs, pw_chan = ch\<rparr>"

definition fresh_world :: "(nat \<rightharpoonup> string \<times> gstate) \<Rightarrow> pool_world" where
  "fresh_world gs = \<lparr>pw_pool = \<lparr>pl_hosts = Map.empty, pl_closed = False\<rparr>, pw_gs = gs, pw_chan = 0\<rparr>"

lemma dial_first:
  "notifying (NewPool_config two_per_host) 0 ''h'' (fresh_world [0 \<mapsto> (''h'', Looping), 1 \<mapsto> (''h'', Looping)])
     (dialed 1 [0 \<mapsto> (''h'', Dialing), 1 \<mapsto> (''h'', Looping)] 1)"
  using no_acquire [where cfg = "NewPool_config two_per_host" and g = 0 and h = "''h''" and now = 0 and d = D_dial and
      s = "fresh_world [0 \<mapsto> (''h'', Looping), 1 \<mapsto> (''h'', Looping)]"
      and P = "\<lparr>pl_hosts = [''h'' \<mapsto> \<lparr>hp_idle = [], hp_inUse = 1, hp_waiters = [], hp_tokens = []\<rparr>], pl_closed = False\<rparr>"]
  by (simp add: fresh_world_def dialed_def Acquire_def getHost_def acquire_section_def empty_host_def two_per_host_def
      NewPool_config_def fun_upd_twist)

lemma dial_second:
  "notifying (NewPool_config two_per_host) 1 ''h'' (dialed 1 [0 \<mapsto> (''h'', Dialing), 1 \<mapsto> (''h'', Looping)] 1)
     (dialed 2 [0 \<mapsto> (''h'', Dialing), 1 \<mapsto> (''h'', Dialing)] 2)"
  using no_acquire [where cfg = "NewPool_config two_per_host" and g = 1 and h = "''h''" and now = 0 and d = D_dial and
      s = "dialed 1 [0 \<mapsto> (''h'', Dialing), 1 \<mapsto> (''h'', Looping)] 1"
      and P = "\<lparr>pl_hosts = [''h'' \<mapsto> \<lparr>hp_idle = [], hp_inUse = 2, hp_waiters = [], hp_tokens = []\<rparr>], pl_closed = False\<rparr>"]
  by (simp add: dialed_def Acquire_def getHost_def acquire_section_def two_per_host_def NewPool_config_def
      numeral_2_eq_2)

lemma dialed_snapshot [simp]: "snapshot ''h'' (pw_pool (dialed n gs ch)) = (n, 0)"
  by (simp add: snapshot_def dialed_def host_of_def)

abbreviation "gauged w p m \<equiv> \<lparr>gw_world = w, gw_pending = p, gw_metrics = m\<rparr>"

abbreviation "gauge_run \<equiv> reach gauge_init (gauge_step (NewPool_config two_per_host))"

lemma gauged_quiet: "p g = [] \<Longrightarrow> quiet cfg g w w' \<Longrightarrow> gauge_step cfg (gauged w p m) (gauged w' p m)"
  using ga_quiet [where s = "gauged w p m" and g = g and w = w'] by simp

lemma gauged_notify:
  "p g = [] \<Longrightarrow> notifying cfg g h w w' \<Longrightarrow>
   gauge_step cfg (gauged w p m) (gauged w' (p(g := pool_change_writes h (snapshot h (pw_pool w')))) m)"
  using ga_notify [where s = "gauged w p m" and g = g and h = h and w = w'] by simp

lemma gauged_write: "p g = x # xs \<Longrightarrow> gauge_step cfg (gauged w p m) (gauged w (p(g := xs)) (gauge_set x m))"
  using ga_write [where s = "gauged w p m" and g = g and x = x and xs = xs] by simp

lemmas run_quiet = reach_step [where step = "gauge_step (NewPool_config two_per_host)", OF _ gauged_quiet]
lemmas run_notify = reach_step [where step = "gauge_step (NewPool_config two_per_host)", OF _ gauged_notify]
lemmas run_write = reach_step [where step = "gauge_step (NewPool_config two_per_host)", OF _ gauged_write]

lemma run_writes:
  "gauge_run (gauged w p m) \<Longrightarrow> p g = xs \<Longrightarrow> gauge_run (gauged w (p(g := [])) (fold gauge_set xs m))"
proof (induction xs arbitrary: p m)
  case (Cons x xs)
  from Cons.IH [OF run_write [OF Cons.prems] fun_upd_same]
  show ?case by (simp only: fun_upd_upd fold_simps)
next
  case Nil
  then show ?case by (simp add: fun_upd_idem)
qed

lemma run_two_callers:
  "gauge_run (gauged (fresh_world [0 \<mapsto> (''h'', Looping), 1 \<mapsto> (''h'', Looping)]) (\<lambda>_. []) New_metrics)"
proof -
  have "gauge_run (gauged (fresh_world Map.empty) (\<lambda>_. []) New_metrics)"
    by (rule reach_init) (simp add: gauge_init_def world_init_def fresh_world_def)
  then have "gauge_run (gauged (fresh_world [0 \<mapsto> (''h'', Looping)]) (\<lambda>_. []) New_metrics)"
    by (rule run_quiet) (use qu_enter [of "fresh_world Map.empty" 0 _ "''h''"] in \<open>simp_all add: fresh_world_def\<close>)
  then show ?thesis
    by (rule run_quiet) (use qu_enter [of "fresh_world [0 \<mapsto> (''h'', Looping)]" 1 _ "''h''"] in \<open>simp_all add: fresh_world_def\<close>)
qed

text \<open>
  The reports of two goroutines can overtake each other: both have dialed, both have reported, and the gauge stays at
  one connection in use although there are two.
\<close>

lemma gauge_race:
  "\<exists>s. gauge_run s \<and> settled s \<and>
     ftpPoolSize (gw_metrics s) (''h'', ''in_use'') = 1 \<and> hp_inUse (host_of ''h'' (pw_pool (gw_world s))) = 2"
proof -
  have p: "((\<lambda>_. [])(0 := ws)) (1 :: nat) = []" for ws :: "((string \<times> string) \<times> int) list" by simp
  note first = run_notify [OF run_two_callers refl dial_first]
  note both = run_notify [OF first p dial_second]
  note late = run_writes [where g = 0, OF run_writes [where g = 1, OF both refl] refl]
  show ?thesis
    by (rule exI, rule conjI, rule late)
       (simp_all add: settled_def pool_change_writes_def gauge_set_def dialed_def host_of_def snapshot_def)
qed

text \<open>
  Closing the pool drops the idle connections without a report.
\<close>

lemma close_not_reported:
  "gauge_step cfg s t \<Longrightarrow> pl_closed (pw_pool (gw_world t)) \<Longrightarrow> \<not> pl_closed (pw_pool (gw_world s)) \<Longrightarrow>
   gw_metrics t = gw_metrics s \<and> gw_pending t = gw_pending s \<and> (\<forall>h. snd (snapshot h (pw_pool (gw_world t))) = 0)"
  by (erule gauge_step.cases)
     (auto simp: snapshot_def close_host_def Acquire_failed_def Acquire_def Acquire_woken_def Acquire_cancelled_def Pool_release_def
      elim!: notifying.cases quiet.cases split: if_splits option.splits prod.splits)

lemma serial_run:
  assumes "reach gauge_init (serial_step cfg) s" and "gauge_step cfg s t" and "gw_world t = gw_world s \<or> settled s"
    and "\<not> pl_closed (pw_pool (gw_world t))" and "\<And>h. hp_waiters (host_of h (pw_pool (gw_world t))) = []"
  shows "reach gauge_init (serial_step cfg) t"
  using assms by (auto intro!: reach_step [OF assms(1)] simp: serial_step_def)

lemma no_waiters [simp]:
  "hp_waiters (host_of h (pw_pool (fresh_world gs))) = []" "hp_waiters (host_of h (pw_pool (dialed n gs ch))) = []"
  "\<not> pl_closed (pw_pool (fresh_world gs))" "\<not> pl_closed (pw_pool (dialed n gs ch))"
  by (simp_all add: fresh_world_def dialed_def host_of_def empty_host_def)

lemma run_serial:
  "reach gauge_init (serial_step (NewPool_config two_per_host))
     (gauged (dialed 1 [0 \<mapsto> (''h'', Dialing), 1 \<mapsto> (''h'', Looping)] 1) (\<lambda>_. [])
        (fold gauge_set (pool_change_writes ''h'' (1, 0)) New_metrics))"
proof -
  let ?cfg = "NewPool_config two_per_host" and ?R = "reach gauge_init (serial_step (NewPool_config two_per_host))"
  let ?w = "dialed 1 [0 \<mapsto> (''h'', Dialing), 1 \<mapsto> (''h'', Looping)] 1"
  let ?f1 = "fresh_world [0 \<mapsto> (''h'', Looping)]" and ?f2 = "fresh_world [0 \<mapsto> (''h'', Looping), 1 \<mapsto> (''h'', Looping)]"
  let ?a = "((''h'', ''in_use''), 1) :: (string \<times> string) \<times> int" and ?b = "((''h'', ''idle''), 0) :: (string \<times> string) \<times> int"
  have q: "quiet ?cfg 0 (fresh_world Map.empty) ?f1" "quiet ?cfg 1 ?f1 ?f2"
    using qu_enter [of "fresh_world Map.empty" 0 ?cfg "''h''"] qu_enter [of ?f1 1 ?cfg "''h''"] by (simp_all add: fresh_world_def)
  have "?R (gauged (fresh_world Map.empty) (\<lambda>_. []) New_metrics)"
    by (rule reach_init) (simp add: gauge_init_def world_init_def fresh_world_def)
  from serial_run [OF this gauged_quiet [OF refl q(1)]]
  have "?R (gauged ?f1 (\<lambda>_. []) New_metrics)" by (simp add: settled_def)
  from serial_run [OF this gauged_quiet [OF refl q(2)]]
  have "?R (gauged ?f2 (\<lambda>_. []) New_metrics)" by (simp add: settled_def)
  from serial_run [OF this gauged_notify [OF refl dial_first]]
  have "?R (gauged ?w ((\<lambda>_. [])(0 := [?a, ?b])) New_metrics)" by (simp add: settled_def pool_change_writes_def)
  from serial_run [OF this gauged_write [OF fun_upd_same], unfolded fun_upd_upd]
  have "?R (gauged ?w ((\<lambda>_. [])(0 := [?b])) (gauge_set ?a New_metrics))" by simp
  from serial_run [OF this gauged_write [OF fun_upd_same], unfolded fun_upd_upd]
  have "?R (gauged ?w ((\<lambda>_. [])(0 := [])) (gauge_set ?b (gauge_set ?a New_metrics)))" by simp
  then show ?thesis by (simp add: pool_change_writes_def fun_upd_idem)
qed

section \<open>Properties\<close>

text \<open>
  The gauge of the FTP pool never shows an impossible number. However goroutines acquire, fail, wait, release and
  close, and in whatever order their reports arrive, each gauge shows at least zero and at most the configured maximum
  of connections per host.
\<close>
lemma gauge_within_cap:
  assumes "reach gauge_init (gauge_step (NewPool_config cfg)) s"
  shows "0 \<le> ftpPoolSize (gw_metrics s) l \<and> ftpPoolSize (gw_metrics s) l \<le> MaxPerHost (NewPool_config cfg)"
  using pool_gauge.reach_inv [OF assms] by (cases l) (simp add: gauge_inv_def in_cap_def)

text \<open>
  C30. The gauge of the FTP pool is exact when its reports do not overlap. As long as the pool changes only while no
  report is pending, is not closed, and no caller starts to wait on a host whose idle connections have all
  expired, then whenever every report has been made the gauges of every host are its connections in use and its idle connections.
\<close>
theorem gauge_exact_serial:
  assumes "reach gauge_init (serial_step (NewPool_config cfg)) s" and "\<forall>g. gw_pending s g = []"
  shows "ftpPoolSize (gw_metrics s) (h, ''in_use'') = hp_inUse (host_of h (pw_pool (gw_world s))) \<and>
    ftpPoolSize (gw_metrics s) (h, ''idle'') = int (length (hp_idle (host_of h (pw_pool (gw_world s)))))"
  using pool_gauge_serial.reach_inv [OF assms(1)] assms(2)
  by (auto simp: serial_inv_def shows_counts_def snapshot_def)

theorem gauge_exact_serial_witness:
  "ftpPoolSize (fold gauge_set (pool_change_writes ''h'' (1, 0)) New_metrics) (''h'', ''in_use'') = 1"
  using gauge_exact_serial [OF run_serial, of "''h''"] by (simp add: dialed_def host_of_def)

end
