(* ===== verification/Transfer_Stream.thy ===== *)
theory Transfer_Stream
  imports Go_Lib
begin

text \<open>
  Streaming bodies: the readers that \<^verbatim>\<open>internal/transfer/ctxreader.go\<close> and \<^verbatim>\<open>internal/worker/process.go\<close>
  stack on an open source, the copying loop of \<^verbatim>\<open>io.Copy\<close>, and the path functions the
  transports use. Bytes are characters.
\<close>

section \<open>Readers\<close>

datatype read_err = Eof | RErr go_error

text \<open>
  An open body is the list of what its \<^verbatim>\<open>Read\<close> calls have to deliver: bytes and possibly an error
  with them. A call with a buffer too small for an entry gets what fits, and the rest stays.
  After the last entry a reader is at its end.
\<close>

type_synonym body = "(string \<times> read_err option) list"

fun body_Read :: "nat \<Rightarrow> body \<Rightarrow> (string \<times> read_err option) \<times> body" where
  "body_Read len [] = (([], Some Eof), [])"
| "body_Read len ((c, e) # rs) =
     (if length c \<le> len then ((c, e), rs) else ((take len c, None), (drop len c, e) # rs))"

text \<open>What a body delivers before its first error, and that error unless it is the end.\<close>

fun body_bytes :: "body \<Rightarrow> string" where
  "body_bytes [] = []"
| "body_bytes ((c, e) # rs) = c @ (case e of None \<Rightarrow> body_bytes rs | Some _ \<Rightarrow> [])"

fun body_error :: "body \<Rightarrow> go_error option" where
  "body_error [] = None"
| "body_error ((c, e) # rs) =
     (case e of None \<Rightarrow> body_error rs | Some Eof \<Rightarrow> None | Some (RErr err) \<Rightarrow> Some err)"

text \<open>\<^verbatim>\<open>counter\<close> of \<^verbatim>\<open>process.go\<close>: counts the bytes read through it.\<close>

record counter =
  ct_r :: body
  ct_n :: int

definition counter_Read :: "nat \<Rightarrow> counter \<Rightarrow> (string \<times> read_err option) \<times> counter" where
  "counter_Read len c =
     (case body_Read len (ct_r c) of
        ((bs, err), rs) \<Rightarrow> ((bs, err), c\<lparr>ct_r := rs, ct_n := ct_n c + int (length bs)\<rparr>))"

text \<open>
  \<^verbatim>\<open>ctxReader\<close>: \<open>cr_pending\<close> is the result of the goroutine that reads, from its start until its
  result is received. What a call meets is \<open>re_err\<close>, the answer of \<^verbatim>\<open>ctx.Err()\<close> on entry, and
  \<open>re_done\<close>, the context's error when the \<^verbatim>\<open>select\<close> takes \<^verbatim>\<open>ctx.Done()\<close> (the result is then left pending).
\<close>

record ctxReader =
  cr_r :: counter
  cr_pending :: "(string \<times> read_err option) option"

record read_env =
  re_err :: "go_error option"
  re_done :: "go_error option"

definition NewCtxReader :: "counter \<Rightarrow> ctxReader" where
  "NewCtxReader r = \<lparr>cr_r = r, cr_pending = None\<rparr>"

definition start_read :: "nat \<Rightarrow> ctxReader \<Rightarrow> (string \<times> read_err option) \<times> ctxReader" where
  "start_read len c =
     (case cr_pending c of
        Some res \<Rightarrow> (res, c)
      | None \<Rightarrow>
          (case counter_Read len (cr_r c) of
             (res, r) \<Rightarrow> (res, c\<lparr>cr_r := r, cr_pending := Some res\<rparr>)))"

definition ctxReader_Read :: "read_env \<Rightarrow> nat \<Rightarrow> ctxReader \<Rightarrow> (string \<times> read_err option) \<times> ctxReader" where
  "ctxReader_Read e len c =
     (case re_err e of
        Some err \<Rightarrow> (([], Some (RErr err)), c)
      | None \<Rightarrow>
          (case start_read len c of
             ((bs, err), c1) \<Rightarrow>
               (case re_done e of
                  Some derr \<Rightarrow> (([], Some (RErr derr)), c1)
                | None \<Rightarrow> ((take len bs, err), c1\<lparr>cr_pending := None\<rparr>))))"

section \<open>Copying\<close>

text \<open>
  \<^verbatim>\<open>io.Copy\<close> into a writer whose \<open>k\<close>-th write succeeds (\<open>None\<close>) or fails with an error after writing
  some bytes. The result is the error, the bytes written, and the reader. Each call uses a
  buffer of 32 KiB.
\<close>

definition copy_buf :: nat where
  "copy_buf = 32768"

fun left :: "body \<Rightarrow> nat" where
  "left [] = 0"
| "left ((c, e) # rs) = Suc (length c) + left rs"

definition reader_left :: "ctxReader \<Rightarrow> nat" where
  "reader_left c = left (ct_r (cr_r c)) + (case cr_pending c of None \<Rightarrow> 0 | Some _ \<Rightarrow> 1)"

lemma body_Read_left: "body_Read len b = ((bs, None), b') \<Longrightarrow> 0 < len \<Longrightarrow> left b' < left b"
  by (cases b) (auto split: if_splits)

lemma ctxReader_Read_left:
  assumes "ctxReader_Read e len c = ((bs, None), c')" and "0 < len"
  shows "reader_left c' < reader_left c"
  using assms body_Read_left [of len "ct_r (cr_r c)"]
  by (auto simp: ctxReader_Read_def start_read_def counter_Read_def reader_left_def split: option.splits prod.splits)

function io_Copy ::
  "(nat \<Rightarrow> read_env) \<Rightarrow> (nat \<Rightarrow> (nat \<times> go_error) option) \<Rightarrow> nat \<Rightarrow> ctxReader \<Rightarrow> string \<Rightarrow>
   go_error option \<times> string \<times> ctxReader"
where
  "io_Copy re we k c out =
     (case ctxReader_Read (re k) copy_buf c of
        ((bs, er), c') \<Rightarrow>
          (case (if bs = [] then None else we k) of
             Some (m, ew) \<Rightarrow> (Some ew, out @ take m bs, c')
           | None \<Rightarrow>
               (case er of
                  Some Eof \<Rightarrow> (None, out @ bs, c')
                | Some (RErr err) \<Rightarrow> (Some err, out @ bs, c')
                | None \<Rightarrow> io_Copy re we (Suc k) c' (out @ bs))))"
  by pat_completeness auto
termination
  by (relation "measure (\<lambda>(re, we, k, c, out). reader_left c)")
     (auto dest!: sym [of _ "ctxReader_Read _ _ _"] intro: ctxReader_Read_left simp: copy_buf_def)

declare io_Copy.simps [simp del]

section \<open>What copying delivers\<close>

lemma body_Read_bytes:
  assumes "body_Read len b = ((bs, er), b')"
  shows "body_bytes b = bs @ (case er of None \<Rightarrow> body_bytes b' | Some _ \<Rightarrow> [])"
    and "body_error b = (case er of None \<Rightarrow> body_error b' | Some Eof \<Rightarrow> None | Some (RErr err) \<Rightarrow> Some err)"
    and "length bs \<le> len"
proof -
  show "body_bytes b = bs @ (case er of None \<Rightarrow> body_bytes b' | Some _ \<Rightarrow> [])"
    using assms by (cases b) (auto split: if_splits option.splits simp flip: append_assoc)
  show "body_error b = (case er of None \<Rightarrow> body_error b' | Some Eof \<Rightarrow> None | Some (RErr err) \<Rightarrow> Some err)"
    using assms by (cases b) (auto split: if_splits option.splits)
  show "length bs \<le> len" using assms by (cases b) (auto split: if_splits)
qed

text \<open>A call of a reader with nothing pending: the context ends it, or it passes the body on.\<close>

lemma ctxReader_Read_cases:
  assumes "ctxReader_Read e len c = ((bs, er), c')" and "cr_pending c = None"
  obtains (cancelled) err where "re_err e = Some err \<or> re_done e = Some err" "bs = []" "er = Some (RErr err)"
  | (delivered) rs where "re_err e = None" "re_done e = None" "body_Read len (ct_r (cr_r c)) = ((bs, er), rs)"
      "c' = \<lparr>cr_r = \<lparr>ct_r = rs, ct_n = ct_n (cr_r c) + int (length bs)\<rparr>, cr_pending = None\<rparr>"
proof (cases "re_err e = None \<and> re_done e = None")
  case True
  obtain bs0 er0 rs where r: "body_Read len (ct_r (cr_r c)) = ((bs0, er0), rs)" by (metis prod.collapse)
  with True assms body_Read_bytes(3) [OF r] show thesis
    by (intro delivered [of rs]) (auto simp: ctxReader_Read_def start_read_def counter_Read_def)
next
  case False
  with assms show thesis
    by (auto simp: ctxReader_Read_def start_read_def intro: cancelled split: option.splits prod.splits)
qed

lemma io_Copy_ok:
  assumes "io_Copy re we k c out = (None, out', c')" and "cr_pending c = None"
  shows "out' = out @ body_bytes (ct_r (cr_r c)) \<and> body_error (ct_r (cr_r c)) = None \<and>
    ct_n (cr_r c') = ct_n (cr_r c) + int (length (body_bytes (ct_r (cr_r c))))"
  using assms
proof (induction re we k c out arbitrary: rule: io_Copy.induct)
  case (1 re we k c out)
  obtain bs er d where r: "ctxReader_Read (re k) copy_buf c = ((bs, er), d)" by (metis prod.collapse)
  from r "1.prems"(2) show ?case
  proof (cases rule: ctxReader_Read_cases)
    case (cancelled err)
    with "1.prems"(1) r show ?thesis by (simp add: io_Copy.simps)
  next
    case (delivered rs)
    note b = body_Read_bytes(1,2) [OF delivered(3)]
    have we: "(if bs = [] then None else we k) = None"
      using "1.prems"(1) r by (auto simp: io_Copy.simps split: option.splits)
    show ?thesis
    proof (cases er)
      case None
      with "1.prems"(1) r we have "io_Copy re we (Suc k) d (out @ bs) = (None, out', c')" by (simp add: io_Copy.simps)
      from "1.IH" [OF r [symmetric] refl we None this] delivered b None show ?thesis by simp
    next
      case (Some x)
      with "1.prems"(1) r we delivered b show ?thesis
        by (cases x) (auto simp: io_Copy.simps)
    qed
  qed
qed

lemma io_Copy_calm:
  assumes "\<And>k. re k = \<lparr>re_err = None, re_done = None\<rparr>" and "\<And>k. we k = None" and "cr_pending c = None"
  shows "\<exists>c'. io_Copy re we k c out = (body_error (ct_r (cr_r c)), out @ body_bytes (ct_r (cr_r c)), c')"
  using assms
proof (induction re we k c out rule: io_Copy.induct)
  case (1 re we k c out)
  obtain bs er d where r: "ctxReader_Read (re k) copy_buf c = ((bs, er), d)" by (metis prod.collapse)
  from r "1.prems"(3) show ?case
  proof (cases rule: ctxReader_Read_cases)
    case (cancelled err)
    with "1.prems"(1) show ?thesis by simp
  next
    case (delivered rs)
    note b = body_Read_bytes(1,2) [OF delivered(3)]
    have we: "(if bs = [] then None else we k) = None" using "1.prems"(2) by simp
    show ?thesis
    proof (cases er)
      case None
      have "cr_pending d = None" using delivered by simp
      from "1.IH" [OF r [symmetric] refl we None "1.prems"(1,2) this] delivered b None r we show ?thesis
        by (simp add: io_Copy.simps [of re we k])
    next
      case (Some x)
      with r we b show ?thesis by (cases x) (auto simp: io_Copy.simps)
    qed
  qed
qed

section \<open>Paths\<close>

text \<open>\<^verbatim>\<open>path.Clean\<close> and \<^verbatim>\<open>path.Dir\<close> (also \<^verbatim>\<open>filepath.Dir\<close> on Unix).\<close>

fun split_on :: "char \<Rightarrow> string \<Rightarrow> string list" where
  "split_on d [] = [[]]"
| "split_on d (c # cs) =
     (if c = d then [] # split_on d cs
      else case split_on d cs of [] \<Rightarrow> [[c]] | w # ws \<Rightarrow> (c # w) # ws)"

fun clean_parts :: "bool \<Rightarrow> string list \<Rightarrow> string list \<Rightarrow> string list" where
  "clean_parts rooted st [] = rev st"
| "clean_parts rooted st (p # ps) =
     (if p = [] \<or> p = ''.'' then clean_parts rooted st ps
      else if p = ''..'' then
        (case st of
           [] \<Rightarrow> clean_parts rooted (if rooted then [] else [''..'']) ps
         | t # ts \<Rightarrow> clean_parts rooted (if t = ''..'' then ''..'' # st else ts) ps)
      else clean_parts rooted (p # st) ps)"

fun join_with :: "char \<Rightarrow> string list \<Rightarrow> string" where
  "join_with d [] = []"
| "join_with d [w] = w"
| "join_with d (w # ws) = w @ d # join_with d ws"

definition path_Clean :: "string \<Rightarrow> string" where
  "path_Clean p =
     (let rooted = (p \<noteq> [] \<and> hd p = CHR ''/'');
          s = (if rooted then ''/'' else []) @ join_with (CHR ''/'') (clean_parts rooted [] (split_on (CHR ''/'') p))
      in if s = [] then ''.'' else s)"

definition path_Dir :: "string \<Rightarrow> string" where
  "path_Dir p = path_Clean (rev (dropWhile (\<lambda>c. c \<noteq> CHR ''/'') (rev p)))"

lemma path_Dir_examples:
  "path_Dir ''/data/in/a.jpg'' = ''/data/in''" "path_Dir ''a.jpg'' = ''.''" "path_Dir ''/a.jpg'' = ''/''"
  "path_Dir ''/a/../b//c/./d'' = ''/b/c''"
  by (simp_all add: path_Dir_def path_Clean_def Let_def)

end
