(* ===== verification/Transfer_Ftp.thy ===== *)
theory Transfer_Ftp
  imports Transfer_Stream
begin

text \<open>
  \<^verbatim>\<open>internal/sources/ftp\<close> and \<^verbatim>\<open>internal/transports/ftp/transport.go\<close>. The connection pool and the FTP
  client library are a record of operations on a world \<open>'w\<close> with connections \<open>'c\<close>; \<^verbatim>\<open>url.Parse\<close> and
  the digest are functions.
\<close>

section \<open>Environment\<close>

record url =
  Scheme :: string
  Host :: string
  Path :: string

text \<open>
  \<open>fc_Stor\<close> is given what its reader delivers, bytes and then an error or the end, and answers with
  its own error and how many of the bytes it has read. \<open>fc_Retr\<close> gives the stream of the file.
\<close>

record ('w, 'c) ftp_client =
  fc_Acquire :: "string \<Rightarrow> 'w \<Rightarrow> (go_error + 'c) \<times> 'w"
  fc_Release :: "'c \<Rightarrow> bool \<Rightarrow> 'w \<Rightarrow> 'w"
  fc_FileSize :: "'c \<Rightarrow> string \<Rightarrow> 'w \<Rightarrow> (go_error + int) \<times> 'w"
  fc_Retr :: "'c \<Rightarrow> string \<Rightarrow> 'w \<Rightarrow> (go_error + body) \<times> 'w"
  fc_CloseBody :: "'c \<Rightarrow> 'w \<Rightarrow> go_error option \<times> 'w"
  fc_MakeDir :: "'c \<Rightarrow> string \<Rightarrow> 'w \<Rightarrow> go_error option \<times> 'w"
  fc_Stor :: "'c \<Rightarrow> string \<Rightarrow> string \<times> go_error option \<Rightarrow> 'w \<Rightarrow> (go_error option \<times> nat) \<times> 'w"
  fc_Rename :: "'c \<Rightarrow> string \<Rightarrow> string \<Rightarrow> 'w \<Rightarrow> go_error option \<times> 'w"
  fc_Delete :: "'c \<Rightarrow> string \<Rightarrow> 'w \<Rightarrow> go_error option \<times> 'w"

text \<open>\<^verbatim>\<open>fmt\<close>'s \<^verbatim>\<open>%q\<close>: the quotation mark, the backslash and control characters are escaped.\<close>

definition hex_digit :: "nat \<Rightarrow> char" where
  "hex_digit n = (if n < 10 then char_of (48 + n) else char_of (87 + n))"

definition quote_char :: "char \<Rightarrow> string" where
  "quote_char c =
     (let n = (of_char c :: nat) in
      if n = 34 \<or> n = 92 then [char_of (92::nat), c]
      else if n = 7 then [char_of (92::nat), CHR ''a'']
      else if n = 8 then [char_of (92::nat), CHR ''b'']
      else if n = 11 then [char_of (92::nat), CHR ''v'']
      else if n = 12 then [char_of (92::nat), CHR ''f'']
      else if n = 10 then [char_of (92::nat), CHR ''n'']
      else if n = 13 then [char_of (92::nat), CHR ''r'']
      else if n = 9 then [char_of (92::nat), CHR ''t'']
      else if n < 32 \<or> n = 127 then [char_of (92::nat), CHR ''x'', hex_digit (n div 16), hex_digit (n mod 16)]
      else [c])"

definition quoted :: "string \<Rightarrow> string" where
  "quoted s = char_of (34::nat) # concat (map quote_char s) @ [char_of (34::nat)]"

section \<open>Transport (transport.go)\<close>

text \<open>Reply codes 550, 552 and 553 of \<^verbatim>\<open>STOR\<close> and \<^verbatim>\<open>RNTO\<close> are permanent.\<close>

definition classify :: "go_error \<Rightarrow> go_error" where
  "classify err =
     (case as_textproto err of
        Some (code, msg) \<Rightarrow>
          if code = 550 \<or> code = 552 \<or> code = 553
          then Wrapf (err_text err @ '': '' @ err_text ErrPermanent) [err, ErrPermanent] else err
      | None \<Rightarrow> err)"

text \<open>The writer behind the \<^verbatim>\<open>TeeReader\<close>: the bytes the hash has seen and their number.\<close>

record countingHashWriter =
  cw_h :: string
  cw_n :: int

definition countingHashWriter_Write :: "string \<Rightarrow> countingHashWriter \<Rightarrow> (int \<times> go_error option) \<times> countingHashWriter" where
  "countingHashWriter_Write p w = ((int (length p), None), w\<lparr>cw_h := cw_h w @ p, cw_n := cw_n w + int (length p)\<rparr>)"

text \<open>The transfer library reads the body through the tee in pieces; how it cuts them makes no difference.\<close>

definition tee_pieces :: "string list \<Rightarrow> countingHashWriter" where
  "tee_pieces ps = foldl (\<lambda>w p. snd (countingHashWriter_Write p w)) \<lparr>cw_h = [], cw_n = 0\<rparr> ps"

lemma tee_pieces_foldl:
  "foldl (\<lambda>w p. snd (countingHashWriter_Write p w)) w ps =
     w\<lparr>cw_h := cw_h w @ concat ps, cw_n := cw_n w + int (length (concat ps))\<rparr>"
  by (induction ps arbitrary: w) (simp_all add: countingHashWriter_Write_def)

lemma tee_pieces_concat [simp]: "tee_pieces ps = \<lparr>cw_h = concat ps, cw_n = int (length (concat ps))\<rparr>"
  by (simp add: tee_pieces_def tee_pieces_foldl)

definition ftp_Send ::
  "(string \<Rightarrow> go_error + url) \<Rightarrow> (string \<Rightarrow> string) \<Rightarrow> ('w, 'c) ftp_client \<Rightarrow> (nat \<Rightarrow> read_env) \<Rightarrow>
   string \<Rightarrow> counter \<Rightarrow> int \<Rightarrow> 'w \<Rightarrow> (go_error + int \<times> string) \<times> counter \<times> 'w"
where
  "ftp_Send url_Parse sha cl re dst body expected w =
     (let invalid = (Inl (PlainErr (''ftp transport: invalid dst '' @ quoted dst)), body, w) in
      case url_Parse dst of
        Inl _ \<Rightarrow> invalid
      | Inr u \<Rightarrow>
          if Scheme u \<noteq> ''ftp'' \<or> Host u = [] \<or> Path u = [] then invalid
          else
            let finalPath = Path u; tmpPath = finalPath @ ''.imgsync.tmp'';
                tmp = trim_prefix tmpPath ''/''; final = trim_prefix finalPath ''/'' in
            (case fc_Acquire cl (Host u) w of
               (Inl err, w1) \<Rightarrow> (Inl (wrap_err ''ftp transport: acquire: '' err), body, w1)
             | (Inr c, w1) \<Rightarrow>
                 let dir = path_Dir finalPath;
                     w2 = (if dir \<noteq> ''/'' \<and> dir \<noteq> ''.'' \<and> dir \<noteq> [] then snd (fc_MakeDir cl c dir w1) else w1);
                     failed = (\<lambda>w. fc_Release cl c True (snd (fc_Delete cl c tmp w))) in
                 (case io_Copy re (\<lambda>_. None) 0 (NewCtxReader body) [] of
                    (rerr, out, _) \<Rightarrow>
                      (case fc_Stor cl c tmp (out, rerr) w2 of
                         ((Some err, n), w3) \<Rightarrow>
                           (Inl (wrap_err (''ftp transport: stor '' @ tmpPath @ '': '') (classify err)),
                            body\<lparr>ct_n := ct_n body + int n\<rparr>, failed w3)
                       | ((None, n), w3) \<Rightarrow>
                           (case fc_Rename cl c tmp final w3 of
                              (Some err, w4) \<Rightarrow>
                                (Inl (wrap_err (''ftp transport: rename '' @ tmpPath @ '' -> '' @ finalPath @ '': '') (classify err)),
                                 body\<lparr>ct_n := ct_n body + int n\<rparr>, failed w4)
                            | (None, w4) \<Rightarrow>
                                (let cw = tee_pieces [take n out] in Inr (cw_n cw, sha (cw_h cw)), body\<lparr>ct_n := ct_n body + int n\<rparr>,
                                 fc_Release cl c False w4))))))"

section \<open>Source (source.go)\<close>

definition isNotFound :: "go_error \<Rightarrow> bool" where
  "isNotFound err =
     (case as_textproto err of
        Some (code, m) \<Rightarrow>
          code = 550 \<and> (let msg = to_lower m in \<not> contains ''permission'' msg \<and> \<not> contains ''access denied'' msg)
      | None \<Rightarrow> False)"

record 'c retrReader =
  rr_body :: body
  rr_pc :: 'c
  rr_released :: bool
  rr_ioErr :: bool

definition ftp_Open ::
  "(string \<Rightarrow> go_error + url) \<Rightarrow> ('w, 'c) ftp_client \<Rightarrow> string \<Rightarrow> 'w \<Rightarrow> (go_error + 'c retrReader \<times> int) \<times> 'w"
where
  "ftp_Open url_Parse cl src w =
     (case url_Parse src of
        Inl _ \<Rightarrow> (Inl (wrap_err (''ftp source: parse '' @ quoted src @ '': '') ErrPermanent), w)
      | Inr u \<Rightarrow>
          if Scheme u \<noteq> ''ftp'' then
            (Inl (wrap_err (''ftp source: scheme '' @ quoted (Scheme u) @ '' not supported: '') ErrPermanent), w)
          else if Host u = [] then
            (Inl (wrap_err (''ftp source: empty host in '' @ quoted src @ '': '') ErrPermanent), w)
          else if Path u = [] then
            (Inl (wrap_err (''ftp source: empty path in '' @ quoted src @ '': '') ErrPermanent), w)
          else
            (case fc_Acquire cl (Host u) w of
               (Inl err, w1) \<Rightarrow> (Inl (wrap_err ''ftp source: acquire conn: '' err), w1)
             | (Inr c, w1) \<Rightarrow>
                 (case fc_FileSize cl c (Path u) w1 of
                    (sz, w2) \<Rightarrow>
                      (case fc_Retr cl c (Path u) w2 of
                         (Inl err, w3) \<Rightarrow>
                           (Inl (wrap_err (''ftp source: retr '' @ Path u @ '': '')
                                   (if isNotFound err then ErrSkippable else err)), fc_Release cl c True w3)
                       | (Inr r, w3) \<Rightarrow>
                           (Inr (\<lparr>rr_body = r, rr_pc = c, rr_released = False, rr_ioErr = False\<rparr>,
                                 case sz of Inl _ \<Rightarrow> -1 | Inr n \<Rightarrow> n), w3)))))"

definition retrReader_Read :: "nat \<Rightarrow> 'c retrReader \<Rightarrow> (string \<times> read_err option) \<times> 'c retrReader" where
  "retrReader_Read len r =
     (case body_Read len (rr_body r) of
        ((bs, err), b) \<Rightarrow>
          ((bs, err), r\<lparr>rr_body := b, rr_ioErr := (case err of Some (RErr _) \<Rightarrow> True | _ \<Rightarrow> rr_ioErr r)\<rparr>))"

definition retrReader_Close ::
  "('w, 'c) ftp_client \<Rightarrow> 'c retrReader \<Rightarrow> 'w \<Rightarrow> go_error option \<times> 'c retrReader \<times> 'w"
where
  "retrReader_Close cl r w =
     (case fc_CloseBody cl (rr_pc r) w of
        (closeErr, w1) \<Rightarrow>
          if rr_released r then (closeErr, r, w1)
          else (closeErr, r\<lparr>rr_released := True\<rparr>,
                fc_Release cl (rr_pc r) (rr_ioErr r \<or> closeErr \<noteq> None) w1))"

section \<open>Connections are given back\<close>

text \<open>A client that records the calls that take and give back a connection, and those on the server's files.\<close>

datatype ftp_call =
    C_acquire string
  | C_release bool
  | C_size string
  | C_retr string
  | C_closebody
  | C_makedir string
  | C_stor string
  | C_rename string string
  | C_delete string

definition logged :: "('w, 'c) ftp_client \<Rightarrow> ('w \<times> ftp_call list, 'c) ftp_client" where
  "logged cl =
     \<lparr>fc_Acquire = (\<lambda>h (w, l). case fc_Acquire cl h w of
          (Inl e, w') \<Rightarrow> (Inl e, (w', l)) | (Inr c, w') \<Rightarrow> (Inr c, (w', l @ [C_acquire h]))),
      fc_Release = (\<lambda>c b (w, l). (fc_Release cl c b w, l @ [C_release b])),
      fc_FileSize = (\<lambda>c p (w, l). case fc_FileSize cl c p w of (r, w') \<Rightarrow> (r, (w', l @ [C_size p]))),
      fc_Retr = (\<lambda>c p (w, l). case fc_Retr cl c p w of (r, w') \<Rightarrow> (r, (w', l @ [C_retr p]))),
      fc_CloseBody = (\<lambda>c (w, l). case fc_CloseBody cl c w of (r, w') \<Rightarrow> (r, (w', l @ [C_closebody]))),
      fc_MakeDir = (\<lambda>c p (w, l). case fc_MakeDir cl c p w of (r, w') \<Rightarrow> (r, (w', l @ [C_makedir p]))),
      fc_Stor = (\<lambda>c p d (w, l). case fc_Stor cl c p d w of (r, w') \<Rightarrow> (r, (w', l @ [C_stor p]))),
      fc_Rename = (\<lambda>c p q (w, l). case fc_Rename cl c p q w of (r, w') \<Rightarrow> (r, (w', l @ [C_rename p q]))),
      fc_Delete = (\<lambda>c p (w, l). case fc_Delete cl c p w of (r, w') \<Rightarrow> (r, (w', l @ [C_delete p])))\<rparr>"

fun is_release :: "ftp_call \<Rightarrow> bool" where
  "is_release (C_release _) = True"
| "is_release _ = False"

fun is_acquire :: "ftp_call \<Rightarrow> bool" where
  "is_acquire (C_acquire _) = True"
| "is_acquire _ = False"

text \<open>
  \<^verbatim>\<open>Send\<close> to FTP gives its connection back exactly once, on every path: the calls it makes either take no
  connection, or start with taking one and end with releasing it, with no release in between; the connection is
  released as broken exactly when \<^verbatim>\<open>Send\<close> fails.
\<close>
lemma ftp_send_releases_once:
  "case ftp_Send url_Parse sha (logged cl) re dst body expected (w, []) of
     (r, _, (_, calls)) \<Rightarrow>
       (calls = [] \<and> (\<exists>e. r = Inl e)) \<or>
       (\<exists>h mid broken. calls = C_acquire h # mid @ [C_release broken] \<and> list_all (\<lambda>c. is_release c = False \<and> is_acquire c = False) mid \<and>
          (broken \<longleftrightarrow> (\<exists>e. r = Inl e)))"
proof -
  obtain e out rd where cp: "io_Copy re (\<lambda>_. None) 0 (NewCtxReader body) [] = (e, out, rd)" by (metis prod.collapse)
  show ?thesis
  proof (cases "\<exists>u c w1. url_Parse dst = Inr u \<and> Scheme u = ''ftp'' \<and> Host u \<noteq> [] \<and> Path u \<noteq> [] \<and> fc_Acquire cl (Host u) w = (Inr c, w1)")
    case False
    then show ?thesis
      by (auto simp: ftp_Send_def logged_def Let_def split: sum.splits prod.splits)
  next
    case True
    then obtain u c w1 where u: "url_Parse dst = Inr u" "Scheme u = ''ftp''" "Host u \<noteq> []" "Path u \<noteq> []"
      "fc_Acquire cl (Host u) w = (Inr c, w1)" by blast
    then show ?thesis
      by (auto simp: ftp_Send_def logged_def Let_def cp split: prod.splits option.splits)
  qed
qed

text \<open>A sequence of reads of an open stream, with the buffer sizes and the errors they return.\<close>

fun retr_reads :: "nat list \<Rightarrow> 'c retrReader \<Rightarrow> read_err option list \<times> 'c retrReader" where
  "retr_reads [] r = ([], r)"
| "retr_reads (n # ns) r =
     (case retrReader_Read n r of
        ((_, e), r1) \<Rightarrow> (case retr_reads ns r1 of (es, r2) \<Rightarrow> (e # es, r2)))"

fun read_failed :: "read_err option \<Rightarrow> bool" where
  "read_failed (Some (RErr _)) = True"
| "read_failed _ = False"

lemma retrReader_Read_state:
  assumes "retrReader_Read n r = ((bs, e), r1)"
  shows "rr_pc r1 = rr_pc r" and "rr_released r1 = rr_released r" and "rr_ioErr r1 = (rr_ioErr r \<or> read_failed e)"
proof -
  obtain b where "body_Read n (rr_body r) = ((bs, e), b)" and
    "r1 = r\<lparr>rr_body := b, rr_ioErr := (case e of Some (RErr _) \<Rightarrow> True | _ \<Rightarrow> rr_ioErr r)\<rparr>"
    using assms by (auto simp: retrReader_Read_def split: prod.splits)
  then show "rr_pc r1 = rr_pc r" "rr_released r1 = rr_released r" "rr_ioErr r1 = (rr_ioErr r \<or> read_failed e)"
    by (cases e; cases "the e"; simp)+
qed

lemma retr_reads_state:
  "retr_reads ns r = (es, r1) \<Longrightarrow>
   rr_pc r1 = rr_pc r \<and> rr_released r1 = rr_released r \<and> (rr_ioErr r1 \<longleftrightarrow> rr_ioErr r \<or> list_ex read_failed es)"
proof (induction ns arbitrary: r es)
  case (Cons n ns)
  obtain bs e r2 where R: "retrReader_Read n r = ((bs, e), r2)" by (metis prod.collapse)
  obtain es2 where E: "retr_reads ns r2 = (es2, r1)" "es = e # es2" using Cons.prems R by (auto split: prod.splits)
  from Cons.IH [OF E(1)] retrReader_Read_state [OF R] E(2) show ?case by auto
qed simp

text \<open>
  C34. Opening an FTP source keeps at most one connection: when \<^verbatim>\<open>Open\<close> fails, every connection it took has
  been released as broken; when it succeeds it has taken one and released none. After any reads, closing
  the stream releases it once, as broken exactly when a read or the close failed, and a second close releases nothing.
\<close>
theorem ftp_source_releases_once:
  "case ftp_Open url_Parse (logged cl) src (w, []) of
     (Inl _, (_, calls)) \<Rightarrow>
       calls = [] \<or> (\<exists>h p. calls = [C_acquire h, C_size p, C_retr p, C_release True])
   | (Inr (rd, _), (w1, calls)) \<Rightarrow>
       (\<exists>h p. calls = [C_acquire h, C_size p, C_retr p]) \<and>
       (case retr_reads lens rd of
          (es, rd1) \<Rightarrow>
            (case retrReader_Close (logged cl) rd1 (w1, calls) of
               (err, rd2, (w2, calls1)) \<Rightarrow>
                 calls1 = calls @ [C_closebody, C_release (case err of None \<Rightarrow> list_ex read_failed es | Some _ \<Rightarrow> True)] \<and>
                 (case retrReader_Close (logged cl) rd2 (w2, calls1) of
                    (_, _, (_, calls2)) \<Rightarrow> calls2 = calls1 @ [C_closebody])))"
proof (cases "\<exists>u c w1. url_Parse src = Inr u \<and> Scheme u = ''ftp'' \<and> Host u \<noteq> [] \<and> Path u \<noteq> [] \<and> fc_Acquire cl (Host u) w = (Inr c, w1)")
  case False
  then show ?thesis by (auto simp: ftp_Open_def logged_def split: sum.splits prod.splits)
next
  case True
  then obtain u c w1 where u: "url_Parse src = Inr u" "Scheme u = ''ftp''" "Host u \<noteq> []" "Path u \<noteq> []"
    "fc_Acquire cl (Host u) w = (Inr c, w1)" by blast
  obtain sz w2 where sz: "fc_FileSize cl c (Path u) w1 = (sz, w2)" by fastforce
  obtain r w3 where r: "fc_Retr cl c (Path u) w2 = (r, w3)" by fastforce
  show ?thesis
  proof (cases r)
    case (Inl e)
    with u sz r show ?thesis by (auto simp: ftp_Open_def logged_def)
  next
    case (Inr b)
    obtain es rd1 where rs: "retr_reads lens \<lparr>rr_body = b, rr_pc = c, rr_released = False, rr_ioErr = False\<rparr> = (es, rd1)"
      by fastforce
    have st: "rr_pc rd1 = c" "rr_released rd1 = False" "rr_ioErr rd1 = list_ex read_failed es"
      using retr_reads_state [OF rs] by simp_all
    obtain err w4 where cb: "fc_CloseBody cl c w3 = (err, w4)" by fastforce
    from u sz r Inr rs st cb show ?thesis
      by (cases err) (auto simp: ftp_Open_def retrReader_Close_def logged_def split: prod.splits)
  qed
qed

section \<open>What the server holds\<close>

text \<open>
  What the code relies on of a server and its client, for a view \<open>files\<close> of the server's files. A \<^verbatim>\<open>STOR\<close> that
  is acknowledged has read its stream to the end and stored it; one that fails can only touch the
  file it names. A rename that is acknowledged replaces its target, one that fails changes nothing;
  deleting touches the named file only; directories and the pool do not touch files.
\<close>

definition ftp_server_laws :: "('w, 'c) ftp_client \<Rightarrow> ('w \<Rightarrow> string \<rightharpoonup> string) \<Rightarrow> bool" where
  "ftp_server_laws cl files \<longleftrightarrow>
     (\<forall>c p d rerr w n w'. fc_Stor cl c p (d, rerr) w = ((None, n), w') \<longrightarrow>
        rerr = None \<and> n = length d \<and> files w' = (files w)(p \<mapsto> d)) \<and>
     (\<forall>c p d w e n w'. fc_Stor cl c p d w = ((Some e, n), w') \<longrightarrow> (\<exists>x. files w' = (files w)(p := x))) \<and>
     (\<forall>c p q w w'. fc_Rename cl c p q w = (None, w') \<longrightarrow> files w' = ((files w)(p := None))(q := files w p)) \<and>
     (\<forall>c p q w e w'. fc_Rename cl c p q w = (Some e, w') \<longrightarrow> files w' = files w) \<and>
     (\<forall>c p w. \<exists>x. files (snd (fc_Delete cl c p w)) = (files w)(p := x)) \<and>
     (\<forall>c p w. files (snd (fc_MakeDir cl c p w)) = files w) \<and>
     (\<forall>h w r w'. fc_Acquire cl h w = (r, w') \<longrightarrow> files w' = files w) \<and>
     (\<forall>c b w. files (fc_Release cl c b w) = files w)"

lemma server_laws:
  assumes "ftp_server_laws cl files"
  shows "fc_Stor cl c p (d, rerr) w = ((None, n), w') \<Longrightarrow> rerr = None \<and> n = length d \<and> files w' = (files w)(p \<mapsto> d)"
    and "fc_Stor cl c p (d, rerr) w = ((Some e, n), w') \<Longrightarrow> \<exists>x. files w' = (files w)(p := x)"
    and "fc_Rename cl c p q w = (None, w') \<Longrightarrow> files w' = ((files w)(p := None))(q := files w p)"
    and "fc_Rename cl c p q w = (Some e, w') \<Longrightarrow> files w' = files w"
    and "\<exists>x. files (snd (fc_Delete cl c p w)) = (files w)(p := x)"
    and "files (snd (fc_MakeDir cl c p w)) = files w"
    and "fc_Acquire cl h w = (r, w') \<Longrightarrow> files w' = files w"
    and "files (fc_Release cl c b w) = files w"
  using assms unfolding ftp_server_laws_def by (simp, fastforce, simp_all)

text \<open>What a valid destination names: the host, and the paths of the temporary and the final file.\<close>

definition ftp_dst :: "(string \<Rightarrow> go_error + url) \<Rightarrow> string \<Rightarrow> string \<Rightarrow> string \<Rightarrow> bool" where
  "ftp_dst url_Parse dst tmp final \<longleftrightarrow>
     (\<exists>u. url_Parse dst = Inr u \<and> Scheme u = ''ftp'' \<and> Host u \<noteq> [] \<and> Path u \<noteq> [] \<and>
        tmp = trim_prefix (Path u @ ''.imgsync.tmp'') ''/'' \<and> final = trim_prefix (Path u) ''/'')"

lemma trim_prefix_tmp: "p \<noteq> [] \<Longrightarrow> trim_prefix (p @ ''.imgsync.tmp'') ''/'' = trim_prefix p ''/'' @ ''.imgsync.tmp''"
  by (cases p) (auto simp: trim_prefix_def)

lemma ftp_Send_ok:
  assumes laws: "ftp_server_laws cl files"
    and send: "ftp_Send url_Parse sha cl re dst body expected w = (Inr (written, h), body', w')"
    and dst: "ftp_dst url_Parse dst tmp final"
  shows "files w' = ((files w)(tmp := None))(final \<mapsto> body_bytes (ct_r body)) \<and> body_error (ct_r body) = None \<and>
    written = int (length (body_bytes (ct_r body))) \<and> h = sha (body_bytes (ct_r body)) \<and> ct_n body' = ct_n body + written"
proof -
  from dst obtain u where u: "url_Parse dst = Inr u" "Scheme u = ''ftp''" "Host u \<noteq> []" "Path u \<noteq> []"
    "tmp = trim_prefix (Path u @ ''.imgsync.tmp'') ''/''" "final = trim_prefix (Path u) ''/''" by (auto simp: ftp_dst_def)
  obtain c w1 where acq: "fc_Acquire cl (Host u) w = (Inr c, w1)"
    using send u by (auto simp: ftp_Send_def Let_def split: sum.splits prod.splits)
  define w2 where "w2 = (if path_Dir (Path u) \<noteq> ''/'' \<and> path_Dir (Path u) \<noteq> ''.'' \<and> path_Dir (Path u) \<noteq> []
    then snd (fc_MakeDir cl c (path_Dir (Path u)) w1) else w1)"
  have f2: "files w2 = files w" using server_laws(6,7) [OF laws] acq by (auto simp: w2_def)
  obtain e out rd where cp: "io_Copy re (\<lambda>_. None) 0 (NewCtxReader body) [] = (e, out, rd)" by (metis prod.collapse)
  obtain n w3 where st: "fc_Stor cl c tmp (out, e) w2 = ((None, n), w3)"
    using send u acq cp by (auto simp: ftp_Send_def Let_def w2_def split: option.splits prod.splits)
  note S = server_laws(1) [OF laws st]
  obtain w4 where rn: "fc_Rename cl c tmp final w3 = (None, w4)" and
    res: "written = int (min (length out) n)" "h = sha (take n out)" "w' = fc_Release cl c False w4" "body' = body\<lparr>ct_n := ct_n body + int n\<rparr>"
    using send u acq cp st by (auto simp: ftp_Send_def Let_def w2_def split: option.splits prod.splits)
  have "e = None" using S by simp
  with cp have "io_Copy re (\<lambda>_. None) 0 (NewCtxReader body) [] = (None, out, rd)" by simp
  from io_Copy_ok [OF this] have out: "out = body_bytes (ct_r body)" "body_error (ct_r body) = None"
    by (simp_all add: NewCtxReader_def)
  have "files w4 = ((files w3)(tmp := None))(final := files w3 tmp)" by (rule server_laws(3) [OF laws rn])
  with S f2 out res server_laws(8) [OF laws] show ?thesis by simp
qed

lemma ftp_Send_failed:
  assumes laws: "ftp_server_laws cl files"
    and send: "ftp_Send url_Parse sha cl re dst body expected w = (Inl err, body', w')"
  shows "files w' = files w \<or> (\<exists>tmp final x. ftp_dst url_Parse dst tmp final \<and> files w' = (files w)(tmp := x))"
proof (cases "\<exists>u c w1. url_Parse dst = Inr u \<and> Scheme u = ''ftp'' \<and> Host u \<noteq> [] \<and> Path u \<noteq> [] \<and> fc_Acquire cl (Host u) w = (Inr c, w1)")
  case False
  with send server_laws(7) [OF laws] show ?thesis
    by (auto simp: ftp_Send_def Let_def split: sum.splits prod.splits if_splits)
next
  case True
  then obtain u c w1 where u: "url_Parse dst = Inr u" "Scheme u = ''ftp''" "Host u \<noteq> []" "Path u \<noteq> []"
    and acq: "fc_Acquire cl (Host u) w = (Inr c, w1)" by blast
  let ?tmp = "trim_prefix (Path u @ ''.imgsync.tmp'') ''/''" and ?final = "trim_prefix (Path u) ''/''"
  have d: "ftp_dst url_Parse dst ?tmp ?final" using u by (auto simp: ftp_dst_def)
  define w2 where "w2 = (if path_Dir (Path u) \<noteq> ''/'' \<and> path_Dir (Path u) \<noteq> ''.'' \<and> path_Dir (Path u) \<noteq> []
    then snd (fc_MakeDir cl c (path_Dir (Path u)) w1) else w1)"
  have f2: "files w2 = files w" using server_laws(6,7) [OF laws] acq by (auto simp: w2_def)
  obtain e out rd where cp: "io_Copy re (\<lambda>_. None) 0 (NewCtxReader body) [] = (e, out, rd)" by (metis prod.collapse)
  obtain se n w3 where st: "fc_Stor cl c ?tmp (out, e) w2 = ((se, n), w3)" by (metis prod.collapse)
  have f3: "\<exists>x. files w3 = (files w)(?tmp := x)"
    using server_laws(1,2) [OF laws] st f2 by (cases se) metis+
  obtain wf where wf: "w' = fc_Release cl c True (snd (fc_Delete cl c ?tmp wf))" "files wf = files w3"
  proof (cases se)
    case None
    obtain e4 w4 where rn: "fc_Rename cl c ?tmp ?final w3 = (Some e4, w4)"
      and "w' = fc_Release cl c True (snd (fc_Delete cl c ?tmp w4))"
      using send u acq cp st None by (auto simp: ftp_Send_def Let_def w2_def split: option.splits prod.splits)
    with server_laws(4) [OF laws rn] that show thesis by blast
  next
    case (Some e3)
    with send u acq cp st that [of w3] show thesis by (auto simp: ftp_Send_def Let_def w2_def)
  qed
  obtain x where "files (snd (fc_Delete cl c ?tmp wf)) = (files wf)(?tmp := x)" using server_laws(5) [OF laws] by blast
  with wf f3 server_laws(8) [OF laws] have "files w' = (files w)(?tmp := x)" by auto
  with d show ?thesis by blast
qed

lemma ftp_dst_unique: "ftp_dst url_Parse dst tmp final \<Longrightarrow> ftp_dst url_Parse dst tmp' final' \<Longrightarrow> tmp' = tmp \<and> final' = final"
  by (auto simp: ftp_dst_def)

text \<open>A server that keeps its files in memory and never fails, except that it passes on an error of the stream.\<close>

definition memory_client :: "(string \<rightharpoonup> string, unit) ftp_client" where
  "memory_client =
     \<lparr>fc_Acquire = (\<lambda>h w. (Inr (), w)), fc_Release = (\<lambda>c b w. w),
      fc_FileSize = (\<lambda>c p w. (case w p of None \<Rightarrow> Inl (TextprotoError 550 ''no such file'') | Some d \<Rightarrow> Inr (int (length d)), w)),
      fc_Retr = (\<lambda>c p w. (case w p of None \<Rightarrow> Inl (TextprotoError 550 ''no such file'') | Some d \<Rightarrow> Inr [(d, Some Eof)], w)),
      fc_CloseBody = (\<lambda>c w. (None, w)), fc_MakeDir = (\<lambda>c p w. (None, w)),
      fc_Stor = (\<lambda>c p (d, rerr) w. ((rerr, length d), w(p \<mapsto> d))),
      fc_Rename = (\<lambda>c p q w. (None, (w(p := None))(q := w p))), fc_Delete = (\<lambda>c p w. (None, w(p := None)))\<rparr>"

lemma memory_client_laws: "ftp_server_laws memory_client (\<lambda>w. w)"
  by (auto simp: ftp_server_laws_def memory_client_def)

definition plain_url :: "string \<Rightarrow> go_error + url" where
  "plain_url s =
     (if take 6 s = ''ftp://'' then
        (let r = drop 6 s in Inr \<lparr>Scheme = ''ftp'', Host = takeWhile (\<lambda>c. c \<noteq> CHR ''/'') r, Path = dropWhile (\<lambda>c. c \<noteq> CHR ''/'') r\<rparr>)
      else Inl (PlainErr ''unsupported''))"



text \<open>
  Errors of the server keep their meaning: of the errors \<^verbatim>\<open>STOR\<close> and the rename can give, exactly those
  with reply code 550, 552 or 553 become permanent, no error becomes skippable, and a source is skipped as missing
  exactly for code 550 with a text that mentions neither permissions nor denied access.
\<close>
lemma ftp_errors_classified:
  assumes "errors_is e ErrPermanent = False" and "errors_is e ErrSkippable = False"
  shows "(errors_is (classify e) ErrPermanent \<longleftrightarrow> (\<exists>code msg. as_textproto e = Some (code, msg) \<and> code \<in> {550, 552, 553})) \<and>
    errors_is (classify e) ErrSkippable = False \<and>
    (isNotFound e \<longleftrightarrow> (\<exists>msg. as_textproto e = Some (550, msg) \<and> \<not> contains ''permission'' (to_lower msg) \<and>
       \<not> contains ''access denied'' (to_lower msg)))"
  using assms by (auto simp: classify_def isNotFound_def Let_def split: option.splits)

text \<open>
  The directory is made with its absolute path, but the file is stored under a path relative to the login
  directory, so on a server whose login directory is not the root they are different places.
\<close>

lemma ftp_makedir_absolute_stor_relative:
  "snd (snd (snd (ftp_Send plain_url (\<lambda>_. []) (logged memory_client) (\<lambda>_. \<lparr>re_err = None, re_done = None\<rparr>) ''ftp://h/in/a''
      \<lparr>ct_r = [], ct_n = 0\<rparr> 0 (Map.empty, [])))) =
   [C_acquire ''h'', C_makedir ''/in'', C_stor ''in/a.imgsync.tmp'', C_rename ''in/a.imgsync.tmp'' ''in/a'', C_release False]"
  by (simp add: ftp_Send_def plain_url_def logged_def memory_client_def Let_def trim_prefix_def path_Dir_def path_Clean_def
      NewCtxReader_def io_Copy.simps ctxReader_Read_def start_read_def counter_Read_def)

end
