(* ===== verification/Ftp_Server.thy ===== *)
theory Ftp_Server
  imports Transfer_Ftp Ftp_Pool_Hosts
begin

text \<open>
  \<^verbatim>\<open>internal/ftpserver/testserver.go\<close>: the FTP server the integration tests run against. The protocol is the server
  library's; the code under \<^verbatim>\<open>src\<close> starts it, checks the login and maps the paths of a client into the root directory.
\<close>

section \<open>The driver\<close>

record ftp_driver =
  dr_root :: string
  dr_user :: string
  dr_pass :: string
  dr_listener :: string

record ftp_settings =
  fs_Listener :: string
  fs_Binary :: bool
  fs_DisableMLSD :: bool
  fs_DisableMLST :: bool

definition GetSettings :: "ftp_driver \<Rightarrow> ftp_settings" where
  "GetSettings d = \<lparr>fs_Listener = dr_listener d, fs_Binary = True, fs_DisableMLSD = True, fs_DisableMLST = True\<rparr>"

definition ClientConnected :: "go_error + string" where
  "ClientConnected = Inr ''imgsync test ftp''"

text \<open>A client's file system is the directory it is rooted in.\<close>

definition AuthUser_driver :: "ftp_driver \<Rightarrow> string \<Rightarrow> string \<Rightarrow> go_error + string" where
  "AuthUser_driver d user pass =
     (if user \<noteq> dr_user d \<or> pass \<noteq> dr_pass d then Inl (PlainErr ''auth: bad credentials'') else Inr (dr_root d))"

definition GetTLSConfig :: "go_error + unit" where
  "GetTLSConfig = Inl (PlainErr ''tls not configured'')"

definition AbsPath :: "string \<Rightarrow> string" where
  "AbsPath p = path_Clean (''/'' @ p)"

section \<open>Starting\<close>

record FtpServer =
  sv_Addr :: string
  sv_User :: string
  sv_Pass :: string
  sv_RootDir :: string

text \<open>
  \<open>tmp\<close> is the test's temporary directory, \<open>listen\<close> the address of the listener and \<open>srv_Listen\<close> the library's
  answer to the driver. The error is the message the test fails with.
\<close>

definition ftpserver_Start ::
  "string \<Rightarrow> go_error + string \<Rightarrow> (ftp_driver \<Rightarrow> go_error option) \<Rightarrow> string + FtpServer \<times> ftp_driver"
where
  "ftpserver_Start tmp listen srv_Listen =
     (case listen of
        Inl err \<Rightarrow> Inl (''ftpserver: listen: '' @ err_text err)
      | Inr addr \<Rightarrow>
          let d = \<lparr>dr_root = tmp, dr_user = ''imgsync'', dr_pass = ''imgsync'', dr_listener = addr\<rparr> in
          (case srv_Listen d of
             Some err \<Rightarrow> Inl (''ftpserver: srv.Listen: '' @ err_text err)
           | None \<Rightarrow> Inr (\<lparr>sv_Addr = addr, sv_User = dr_user d, sv_Pass = dr_pass d, sv_RootDir = tmp\<rparr>, d)))"

section \<open>Clean paths\<close>

definition plain_part :: "string \<Rightarrow> bool" where
  "plain_part e \<longleftrightarrow> e \<noteq> [] \<and> e \<noteq> ''.'' \<and> e \<noteq> ''..'' \<and> CHR ''/'' \<notin> set e"

lemma split_on_not_Nil [simp]: "split_on d s \<noteq> []"
  by (cases s) (auto split: list.splits)

lemma split_on_parts: "e \<in> set (split_on d s) \<Longrightarrow> d \<notin> set e"
  by (induction s arbitrary: e) (auto split: if_splits list.splits)

lemma split_on_append:
  "d \<notin> set w \<Longrightarrow> split_on d (w @ s) = (case split_on d s of [] \<Rightarrow> [w] | v # vs \<Rightarrow> (w @ v) # vs)"
  by (induction w) (auto split: list.splits)

lemma split_on_join:
  "ws \<noteq> [] \<Longrightarrow> \<forall>w \<in> set ws. d \<notin> set w \<Longrightarrow> split_on d (join_with d ws) = ws"
proof (induction d ws rule: join_with.induct)
  case (2 d w)
  then show ?case using split_on_append [of d w "[]"] by simp
next
  case (3 d w v vs)
  then show ?case using split_on_append [of d w "d # join_with d (v # vs)"] by simp
qed simp

lemma clean_parts_plain:
  "list_all plain_part st \<Longrightarrow> \<forall>e \<in> set ps. CHR ''/'' \<notin> set e \<Longrightarrow> list_all plain_part (clean_parts True st ps)"
  by (induction True st ps rule: clean_parts.induct) (auto simp: plain_part_def list_all_rev split: list.splits)

lemma clean_parts_id: "list_all plain_part ps \<Longrightarrow> clean_parts True st ps = rev st @ ps"
  by (induction ps arbitrary: st) (auto simp: plain_part_def)

lemma AbsPath_parts: "AbsPath p = ''/'' @ join_with (CHR ''/'') (clean_parts True [] (split_on (CHR ''/'') p))"
  by (simp add: AbsPath_def path_Clean_def)

lemma AbsPath_join:
  assumes "list_all plain_part ps"
  shows "AbsPath (join_with (CHR ''/'') ps) = ''/'' @ join_with (CHR ''/'') ps"
proof (cases "ps = []")
  case True
  then show ?thesis by (simp add: AbsPath_parts)
next
  case False
  with assms have "split_on (CHR ''/'') (join_with (CHR ''/'') ps) = ps"
    by (intro split_on_join) (auto simp: list_all_iff plain_part_def)
  with assms show ?thesis by (simp add: AbsPath_parts clean_parts_id)
qed

lemma AbsPath_slash: "AbsPath (''/'' @ p) = AbsPath p"
  by (simp add: AbsPath_parts)

lemma AbsPath_trim: "AbsPath (trim_prefix p ''/'') = AbsPath p"
  using AbsPath_slash [of "drop 1 p"] by (cases p) (auto simp: trim_prefix_def)

text \<open>
  A client of the test server stays below the root. Whatever path it sends, with or without a leading slash, with
  empty elements, \<^verbatim>\<open>.\<close> and \<^verbatim>\<open>..\<close> anywhere, the server works on an absolute path made of plain elements, without \<^verbatim>\<open>..\<close>;
  applying the mapping again changes nothing, and the relative name the FTP transport stores under is the same file as
  the absolute one.
\<close>
lemma AbsPath_confined:
  "(\<exists>ps. AbsPath p = ''/'' @ join_with (CHR ''/'') ps \<and>
      list_all (\<lambda>e. e \<noteq> [] \<and> e \<noteq> ''.'' \<and> e \<noteq> ''..'' \<and> CHR ''/'' \<notin> set e) ps) \<and>
   AbsPath (AbsPath p) = AbsPath p \<and> AbsPath (trim_prefix p ''/'') = AbsPath p"
proof -
  let ?ps = "clean_parts True [] (split_on (CHR ''/'') p)"
  have ps: "list_all plain_part ?ps"
    using split_on_parts [of _ "CHR ''/''" p] by (intro clean_parts_plain) auto
  have "AbsPath (AbsPath p) = AbsPath p"
    unfolding AbsPath_parts [of p] AbsPath_slash by (rule AbsPath_join [OF ps])
  then show ?thesis using ps AbsPath_parts [of p] AbsPath_trim [of p] by (auto simp: plain_part_def [abs_def])
qed

section \<open>Logging in\<close>

text \<open>
  A pool that is configured with the credentials the server was started with can open connections, and only such a
  pool: with others \<^verbatim>\<open>dial\<close> reports a failed login.
\<close>

lemma started_server_login:
  assumes "ftpserver_Start tmp listen srv_Listen = Inr (sv, d)"
    and "\<And>c u p. Login c u p = (case AuthUser_driver d u p of Inl err \<Rightarrow> Some err | Inr _ \<Rightarrow> None)"
    and "Dial host (DialTimeout cfg) = Inr c"
  shows "dial Dial Login cfg host =
    (if AuthUser cfg = sv_User sv \<and> AuthPassword cfg = sv_Pass sv then Inr c
     else Inl (wrap_err (''ftp login '' @ host @ '': '') (PlainErr ''auth: bad credentials'')))"
  using assms by (auto simp: dial_def AuthUser_driver_def ftpserver_Start_def Let_def split: sum.splits option.splits)

end
