(* ===== verification/Worker_Progress.thy ===== *)
theory Worker_Progress
  imports Worker_Props
begin

text \<open>
  A worker makes progress: a transfer attempt whose outcome reaches the database uses up budget or finishes the job,
  so a worker alone on a queue leases only finitely often, whatever its sources and transports do.
\<close>

section \<open>Remaining work\<close>

definition weight :: "Job \<Rightarrow> nat" where
  "weight j = (if terminal (Status j) then 0 else nat (MaxAttempts j - Attempts j))"

definition work :: "db \<Rightarrow> nat" where
  "work D = sum_list (map weight (transfer_jobs D))"

lemma work_upd_where:
  assumes "\<And>j. j \<in> set js \<Longrightarrow> p j \<Longrightarrow> weight (f j) < weight j"
  shows "sum_list (map weight (upd_where p f js)) \<le> sum_list (map weight js) \<and>
    ((\<exists>j \<in> set js. p j) \<longrightarrow> sum_list (map weight (upd_where p f js)) < sum_list (map weight js))"
  using assms
proof (induction js)
  case (Cons j js)
  then have "sum_list (map weight (upd_where p f js)) \<le> sum_list (map weight js) \<and>
    ((\<exists>j \<in> set js. p j) \<longrightarrow> sum_list (map weight (upd_where p f js)) < sum_list (map weight js))" by simp
  then show ?case using Cons.prems [of j] by (cases "p j") auto
qed simp

lemma work_upd_where_same:
  "(\<And>j. j \<in> set (transfer_jobs D) \<Longrightarrow> p j \<Longrightarrow> weight (f j) = weight j) \<Longrightarrow>
   work (D\<lparr>transfer_jobs := upd_where p f (transfer_jobs D)\<rparr>) = work D"
  unfolding work_def by (simp add: map_upd_where)

lemma guarded_write_work:
  assumes "\<And>j. j \<in> set (transfer_jobs D) \<Longrightarrow> holds_lease i lb j \<Longrightarrow> weight (f j) < weight j"
  shows "work (snd (guarded_write now i lb f st det D)) \<le> work D"
    and "j \<in> set (transfer_jobs D) \<Longrightarrow> holds_lease i lb j \<Longrightarrow> work (snd (guarded_write now i lb f st det D)) < work D"
  using work_upd_where [of "transfer_jobs D" "holds_lease i lb" f] assms
  by (auto simp: work_def guarded_write_def Let_def)

lemma outcome_weight:
  "weight (success_row now a j) = 0" "weight (terminal_row Skipped now a j) = 0" "weight (terminal_row Dead now a j) = 0"
  "weight (retry_row ms now a j) = nat (MaxAttempts j - a)"
  by (simp_all add: weight_def success_row_def terminal_row_def retry_row_def)

text \<open>Every outcome write that takes effect reduces the work.\<close>

lemma outcome_write_work:
  assumes "outcome_write lb job D D'" and "db_ok D" and "snapshot_current lb job D"
  shows "work D' \<le> work D" and "j \<in> set (transfer_jobs D) \<Longrightarrow> holds_lease (ID job) lb j \<Longrightarrow> D' \<noteq> D \<Longrightarrow> work D' < work D"
proof -
  have a: "weight j = nat (MaxAttempts job - Attempts job)" "MaxAttempts j = MaxAttempts job" "Attempts job < MaxAttempts job"
    if "j \<in> set (transfer_jobs D)" "holds_lease (ID job) lb j" for j
    using assms(3) that db_okD(3) [OF assms(2) that(1)]
    by (auto simp: snapshot_current_def holds_lease_def weight_def row_ok_def)
  have rows: "weight (success_row now (Attempts job) j) < weight j"
    "weight (terminal_row Skipped now (Attempts job) j) < weight j"
    "weight (terminal_row Dead now (Attempts job + 1) j) < weight j"
    "weight (retry_row ms now (Attempts job + 1) j) < weight j"
    if "j \<in> set (transfer_jobs D)" "holds_lease (ID job) lb j" for j now ms
    using a [OF that] by (simp_all add: outcome_weight)
  note w = guarded_write_work [OF rows(1)] guarded_write_work [OF rows(2)] guarded_write_work [OF rows(3)]
    guarded_write_work [OF rows(4)]
  show "work D' \<le> work D" using assms(1) by (cases rule: outcome_write.cases) (simp_all add: w)
  show "work D' < work D" if "j \<in> set (transfer_jobs D)" "holds_lease (ID job) lb j" "D' \<noteq> D"
    using assms(1) that by (cases rule: outcome_write.cases) (simp_all add: w)
qed

section \<open>An outcome that reaches the database gives the lease up\<close>

definition released :: "Job \<Rightarrow> string \<Rightarrow> db \<Rightarrow> bool" where
  "released job lb D \<longleftrightarrow> (\<forall>k \<in> set (transfer_jobs D). \<not> holds_lease (ID job) lb k)"

lemma guarded_write_released:
  "(\<And>j. Status (f j) \<noteq> Leased) \<Longrightarrow> released job lb (snd (guarded_write now (ID job) lb f st det D))"
  by (auto simp: released_def guarded_write_rows holds_lease_def)

lemma writes_release:
  assumes "w_out v = DB_Ok"
  shows "released job lb (snd (writeSuccess v lb job n sha D))"
    and "released job lb (snd (writeTerminal v lb job Skipped Ev_skip det bump D))"
    and "released job lb (snd (writeTerminal v lb job Dead Ev_dead det bump D))"
    and "released job lb (snd (writeTerminalWithAttempts v lb job Dead Ev_dead det a D))"
  unfolding writeSuccess_def writeTerminal_def writeTerminalWithAttempts_def exec_err_def snd_conv assms pg_exec.simps Let_def
    case_prod_unfold
  by (rule guarded_write_released; simp add: success_row_def terminal_row_def)+

lemma writeRetryOrDead_releases:
  assumes "w_out v = DB_Ok" and "writeRetryOrDead v lb hook job det D = (res, acts, D')"
  shows "released job lb D'"
proof (cases "MaxAttempts job \<le> Attempts job + 1")
  case True
  then have "D' = snd (writeTerminalWithAttempts v lb job Dead Ev_dead det (Attempts job + 1) D)"
    using assms(2) by (auto simp: writeRetryOrDead_def Let_def split: prod.splits option.splits)
  then show ?thesis using writes_release(4) [OF assms(1)] by simp
next
  case False
  then have "D' = snd (guarded_write (w_now v) (ID job) lb
      (retry_row (duration_milliseconds (retryBackoff (w_oor v) (w_rand v) (Attempts job + 1))) (w_now v) (Attempts job + 1))
      Ev_fail (JObj det) D)"
    using assms by (auto simp: writeRetryOrDead_def Let_def split: prod.splits if_splits)
  then show ?thesis by (simp add: guarded_write_released retry_row_def)
qed

lemma classifyAndWrite_releases:
  assumes "w_out v = DB_Ok" and "classifyAndWrite v lb job err det D = (res, acts, D')"
  shows "released job lb D'"
  using assms writes_release [OF assms(1), of job lb] writeRetryOrDead_releases [OF assms(1)]
  by (auto simp: classifyAndWrite_def split: prod.splits option.splits if_splits) (metis snd_conv)+

lemma deferred_returning_releases:
  assumes "w_out v = DB_Ok"
    and "deferred_close src b (returning w (classifyAndWrite v lb job err det D)) = (r, acts, w', D')"
  shows "released job lb D'"
  using assms(2) classifyAndWrite_releases [OF assms(1)]
  by (cases "classifyAndWrite v lb job err det D") (auto simp: returning_def dest!: deferred_close_db)

lemma writeSuccess_releases: "w_out v = DB_Ok \<Longrightarrow> writeSuccess v lb job n sha D = (e, D') \<Longrightarrow> released job lb D'"
  by (metis writes_release(1) snd_conv)

lemma ProcessJob_releases:
  assumes "w_out v = DB_Ok" and "ProcessJob v d job w D = (Ret x, acts, w', D')"
  shows "released job (d_LockedBy d) D'"
  using assms(2)
  by (auto simp: ProcessJob_def Let_def deferred_not_succeeded(2)
      dest!: deferred_returning_releases [OF assms(1)] returning_eq
      dest: classifyAndWrite_releases [OF assms(1)] writeSuccess_releases [OF assms(1)]
      split: prod.splits go.splits sum.splits option.splits if_splits)

lemma processOne_releases:
  assumes "w_out v = DB_Ok" and "w_out vp = DB_Ok" and "processOne v vp r lb job w D = (acts, w', D')"
  shows "released job lb D'"
proof (cases "SourceFor r (SrcProtocol job)")
  case (Inl err)
  let ?t = "writeTerminal v lb job Dead Ev_dead [(''error'', JStr (err_text err)), (''stage'', JStr ''source-factory'')] True D"
  have "D' = snd ?t" using assms(3) Inl by (auto simp: processOne_def split: prod.splits)
  then show ?thesis using writes_release(3) [OF assms(1)] by simp
next
  case src: (Inr src)
  show ?thesis
  proof (cases "TransportFor r (DstProtocol job)")
    case (Inl err)
    let ?t = "writeTerminal v lb job Dead Ev_dead [(''error'', JStr (err_text err)), (''stage'', JStr ''transport-factory'')] True D"
    have "D' = snd ?t" using assms(3) src Inl by (auto simp: processOne_def split: prod.splits)
    then show ?thesis using writes_release(3) [OF assms(1)] by simp
  next
    case (Inr tr)
    let ?d = "\<lparr>d_LockedBy = lb, d_Source = src, d_Transport = tr\<rparr>"
    obtain res acts1 w1 D1 where P: "ProcessJob v ?d job w D = (res, acts1, w1, D1)" by (metis prod.exhaust)
    show ?thesis
    proof (cases res)
      case (Ret x)
      with assms(3) src Inr P have "D' = D1" by (auto simp: processOne_def split: prod.splits)
      then show ?thesis using ProcessJob_releases [OF assms(1) P [unfolded Ret]] by simp
    next
      case (Panic p)
      with assms(3) src Inr P obtain det res' acts' where "writeRetryOrDead vp lb False job det D1 = (res', acts', D')"
        by (auto simp: processOne_def split: prod.splits)
      then show ?thesis by (rule writeRetryOrDead_releases [OF assms(2)])
    qed
  qed
qed

lemma processOne_work:
  assumes "w_out v = DB_Ok" and "w_out vp = DB_Ok" and "processOne v vp r lb job w D = (acts, w', D')"
    and "db_ok D" and "snapshot_current lb job D" and "j \<in> set (transfer_jobs D)" and "holds_lease (ID job) lb j"
  shows "work D' < work D"
proof -
  obtain D1 where w: "outcome_write lb job D D1" "outcome_write lb job D1 D'"
    using processOne_outcome [OF assms(3)] by blast
  have "D' \<noteq> D" using processOne_releases [OF assms(1-3)] assms(6,7) by (auto simp: released_def)
  note W = outcome_write_work [OF _ assms(4,5)]
  show ?thesis
  proof (cases "D1 = D")
    case True
    with W(2) [of D' j] w(2) assms(6,7) \<open>D' \<noteq> D\<close> show ?thesis by simp
  next
    case False
    have "D' = D1" using outcome_write_lost [OF w(2)] outcome_write_not_held [OF w(1) False] by blast
    with W(2) [OF w(1) assms(6,7) False] show ?thesis by simp
  qed
qed

section \<open>The loop\<close>

text \<open>A worker alone: nothing else touches the tables, and the outcome writes reach the database.\<close>

definition alone :: "iteration \<Rightarrow> bool" where
  "alone it \<longleftrightarrow> it_pre it = id \<and> it_mid it = id \<and> w_out (it_v it) = DB_Ok \<and> w_out (it_vp it) = DB_Ok"

definition leases :: "action list \<Rightarrow> nat" where
  "leases acts = count_list acts (OnLeaseAttempt True)"

lemma classify_no_lease:
  "classifyAndWrite v lb job err det D = (res, acts, D') \<Longrightarrow> leases acts = 0"
  by (auto simp: leases_def classifyAndWrite_def writeRetryOrDead_def Let_def
      split: if_splits prod.splits option.splits sum.splits)

lemma retry_no_lease: "writeRetryOrDead v lb hook job det D = (res, acts, D') \<Longrightarrow> leases acts = 0"
  by (auto simp: leases_def writeRetryOrDead_def Let_def split: if_splits prod.splits option.splits sum.splits)

lemma leases_append [simp]: "leases (xs @ ys) = leases xs + leases ys"
  by (simp add: leases_def count_list_append)

lemma leases_Cons [simp]: "leases (a # xs) = (if a = OnLeaseAttempt True then Suc (leases xs) else leases xs)"
  by (simp add: leases_def)

lemma leases_Nil [simp]: "leases [] = 0"
  by (simp add: leases_def)

lemma deferred_no_lease:
  assumes "deferred_close src b (returning w (classifyAndWrite v lb job err det D)) = (r, acts, w', D')"
  shows "leases acts = 0"
  using assms classify_no_lease
  by (cases "classifyAndWrite v lb job err det D") (auto simp: returning_def dest!: deferred_close_db)

lemma ProcessJob_no_lease: "ProcessJob v d job w D = (r, acts, w', D') \<Longrightarrow> leases acts = 0"
  by (auto simp: ProcessJob_def Let_def dest!: deferred_no_lease deferred_close_db returning_eq dest: classify_no_lease
      split: prod.splits go.splits sum.splits option.splits if_splits)

lemma processOne_no_lease: "processOne v vp r lb job w D = (acts, w', D') \<Longrightarrow> leases acts = 0"
  by (auto simp: processOne_def dest: ProcessJob_no_lease retry_no_lease split: sum.splits prod.splits go.splits)

lemma weight_pending_lease: "Status j = Pending \<Longrightarrow> weight (lease_row now w j) = weight j"
  by (simp add: weight_def lease_row_def)

lemma lease_stmt_work:
  assumes "db_ok D"
  shows "work (snd (lease_stmt now skip w D)) = work D"
proof (cases "lease_stmt now skip w D")
  case (Pair r D')
  show ?thesis
  proof (cases r)
    case None
    with Pair show ?thesis using lease_stmt_None [of now skip w D D'] by simp
  next
    case (Some job)
    with Pair have "lease_stmt now skip w D = (Some job, D')" by simp
    then have "work D' = work D"
    proof (rule lease_stmt_Some)
      fix n assume n: "n \<in> set (transfer_jobs D)" "Status n = Pending"
        and D': "D' = D\<lparr>transfer_jobs := upd_where (\<lambda>j. ID j = ID n) (lease_row now w) (transfer_jobs D)\<rparr>"
      have "j = n" if "j \<in> set (transfer_jobs D)" "ID j = ID n" for j
        using that distinct_map_eq [OF db_okD(1) [OF assms]] n(1) by blast
      then have "weight (lease_row now w j) = weight j" if "j \<in> set (transfer_jobs D)" "ID j = ID n" for j
        using that n(2) by (metis weight_pending_lease)
      then show "work D' = work D" unfolding D' by (intro work_upd_where_same) blast
    qed
    with Pair show ?thesis by simp
  qed
qed

lemma LeaseJob_work: "db_ok D \<Longrightarrow> work (snd (LeaseJob out now skip w D)) = work D"
  unfolding LeaseJob_db
  by (cases rule: pg_exec_cases [of out "lease_stmt now skip w" D]) (auto simp: lease_stmt_work)

lemma LeaseJob_holds:
  assumes "LeaseJob out now skip lb D = (Inr (Some job), D')"
  shows "\<exists>j \<in> set (transfer_jobs D'). holds_lease (ID job) lb j"
proof -
  have "lease_stmt now skip lb D = (Some job, D')" using assms LeaseJob_Some by blast
  then show ?thesis
  proof (rule lease_stmt_Some)
    fix n assume n: "n \<in> set (transfer_jobs D)" "job = lease_row now lb n"
      and D': "D' = D\<lparr>transfer_jobs := upd_where (\<lambda>j. ID j = ID n) (lease_row now lb) (transfer_jobs D)\<rparr>"
    have "lease_row now lb n \<in> set (transfer_jobs D')"
      using upd_where_image [OF n(1), of "\<lambda>j. ID j = ID n" "lease_row now lb"] D' by simp
    moreover have "holds_lease (ID job) lb (lease_row now lb n)" by (simp add: n(2) holds_lease_def lease_row_def)
    ultimately show ?thesis by blast
  qed
qed

lemma loop_turn_work:
  assumes "db_ok D" and "alone it" and "loop_turn r lb it w D = (acts, w', D')"
  shows "db_ok D' \<and> leases acts + work D' \<le> work D"
proof -
  obtain l D1 where L: "LeaseJob (it_lease it) (it_now it) (it_skip it) lb D = (l, D1)" by fastforce
  have ok1: "db_ok D1" using db_ok_LeaseJob [OF assms(1)] L by (metis snd_conv)
  have w1: "work D1 = work D" using LeaseJob_work [OF assms(1)] L by (metis snd_conv)
  show ?thesis
  proof (cases "\<exists>job. l = Inr (Some job)")
    case False
    then have "D' = D1 \<and> acts = [OnLeaseAttempt False, WaitOnce]"
      using assms(2,3) L by (auto simp: loop_turn_def alone_def split: sum.splits option.splits)
    with ok1 w1 show ?thesis by simp
  next
    case True
    then obtain job where job: "l = Inr (Some job)" by blast
    obtain acts1 w2 D2 where P: "processOne (it_v it) (it_vp it) r lb job w D1 = (acts1, w2, D2)"
      by (metis prod.collapse)
    have D': "D' = D2" "acts = [OnLeaseAttempt True, WakeAll] @ acts1"
      using assms(2,3) L job P by (auto simp: loop_turn_def alone_def)
    have snap: "snapshot_current lb job D1" using LeaseJob_own_snapshot [OF assms(1) L [unfolded job]] .
    obtain j where j: "j \<in> set (transfer_jobs D1)" "holds_lease (ID job) lb j"
      using LeaseJob_holds [OF L [unfolded job]] by blast
    have "work D2 < work D1"
      using processOne_work [OF _ _ P ok1 snap j] assms(2) by (simp add: alone_def)
    moreover have "db_ok D2" using processOne_ok(1) [OF P ok1 snap] .
    ultimately show ?thesis using D' w1 processOne_no_lease [OF P] by simp
  qed
qed

text \<open>
  C12. The work of a worker is finite. A worker that is alone on the queue and whose outcome writes reach the database
  leases jobs at most as often as there are attempts left in the table, however many turns its loop makes, whatever
  its sources and transports do (errors of any class and panics included) and even when lease calls fail: each lease
  costs at least one unit of the remaining work, and the rest is still there afterwards.
\<close>
theorem worker_work_terminates:
  assumes "db_ok D" and "list_all alone its" and "loop_from r lb its w D = (fin, acts, w', D')"
  shows "leases acts + work D' \<le> work D"
  using assms
proof (induction its arbitrary: w D acts fin)
  case (Cons it its)
  show ?case
  proof (cases "it_cancelled it")
    case False
    obtain acts1 w1 D1 where t: "loop_turn r lb it w D = (acts1, w1, D1)" by (metis prod.collapse)
    obtain fin2 acts2 w2 D2 where l: "loop_from r lb its w1 D1 = (fin2, acts2, w2, D2)" by (metis prod.collapse)
    have "db_ok D1 \<and> leases acts1 + work D1 \<le> work D" using loop_turn_work [OF Cons.prems(1) _ t] Cons.prems(2) by simp
    moreover have "D2 = D'" "acts = acts1 @ acts2" "w2 = w'" using Cons.prems(3) False t l by simp_all
    ultimately show ?thesis using Cons.IH [of D1 w1 fin2 acts2] Cons.prems(2) l by simp
  qed (use Cons.prems in simp)
qed simp

theorem worker_work_terminates_witness:
  "work ex_db = 15 \<and>
   leases (fst (snd (loop_from (ex_runner 3) ''v''
     (replicate 40 \<lparr>it_cancelled = False, it_lease = DB_Ok, it_now = 25, it_skip = (\<lambda>_. False), it_v = ex_v, it_vp = ex_v,
        it_pre = id, it_mid = id\<rparr>) () ex_db))) \<le> 15"
proof -
  let ?its = "replicate 40 \<lparr>it_cancelled = False, it_lease = DB_Ok, it_now = 25, it_skip = (\<lambda>_. False), it_v = ex_v, it_vp = ex_v,
        it_pre = id, it_mid = id\<rparr>"
  obtain fin acts w' D' where l: "loop_from (ex_runner 3) ''v'' ?its () ex_db = (fin, acts, w', D')" by (metis prod.collapse)
  have "list_all alone ?its" by (simp add: list_all_iff alone_def ex_v_def)
  from worker_work_terminates [OF ex_db_ok this l] have "leases acts + work D' \<le> work ex_db" .
  moreover have "work ex_db = 15" by (simp add: work_def weight_def ex_db_def ex_row_def new_row_def lease_row_def)
  ultimately show ?thesis unfolding l by simp
qed

section \<open>Draining the queue\<close>

definition unleased :: "db \<Rightarrow> bool" where
  "unleased D \<longleftrightarrow> (\<forall>j \<in> set (transfer_jobs D). Status j \<noteq> Leased)"

text \<open>Turns that come when every pending row is due, with a lease call that is answered.\<close>

fun due_turns :: "('w, 'b) Runner \<Rightarrow> string \<Rightarrow> iteration list \<Rightarrow> 'w \<Rightarrow> db \<Rightarrow> bool" where
  "due_turns r lb [] w D \<longleftrightarrow> True"
| "due_turns r lb (it # its) w D \<longleftrightarrow>
     \<not> it_cancelled it \<and> it_lease it = DB_Ok \<and>
     (\<forall>j \<in> set (transfer_jobs D). Status j = Pending \<longrightarrow> NextRunAt j \<le> it_now it \<and> \<not> it_skip it (ID j)) \<and>
     (case loop_turn r lb it w D of (_, w', D') \<Rightarrow> due_turns r lb its w' D')"

lemma work_zero:
  assumes "db_ok D"
  shows "work D = 0 \<longleftrightarrow> (\<forall>j \<in> set (transfer_jobs D). terminal (Status j))"
proof -
  have "weight j = 0 \<longleftrightarrow> terminal (Status j)" if "j \<in> set (transfer_jobs D)" for j
    using db_okD(3) [OF assms that] by (auto simp: weight_def row_ok_def)
  then show ?thesis unfolding work_def sum_list_eq_0_iff by simp
qed

lemma outcome_write_leased:
  "outcome_write lb job D D' \<Longrightarrow> k \<in> set (transfer_jobs D') \<Longrightarrow> Status k = Leased \<Longrightarrow> k \<in> set (transfer_jobs D)"
  using outcome_write_rows by blast

lemma processOne_leased:
  assumes "processOne v vp r lb job w D = (acts, w', D')" and "k \<in> set (transfer_jobs D')" and "Status k = Leased"
  shows "k \<in> set (transfer_jobs D)"
  using processOne_outcome [OF assms(1)] assms(2,3) by (blast intro: outcome_write_leased)

lemma outcome_write_ids: "outcome_write lb job D D' \<Longrightarrow> map ID (transfer_jobs D') = map ID (transfer_jobs D)"
  by (cases rule: outcome_write.cases)
     (auto simp: guarded_write_def Let_def upd_where_def success_row_def terminal_row_def retry_row_def)

lemma processOne_ids:
  "processOne v vp r lb job w D = (acts, w', D') \<Longrightarrow> map ID (transfer_jobs D') = map ID (transfer_jobs D)"
  by (drule processOne_outcome) (auto dest!: outcome_write_ids)

text \<open>A turn on a queue with a due row and no leases leaves no lease behind and has less to do after it.\<close>

lemma due_turn:
  assumes "db_ok D" and "unleased D" and "alone it" and "it_lease it = DB_Ok"
    and "\<forall>j \<in> set (transfer_jobs D). Status j = Pending \<longrightarrow> NextRunAt j \<le> it_now it \<and> \<not> it_skip it (ID j)"
    and "loop_turn r lb it w D = (acts, w', D')"
  shows "unleased D' \<and> work D' \<le> work D - 1 \<and> map ID (transfer_jobs D') = map ID (transfer_jobs D)"
proof (cases "lease_stmt (it_now it) (it_skip it) lb D")
  case (Pair l D1)
  have L: "LeaseJob (it_lease it) (it_now it) (it_skip it) lb D = (Inr l, D1)"
    using Pair assms(4) by (simp add: LeaseJob_Some)
  show ?thesis
  proof (cases l)
    case None
    with Pair have c: "lease_candidates (it_now it) (it_skip it) D = []" "D1 = D" by (simp_all add: lease_stmt_None)
    have "terminal (Status j)" if j: "j \<in> set (transfer_jobs D)" for j
    proof -
      have "Status j \<noteq> Pending" using c(1) assms(5) j by (auto simp: lease_candidates_def filter_empty_conv)
      with assms(2) j show ?thesis by (cases "Status j") (auto simp: unleased_def)
    qed
    with work_zero [OF assms(1)] have "work D = 0" by blast
    moreover have "D' = D" using assms(3,6) L None c(2) by (simp add: loop_turn_def alone_def)
    ultimately show ?thesis using assms(2) by simp
  next
    case (Some job)
    obtain acts1 w2 D2 where P: "processOne (it_v it) (it_vp it) r lb job w D1 = (acts1, w2, D2)"
      by (metis prod.collapse)
    have D': "D' = D2" "leases acts = Suc 0"
      using assms(3,6) L Some P processOne_no_lease [OF P] by (auto simp: loop_turn_def alone_def)
    have rel: "released job lb D2"
      using processOne_releases [OF _ _ P] assms(3) by (simp add: alone_def)
    from Pair Some have "lease_stmt (it_now it) (it_skip it) lb D = (Some job, D1)" by simp
    then obtain n where n: "job = lease_row (it_now it) lb n"
      "D1 = D\<lparr>transfer_jobs := upd_where (\<lambda>j. ID j = ID n) (lease_row (it_now it) lb) (transfer_jobs D)\<rparr>"
      by (rule lease_stmt_Some)
    have "Status k \<noteq> Leased" if k: "k \<in> set (transfer_jobs D2)" for k
    proof
      assume l: "Status k = Leased"
      from processOne_leased [OF P k l] l assms(2) n have "holds_lease (ID job) lb k"
        by (auto simp: set_upd_where unleased_def holds_lease_def lease_row_def)
      with rel k show False by (auto simp: released_def)
    qed
    moreover have "map ID (transfer_jobs D1) = map ID (transfer_jobs D)"
      unfolding n(2) by (simp add: upd_where_def lease_row_def)
    ultimately show ?thesis
      using loop_turn_work [OF assms(1,3,6)] D' processOne_ids [OF P] by (auto simp: unleased_def)
  qed
qed

text \<open>
  C13. The queue drains. A worker that is alone on a queue without leases, whose outcome writes reach the database and
  whose turns come when every pending job is due, has finished every job after as many turns as there are attempts left
  in the table: whatever its sources and transports do, errors of every class and panics included, each job is then
  succeeded, skipped or dead, and none has been lost.
\<close>
theorem queue_drains:
  assumes "db_ok D" and "\<forall>j \<in> set (transfer_jobs D). Status j \<noteq> Leased" and "list_all alone its"
    and "due_turns r lb its w D" and "work D \<le> length its" and "loop_from r lb its w D = (fin, acts, w', D')"
  shows "map ID (transfer_jobs D') = map ID (transfer_jobs D) \<and>
    list_all (\<lambda>j. Status j \<in> {Succeeded, Skipped, Dead}) (transfer_jobs D')"
  using assms
proof (induction its arbitrary: w D acts fin)
  case Nil
  then have "terminal (Status j)" if "j \<in> set (transfer_jobs D)" for j using work_zero [of D] that by simp
  then have "Status j \<in> {Succeeded, Skipped, Dead}" if "j \<in> set (transfer_jobs D)" for j
    using that by (cases "Status j") fastforce+
  with Nil show ?case by (simp add: list_all_iff)
next
  case (Cons it its)
  obtain acts1 w1 D1 where t: "loop_turn r lb it w D = (acts1, w1, D1)" by (metis prod.collapse)
  obtain fin2 acts2 w2 D2 where l: "loop_from r lb its w1 D1 = (fin2, acts2, w2, D2)" by (metis prod.collapse)
  have "alone it" "list_all alone its" using Cons.prems(3) by simp_all
  note d = due_turn [OF Cons.prems(1) _ \<open>alone it\<close> _ _ t]
  have T: "unleased D1" "work D1 \<le> work D - 1" "map ID (transfer_jobs D1) = map ID (transfer_jobs D)"
    using d Cons.prems(2,4) by (simp_all add: unleased_def)
  have "db_ok D1" using loop_turn_work [OF Cons.prems(1) \<open>alone it\<close> t] by simp
  moreover have "due_turns r lb its w1 D1" using Cons.prems(4) t by simp
  moreover have "D2 = D'" "w2 = w'" using Cons.prems(4,6) t l by auto
  moreover have "work D1 \<le> length its" using T(2) Cons.prems(5) by simp
  ultimately show ?case
    using Cons.IH [of D1 w1 fin2 acts2] T l \<open>list_all alone its\<close> by (simp add: unleased_def)
qed

text \<open>Two jobs with one attempt each, and a source that panics.\<close>

definition drain_db :: db where
  "drain_db = \<lparr>transfer_jobs = [(ex_row 1 0)\<lparr>MaxAttempts := 1\<rparr>, (ex_row 2 0)\<lparr>MaxAttempts := 1\<rparr>], transfer_events = [], next_id = 3\<rparr>"

definition drain_turn :: iteration where
  "drain_turn = \<lparr>it_cancelled = False, it_lease = DB_Ok, it_now = 25, it_skip = (\<lambda>_. False), it_v = ex_v, it_vp = ex_v,
     it_pre = id, it_mid = id\<rparr>"

lemma drain_db_ok: "db_ok drain_db"
  by (auto simp: db_ok_def schema_ok_def row_ok_def audit_ok_def drain_db_def ex_row_def new_row_def itoa_inj)

lemmas drain_defs = drain_db_def drain_turn_def ex_row_def new_row_def lease_row_def

lemma drain_due: "due_turns ex_panicking ''v'' [drain_turn, drain_turn] () drain_db"
  by (simp add: drain_defs loop_turn_def LeaseJob_def lease_stmt_def lease_candidates_def first_by_def
      processOne_def ProcessJob_def ex_panicking_def ex_runner_def ex_v_def writeRetryOrDead_def writeTerminalWithAttempts_def
      exec_err_def guarded_write_def upd_where_def holds_lease_def terminal_row_def Let_def)

theorem queue_drains_witness:
  "case loop_from ex_panicking ''v'' [drain_turn, drain_turn] () drain_db of
     (_, _, _, D') \<Rightarrow> map ID (transfer_jobs D') = [1, 2] \<and> list_all (\<lambda>j. Status j \<in> {Succeeded, Skipped, Dead}) (transfer_jobs D')"
proof -
  obtain fin acts w' D' where l: "loop_from ex_panicking ''v'' [drain_turn, drain_turn] () drain_db = (fin, acts, w', D')"
    by (metis prod.collapse)
  have "map ID (transfer_jobs D') = map ID (transfer_jobs drain_db) \<and>
    list_all (\<lambda>j. Status j \<in> {Succeeded, Skipped, Dead}) (transfer_jobs D')"
    by (rule queue_drains [OF drain_db_ok _ _ drain_due _ l])
       (simp_all add: alone_def drain_defs ex_v_def work_def weight_def)
  then show ?thesis unfolding l by (simp add: drain_defs)
qed

end
