(* ===== verification/Transfer_Localfs.thy ===== *)
theory Transfer_Localfs
  imports Transfer_Stream
begin

text \<open>
  \<^verbatim>\<open>internal/sources/localfs\<close> and \<^verbatim>\<open>internal/transports/localfs\<close>. The file system is a map from path
  texts to directories and files; every system call takes the error it meets, if any, and
  otherwise acts on the map. The digest is a function \<open>sha\<close> from bytes to hexadecimal text.
\<close>

section \<open>File system\<close>

datatype fnode = Fdir | Ffile string

type_synonym fs = "string \<rightharpoonup> fnode"

definition no_such_file :: "string \<Rightarrow> string \<Rightarrow> go_error" where
  "no_such_file op p = Wrapf (op @ '' '' @ p @ '': no such file or directory'') [ErrNotExist]"

definition os_Stat :: "go_error option \<Rightarrow> string \<Rightarrow> fs \<Rightarrow> go_error + fnode" where
  "os_Stat e p F =
     (case e of
        Some err \<Rightarrow> Inl err
      | None \<Rightarrow> (case F p of None \<Rightarrow> Inl (no_such_file ''stat'' p) | Some n \<Rightarrow> Inr n))"

definition os_Open :: "go_error option \<Rightarrow> string \<Rightarrow> fs \<Rightarrow> go_error + fnode" where
  "os_Open e p F =
     (case e of
        Some err \<Rightarrow> Inl err
      | None \<Rightarrow> (case F p of None \<Rightarrow> Inl (no_such_file ''open'' p) | Some n \<Rightarrow> Inr n))"

text \<open>
  \<^verbatim>\<open>os.CreateTemp(dir, ".imgsync-*.tmp")\<close> tries up to 10000 random names until one does not exist.
\<close>

definition temp_path :: "string \<Rightarrow> string \<Rightarrow> string" where
  "temp_path dir r = (if has_suffix dir ''/'' then dir else dir @ ''/'') @ ''.imgsync-'' @ r @ ''.tmp''"

definition os_CreateTemp :: "go_error option \<Rightarrow> string list \<Rightarrow> string \<Rightarrow> fs \<Rightarrow> (go_error + string) \<times> fs" where
  "os_CreateTemp e rands dir F =
     (case e of
        Some err \<Rightarrow> (Inl err, F)
      | None \<Rightarrow>
          (case F dir of
             None \<Rightarrow> (Inl (no_such_file ''open'' (temp_path dir (case rands of [] \<Rightarrow> [] | r # _ \<Rightarrow> r))), F)
           | Some (Ffile _) \<Rightarrow> (Inl (PlainErr ''not a directory''), F)
           | Some Fdir \<Rightarrow>
               (case find (\<lambda>r. F (temp_path dir r) = None) (take 10000 rands) of
                  None \<Rightarrow> (Inl (PlainErr ''file exists''), F)
                | Some r \<Rightarrow> (Inr (temp_path dir r), F(temp_path dir r \<mapsto> Ffile [])))))"

definition os_Rename :: "go_error option \<Rightarrow> string \<Rightarrow> string \<Rightarrow> fs \<Rightarrow> go_error option \<times> fs" where
  "os_Rename e old new F =
     (case e of
        Some err \<Rightarrow> (Some err, F)
      | None \<Rightarrow>
          (case F old of
             None \<Rightarrow> (Some (no_such_file ''rename'' old), F)
           | Some n \<Rightarrow>
               if F new = Some Fdir then (Some (PlainErr ''file exists''), F)
               else (None, (F(old := None))(new \<mapsto> n))))"

definition os_Remove :: "bool \<Rightarrow> string \<Rightarrow> fs \<Rightarrow> fs" where
  "os_Remove ok p F = (if ok then F(p := None) else F)"

section \<open>Source\<close>

text \<open>
  \<open>oe_others\<close> is what other processes do between \<^verbatim>\<open>Stat\<close> and \<^verbatim>\<open>Open\<close>, \<open>oe_reads\<close> how the open file
  delivers its contents, \<open>oe_close\<close> the result of closing it.
\<close>

record open_env =
  oe_ctx :: "go_error option"
  oe_stat :: "go_error option"
  oe_others :: "fs \<Rightarrow> fs"
  oe_open :: "go_error option"
  oe_reads :: "fnode \<Rightarrow> body"
  oe_close :: "go_error option"

definition localfs_Open :: "open_env \<Rightarrow> string \<Rightarrow> fs \<Rightarrow> (go_error + body \<times> int) \<times> fs" where
  "localfs_Open v src F =
     (case oe_ctx v of
        Some err \<Rightarrow> (Inl err, F)
      | None \<Rightarrow>
          (case os_Stat (oe_stat v) src F of
             Inl err \<Rightarrow>
               (Inl (wrap_err (''localfs: stat '' @ src @ '': '')
                       (if errors_is err ErrNotExist then ErrSkippable else err)), F)
           | Inr Fdir \<Rightarrow> (Inl (wrap_err (''localfs: '' @ src @ '' is a directory: '') ErrPermanent), F)
           | Inr (Ffile st) \<Rightarrow>
               let F1 = oe_others v F in
               (case os_Open (oe_open v) src F1 of
                  Inl err \<Rightarrow> (Inl (wrap_err (''localfs: open '' @ src @ '': '') err), F1)
                | Inr f \<Rightarrow> (Inr (oe_reads v f, int (length st)), F1))))"

section \<open>Transport\<close>

record send_env =
  se_ctx :: "go_error option"
  se_create :: "go_error option"
  se_rands :: "string list"
  se_read :: "nat \<Rightarrow> read_env"
  se_write :: "nat \<Rightarrow> (nat \<times> go_error) option"
  se_sync :: "go_error option"
  se_close :: "go_error option"
  se_rename :: "go_error option"
  se_removed :: bool

definition localfs_Send ::
  "(string \<Rightarrow> string) \<Rightarrow> send_env \<Rightarrow> string \<Rightarrow> counter \<Rightarrow> int \<Rightarrow> fs \<Rightarrow> (go_error + int \<times> string) \<times> counter \<times> fs"
where
  "localfs_Send sha v dst body expected F =
     (case se_ctx v of
        Some err \<Rightarrow> (Inl err, body, F)
      | None \<Rightarrow>
          (case os_CreateTemp (se_create v) (se_rands v) (path_Dir dst) F of
             (Inl err, F1) \<Rightarrow>
               (Inl (if errors_is err ErrNotExist
                     then Wrapf (''localfs: create tmp: '' @ err_text err @ '': '' @ err_text ErrPermanent) [err, ErrPermanent]
                     else wrap_err ''localfs: create tmp: '' err), body, F1)
           | (Inr tmp, F1) \<Rightarrow>
               (case io_Copy (se_read v) (se_write v) 0 (NewCtxReader body) [] of
                  (copyErr, out, rd) \<Rightarrow>
                    let F2 = F1(tmp \<mapsto> Ffile out); clean = os_Remove (se_removed v) tmp in
                    (case copyErr of
                       Some err \<Rightarrow> (Inl (wrap_err ''localfs: copy: '' err), cr_r rd, clean F2)
                     | None \<Rightarrow>
                    (case se_sync v of
                       Some err \<Rightarrow> (Inl (wrap_err ''localfs: fsync: '' err), cr_r rd, clean F2)
                     | None \<Rightarrow>
                    (case se_close v of
                       Some err \<Rightarrow> (Inl (wrap_err ''localfs: close tmp: '' err), cr_r rd, clean F2)
                     | None \<Rightarrow>
                    (case os_Rename (se_rename v) tmp dst F2 of
                       (Some err, F3) \<Rightarrow> (Inl (wrap_err ''localfs: rename: '' err), cr_r rd, clean F3)
                     | (None, F3) \<Rightarrow> (Inr (int (length out), sha out), cr_r rd, F3))))))))"

section \<open>What a transfer leaves\<close>

lemma CreateTemp_fresh:
  assumes "os_CreateTemp e rands dir F = (Inr tmp, F1)"
  shows "F tmp = None \<and> F1 = F(tmp \<mapsto> Ffile []) \<and> F dir = Some Fdir"
  using assms by (auto simp: os_CreateTemp_def dest: find_SomeD split: option.splits fnode.splits)

lemma CreateTemp_failed: "os_CreateTemp e rands dir F = (Inl err, F1) \<Longrightarrow> F1 = F"
  by (auto simp: os_CreateTemp_def split: option.splits fnode.splits)

lemma localfs_Send_ok:
  assumes "localfs_Send sha v dst body expected F = (Inr (written, h), body', F')"
  shows "F' = F(dst \<mapsto> Ffile (body_bytes (ct_r body))) \<and> body_error (ct_r body) = None \<and>
    written = int (length (body_bytes (ct_r body))) \<and> h = sha (body_bytes (ct_r body)) \<and>
    ct_n body' = ct_n body + written \<and> F dst \<noteq> Some Fdir \<and> F (path_Dir dst) = Some Fdir"
proof -
  obtain tmp F1 where tmp: "os_CreateTemp (se_create v) (se_rands v) (path_Dir dst) F = (Inr tmp, F1)"
    using assms by (auto simp: localfs_Send_def split: option.splits sum.splits prod.splits)
  obtain out rd where cp: "io_Copy (se_read v) (se_write v) 0 (NewCtxReader body) [] = (None, out, rd)"
    using assms tmp by (auto simp: localfs_Send_def Let_def split: option.splits prod.splits)
  note T = CreateTemp_fresh [OF tmp] and C = io_Copy_ok [OF cp]
  show ?thesis
    using assms tmp cp T C
    by (auto simp: localfs_Send_def Let_def os_Rename_def NewCtxReader_def fun_upd_twist
        split: option.splits prod.splits if_splits)
qed

lemma localfs_Send_failed:
  assumes "localfs_Send sha v dst body expected F = (Inl err, body', F')"
  shows "F' = F \<or> (\<exists>tmp out. F tmp = None \<and> se_removed v = False \<and> F' = F(tmp \<mapsto> Ffile out))"
proof (cases "se_ctx v")
  case None
  obtain r F1 where tmp: "os_CreateTemp (se_create v) (se_rands v) (path_Dir dst) F = (r, F1)" by fastforce
  show ?thesis
  proof (cases r)
    case (Inl e)
    with tmp None assms CreateTemp_failed show ?thesis by (fastforce simp: localfs_Send_def)
  next
    case (Inr t)
    with tmp have T: "F t = None" "F1 = F(t \<mapsto> Ffile [])" using CreateTemp_fresh by auto
    then have "F(t := None) = F" by auto
    with T Inr tmp None assms show ?thesis
      by (auto simp: localfs_Send_def Let_def os_Rename_def os_Remove_def split: option.splits prod.splits if_splits)
  qed
qed (use assms in \<open>simp add: localfs_Send_def\<close>)

text \<open>
  C32. The local transport is all or nothing, whatever its context, the reader and the system calls do.
  When \<^verbatim>\<open>Send\<close> succeeds, the destination holds exactly the bytes of the body, no other path changed, no temporary
  file is left, and it reports their number and digest and has read them all. When it fails, the file system is as
  before, or differs only in one new temporary file that could not be removed.
\<close>
theorem localfs_send_all_or_nothing:
  "case localfs_Send sha v dst body expected F of
     (Inr (written, h), body', F') \<Rightarrow>
       F' = F(dst \<mapsto> Ffile (body_bytes (ct_r body))) \<and> body_error (ct_r body) = None \<and>
       written = int (length (body_bytes (ct_r body))) \<and> h = sha (body_bytes (ct_r body)) \<and>
       ct_n body' = ct_n body + written
   | (Inl err, body', F') \<Rightarrow>
       F' = F \<or> (\<exists>tmp out. F tmp = None \<and> se_removed v = False \<and> F' = F(tmp \<mapsto> Ffile out))"
proof -
  obtain r body' F' where s: "localfs_Send sha v dst body expected F = (r, body', F')" by (metis prod.collapse)
  show ?thesis
  proof (cases r)
    case (Inl err)
    with s localfs_Send_failed show ?thesis by fastforce
  next
    case (Inr x)
    with s localfs_Send_ok [of sha v dst body expected F "fst x" "snd x" body' F'] show ?thesis
      by (simp add: split_beta)
  qed
qed

text \<open>An environment in which no system call fails and the context is never cancelled.\<close>

definition calm_send :: "send_env \<Rightarrow> bool" where
  "calm_send v \<longleftrightarrow> se_ctx v = None \<and> se_create v = None \<and> se_sync v = None \<and> se_close v = None \<and> se_rename v = None \<and>
     se_read v = (\<lambda>_. \<lparr>re_err = None, re_done = None\<rparr>) \<and> se_write v = (\<lambda>_. None)"

text \<open>
  The local transport does its work: when the parent directory exists, the destination is not a directory,
  no system call fails, the context is not cancelled and the body has no read error, \<^verbatim>\<open>Send\<close> returns, and
  succeeds, however the body splits its bytes over the reads.
\<close>
lemma localfs_send_succeeds:
  assumes "calm_send v" and "F (path_Dir dst) = Some Fdir" and "F dst \<noteq> Some Fdir"
    and "r \<in> set (take 10000 (se_rands v))" and "F (temp_path (path_Dir dst) r) = None"
    and "body_error (ct_r body) = None"
  shows "\<exists>body'. localfs_Send sha v dst body expected F =
    (Inr (int (length (body_bytes (ct_r body))), sha (body_bytes (ct_r body))), body', F(dst \<mapsto> Ffile (body_bytes (ct_r body))))"
proof -
  let ?free = "\<lambda>r. F (temp_path (path_Dir dst) r) = None"
  have "find ?free (take 10000 (se_rands v)) \<noteq> None" using assms(4,5) by (auto simp: find_None_iff)
  then obtain q where q: "find ?free (take 10000 (se_rands v)) = Some q" by auto
  let ?t = "temp_path (path_Dir dst) q"
  have t: "F ?t = None" using find_SomeD [OF q] by simp
  have "os_CreateTemp (se_create v) (se_rands v) (path_Dir dst) F = (Inr ?t, F(?t \<mapsto> Ffile []))"
    using assms(1,2) q by (simp add: os_CreateTemp_def calm_send_def)
  moreover obtain rd where
    "io_Copy (se_read v) (se_write v) 0 (NewCtxReader body) [] = (None, body_bytes (ct_r body), rd)"
    using io_Copy_calm [of "se_read v" "se_write v" "NewCtxReader body" 0 "[]"] assms(1,6)
    by (auto simp: calm_send_def NewCtxReader_def)
  moreover have "(F(?t \<mapsto> Ffile (body_bytes (ct_r body)))) dst \<noteq> Some Fdir" using assms(3) by simp
  ultimately show ?thesis
    using assms(1) t by (auto simp: localfs_Send_def os_Rename_def Let_def calm_send_def)
qed

end
