(* ===== verification/Idle_Backoff.thy ===== *)
theory Idle_Backoff
  imports Go_Lib
begin

text \<open>
  \<^verbatim>\<open>internal/backoff/backoff.go\<close>: the idle backoff that the worker goroutines of a pod share.
  A wake channel is a number, its one-element buffer is membership in the list of tokens.
\<close>

record idle_config =
  BaseDelay :: duration
  MaxDelay :: duration

record Idle =
  ib_cfg :: idle_config
  nominal :: duration
  wakers :: "nat list"
  tokens :: "nat list"
  next_chan :: nat

definition NewIdle :: "idle_config \<Rightarrow> Idle" where
  "NewIdle cfg =
     (let c = \<lparr>BaseDelay = (if BaseDelay cfg \<le> 0 then 50 * Millisecond else BaseDelay cfg),
               MaxDelay = (if MaxDelay cfg \<le> 0 then 1 * Second else MaxDelay cfg)\<rparr>
      in \<lparr>ib_cfg = c, nominal = BaseDelay c, wakers = [], tokens = [], next_chan = 0\<rparr>)"

definition advance_delay :: "duration \<Rightarrow> duration \<Rightarrow> duration" where
  "advance_delay mx nom =
     (let n = (if nom = 50 * Millisecond then 200 * Millisecond
               else if nom = 200 * Millisecond then 500 * Millisecond
               else if nom = 500 * Millisecond then 1 * Second
               else let next = wrap64 (nom * 2) in if next > mx then mx else next)
      in if n > mx then mx else n)"

definition advance :: "Idle \<Rightarrow> Idle" where
  "advance i = i\<lparr>nominal := advance_delay (MaxDelay (ib_cfg i)) (nominal i)\<rparr>"

text \<open>\<open>u\<close> is the draw \<^verbatim>\<open>i.rng.Float64()\<close>.\<close>

definition jitter :: "(rat \<Rightarrow> int) \<Rightarrow> rat \<Rightarrow> duration \<Rightarrow> duration" where
  "jitter oor u d =
     (if d \<le> 0 then 0
      else let span = fl (fl (of_int d) * (1 / 2));
               offset = float_to_int64 oor (fl (fl (u - 1 / 2) * span))
           in wrap64 (d + offset))"

text \<open>
  \<^verbatim>\<open>WaitOnce\<close> is two critical sections with a \<^verbatim>\<open>select\<close> between them: \<open>park\<close> returns the delay
  and the channel to wait on, \<open>unpark\<close> takes the channel out again.
\<close>

definition park :: "(rat \<Rightarrow> int) \<Rightarrow> rat \<Rightarrow> Idle \<Rightarrow> (duration \<times> nat) \<times> Idle" where
  "park oor u i =
     (let delay = jitter oor u (nominal i); i1 = advance i; wake = next_chan i
      in ((delay, wake), i1\<lparr>wakers := wakers i1 @ [wake], next_chan := Suc wake\<rparr>))"

definition unpark :: "nat \<Rightarrow> Idle \<Rightarrow> Idle" where
  "unpark wake i = i\<lparr>wakers := remove1 wake (wakers i)\<rparr>"

text \<open>
  \<^verbatim>\<open>WakeAll\<close>: the critical section returns the channels to notify; the non-blocking sends
  follow outside the lock.
\<close>

definition wake_begin :: "Idle \<Rightarrow> nat list \<times> Idle" where
  "wake_begin i = (wakers i, i\<lparr>nominal := BaseDelay (ib_cfg i), wakers := []\<rparr>)"

definition wake_send :: "nat \<Rightarrow> Idle \<Rightarrow> Idle" where
  "wake_send w i = (if w \<in> set (tokens i) then i else i\<lparr>tokens := tokens i @ [w]\<rparr>)"

definition WakeAll_run :: "Idle \<Rightarrow> Idle" where
  "WakeAll_run i = (case wake_begin i of (ws, i1) \<Rightarrow> foldl (\<lambda>i w. wake_send w i) i1 ws)"

definition CurrentNominalDelay :: "Idle \<Rightarrow> duration" where
  "CurrentNominalDelay i = nominal i"

definition NumParked :: "Idle \<Rightarrow> nat" where
  "NumParked i = length (wakers i)"

text \<open>
  A whole call of \<^verbatim>\<open>WaitOnce\<close>, with what other goroutines do while it waits; the result is the timer it set and the
  case of its \<^verbatim>\<open>select\<close> that won, of those that are ready.
\<close>

datatype wait_end = Timer | Woken | Cancelled

definition WaitOnce_run :: "(rat \<Rightarrow> int) \<Rightarrow> rat \<Rightarrow> (Idle \<Rightarrow> Idle) \<Rightarrow> wait_end \<Rightarrow> Idle \<Rightarrow> (duration \<times> wait_end) option \<times> Idle" where
  "WaitOnce_run oor u others e i =
     (case park oor u i of ((delay, wake), i1) \<Rightarrow>
        let i2 = others i1 in
        if e = Woken \<and> wake \<notin> set (tokens i2) then (None, i2) else (Some (delay, e), unpark wake i2))"

section \<open>Goroutines on a shared backoff\<close>

text \<open>
  The goroutines inside the \<^verbatim>\<open>select\<close>, by their channel, and the sends that calls of \<^verbatim>\<open>WakeAll\<close>
  still have to do. A parked goroutine may leave at any time (timer or cancelled context).
\<close>

record idle_sys =
  is_idle :: Idle
  is_parked :: "nat list"
  is_sending :: "nat list"

inductive idle_step :: "idle_sys \<Rightarrow> idle_sys \<Rightarrow> bool" where
  is_park: "park oor u (is_idle s) = ((delay, ch), i) \<Longrightarrow>
    idle_step s (s\<lparr>is_idle := i, is_parked := is_parked s @ [ch]\<rparr>)"
| is_leave: "ch \<in> set (is_parked s) \<Longrightarrow>
    idle_step s (s\<lparr>is_idle := unpark ch (is_idle s), is_parked := remove1 ch (is_parked s)\<rparr>)"
| is_wake: "wake_begin (is_idle s) = (ws, i) \<Longrightarrow>
    idle_step s (s\<lparr>is_idle := i, is_sending := is_sending s @ ws\<rparr>)"
| is_send: "w \<in> set (is_sending s) \<Longrightarrow>
    idle_step s (s\<lparr>is_idle := wake_send w (is_idle s), is_sending := remove1 w (is_sending s)\<rparr>)"

definition idle_init :: "idle_config \<Rightarrow> idle_sys \<Rightarrow> bool" where
  "idle_init cfg s \<longleftrightarrow> s = \<lparr>is_idle = NewIdle cfg, is_parked = [], is_sending = []\<rparr>"

definition idle_inv :: "idle_sys \<Rightarrow> bool" where
  "idle_inv s \<longleftrightarrow>
     (let i = is_idle s in
      distinct (is_parked s) \<and> distinct (wakers i) \<and> set (wakers i) \<subseteq> set (is_parked s) \<and>
      (\<forall>ch \<in> set (is_parked s). ch < next_chan i \<and>
         (ch \<in> set (wakers i) \<or> ch \<in> set (is_sending s) \<or> ch \<in> set (tokens i))))"

interpretation idle_invariant: inductive_invariant "idle_init cfg" idle_step idle_inv for cfg
proof
  show "idle_inv s" if "idle_init cfg s" for s
    using that by (simp add: idle_init_def idle_inv_def NewIdle_def Let_def)
  show "idle_inv t" if "idle_step s t" "idle_inv s" for s t
    using that
  proof cases
    case (is_park oor u delay ch i)
    then show ?thesis
      using that(2) by (fastforce simp: park_def advance_def idle_inv_def Let_def)
  next
    case (is_leave ch)
    then show ?thesis
      using that(2) by (auto simp: unpark_def idle_inv_def Let_def)
  next
    case (is_wake ws i)
    then show ?thesis
      using that(2) by (auto simp: wake_begin_def idle_inv_def Let_def)
  next
    case (is_send w)
    have "ch = w \<or> ch \<in> set (remove1 w (is_sending s))" if "ch \<in> set (is_sending s)" for ch
      using that by (cases "ch = w") simp_all
    with is_send that(2) show ?thesis
      by (auto simp: wake_send_def idle_inv_def Let_def)
  qed
qed

section \<open>Properties\<close>

text \<open>
  \<^verbatim>\<open>NumParked\<close> never counts more than the goroutines that wait; undisturbed, a wait ends by timer or context, leaves no
  waker behind and moves the schedule one step, which \<^verbatim>\<open>WakeAll\<close> takes back.
\<close>

lemma NumParked_bound: "reach (idle_init cfg) idle_step s \<Longrightarrow> NumParked (is_idle s) \<le> length (is_parked s)"
  using idle_invariant.reach_inv [of cfg s]
  by (auto simp: idle_inv_def NumParked_def Let_def simp flip: distinct_card intro: card_mono)

lemma WaitOnce_alone:
  assumes "next_chan i \<notin> set (wakers i)" and "e \<noteq> Woken"
  shows "WaitOnce_run oor u id e i =
    (Some (jitter oor u (CurrentNominalDelay i), e),
     i\<lparr>nominal := advance_delay (MaxDelay (ib_cfg i)) (nominal i), next_chan := Suc (next_chan i)\<rparr>)"
  using assms by (simp add: WaitOnce_run_def park_def unpark_def advance_def CurrentNominalDelay_def Let_def remove1_append)

lemma fold_wake_send: "wakers (foldl (\<lambda>i w. wake_send w i) i ws) = wakers i \<and> nominal (foldl (\<lambda>i w. wake_send w i) i ws) = nominal i"
  by (induction ws arbitrary: i) (auto simp: wake_send_def)

lemma WakeAll_resets: "NumParked (WakeAll_run i) = 0 \<and> CurrentNominalDelay (WakeAll_run i) = BaseDelay (ib_cfg i)"
  by (simp add: NumParked_def CurrentNominalDelay_def WakeAll_run_def wake_begin_def fold_wake_send)

text \<open>
  C31. No wake-up is lost. However parking, leaving and \<^verbatim>\<open>WakeAll\<close> interleave, every goroutine that
  sleeps in \<^verbatim>\<open>WaitOnce\<close> is either registered, so that the next \<^verbatim>\<open>WakeAll\<close> reaches it, or has its
  wake-up in its channel or on the way; and only sleeping goroutines are registered, each once,
  so the list of wakers does not grow with time.
\<close>

theorem idle_no_lost_wakeup:
  assumes "reach (idle_init cfg) idle_step s"
  shows "distinct (wakers (is_idle s)) \<and> set (wakers (is_idle s)) \<subseteq> set (is_parked s) \<and>
    set (is_parked s) \<subseteq> set (wakers (is_idle s)) \<union> set (is_sending s) \<union> set (tokens (is_idle s))"
  using idle_invariant.reach_inv [OF assms] by (auto simp: idle_inv_def Let_def)

theorem idle_no_lost_wakeup_witness:
  "let s = \<lparr>is_idle = NewIdle \<lparr>BaseDelay = 0, MaxDelay = 0\<rparr>, is_parked = [], is_sending = []\<rparr>;
       i = snd (park (\<lambda>_. 0) (1 / 4) (is_idle s)); t = s\<lparr>is_idle := i, is_parked := [0]\<rparr> in
   reach (idle_init \<lparr>BaseDelay = 0, MaxDelay = 0\<rparr>) idle_step t \<and>
   set (is_parked t) \<subseteq> set (wakers (is_idle t)) \<union> set (is_sending t) \<union> set (tokens (is_idle t))"
proof -
  let ?cfg = "\<lparr>BaseDelay = 0, MaxDelay = 0\<rparr>"
  let ?s = "\<lparr>is_idle = NewIdle ?cfg, is_parked = [], is_sending = []\<rparr>"
  let ?i = "snd (park (\<lambda>_. 0) (1 / 4) (is_idle ?s))"
  have "reach (idle_init ?cfg) idle_step ?s" by (rule reach_init) (simp add: idle_init_def)
  moreover have "idle_step ?s (?s\<lparr>is_idle := ?i, is_parked := is_parked ?s @ [0]\<rparr>)"
    by (rule is_park [where oor = "\<lambda>_. 0" and u = "1 / 4"])
       (simp add: park_def NewIdle_def Let_def)
  ultimately have r: "reach (idle_init ?cfg) idle_step (?s\<lparr>is_idle := ?i, is_parked := [0]\<rparr>)"
    by (simp add: reach_step)
  then show ?thesis using idle_no_lost_wakeup [OF r] by (simp add: Let_def)
qed

text \<open>The nominal delay after \<open>n\<close> waits with no \<^verbatim>\<open>WakeAll\<close> in between.\<close>

fun after_waits :: "nat \<Rightarrow> Idle \<Rightarrow> Idle" where
  "after_waits 0 i = i"
| "after_waits (Suc n) i = after_waits n (advance i)"

lemma after_waits_snoc: "after_waits (Suc n) i = advance (after_waits n i)"
  by (induction n arbitrary: i) simp_all

lemma ib_cfg_after_waits [simp]: "ib_cfg (after_waits n i) = ib_cfg i"
  by (induction n arbitrary: i) (simp_all add: advance_def)

text \<open>
  The default schedule is the documented one: the nominal delay is 50 ms at first, then 200 ms,
  500 ms and from the fourth wait on one second, for any number of waits, and \<^verbatim>\<open>WakeAll\<close> at any
  point starts it again at 50 ms.
\<close>

lemma idle_default_schedule:
  "nominal (after_waits n (NewIdle \<lparr>BaseDelay = 0, MaxDelay = 0\<rparr>)) =
     [50 * Millisecond, 200 * Millisecond, 500 * Millisecond, 1000 * Millisecond] ! min n 3 \<and>
   nominal (snd (wake_begin (after_waits n (NewIdle \<lparr>BaseDelay = 0, MaxDelay = 0\<rparr>)))) = 50 * Millisecond"
proof -
  have "nominal (after_waits n (NewIdle \<lparr>BaseDelay = 0, MaxDelay = 0\<rparr>)) =
     [50 * Millisecond, 200 * Millisecond, 500 * Millisecond, 1000 * Millisecond] ! min n 3"
  proof (induction n)
    case (Suc n)
    consider "n = 0" | "n = 1" | "n = 2" | "3 \<le> n" by linarith
    then show ?case
      unfolding after_waits_snoc
      by (cases; use Suc in \<open>simp add: advance_def advance_delay_def NewIdle_def Let_def\<close>)
  qed (simp add: NewIdle_def)
  then show ?thesis by (simp add: wake_begin_def NewIdle_def Let_def)
qed

text \<open>
  Jitter stays within a quarter. For every delay up to 104 days and every random draw, the
  jittered delay is within a quarter of the nominal one, rounding included.
\<close>

lemma jitter_within_quarter:
  assumes "0 < d" and "d \<le> 2 ^ 53" and "0 \<le> u" and "u < 1"
  shows "3 * d \<le> 4 * jitter oor u d \<and> 4 * jitter oor u d \<le> 5 * d"
proof -
  have rep: "representable (of_int d / 2 ^ k)" for k
    using representable_dyadic [of d 0 k] assms(1,2) by simp
  have span: "fl (fl (of_int d) * (1 / 2)) = of_int d / 2"
    using rep [of 0] rep [of 1] by (simp add: fl_representable)
  define x where "x = fl (fl (u - 1 / 2) * (of_int d / 2))"
  have "\<bar>fl (u - 1 / 2) * (of_int d / 2)\<bar> \<le> 1 / 2 * (of_int d / 2)"
    using centred_draw [OF assms(3,4)] assms(1) unfolding abs_mult by (intro mult_mono) auto
  then have x: "\<bar>x\<bar> \<le> of_int d / 4"
    unfolding x_def using rep [of 2] by (intro fl_abs_le) simp_all
  then have "float_to_int64 oor x = trunc x"
    using assms(1,2) by (intro float_to_int64_small [of x d]) simp_all
  then have j: "jitter oor u d = wrap64 (d + trunc x)"
    unfolding jitter_def span Let_def x_def [symmetric] using assms(1) by simp
  have "\<bar>of_int (4 * trunc x)\<bar> \<le> (of_int d :: rat)" using trunc_abs [of x] x by simp
  then have "\<bar>4 * trunc x\<bar> \<le> d" by (metis of_int_abs of_int_le_iff)
  moreover from this have "wrap64 (d + trunc x) = d + trunc x"
    using assms(1,2) by (intro wrap64_id) auto
  ultimately show ?thesis using j by linarith
qed

end
