(* ===== verification/Commands.thy ===== *)
theory Commands
  imports Sniffer Sweeper Retention Idle_Backoff Hostcap Ftp_Pool Transfer_Stream
begin

text \<open>
  The commands and their configuration: \<^verbatim>\<open>internal/env\<close>, \<^verbatim>\<open>internal/cli/sniffer.go\<close>, the database pools of
  \<^verbatim>\<open>internal/db/pool.go\<close> and \<^verbatim>\<open>internal/sourcedb/pool.go\<close>, and \<^verbatim>\<open>cmd/imgsync\<close>. The process environment is a function from
  names to texts, empty when a variable is absent; the PostgreSQL driver is a parameter.
\<close>

section \<open>Environment variables (env.go)\<close>

type_synonym environ = "string \<Rightarrow> string"

definition env_Int :: "environ \<Rightarrow> string \<Rightarrow> int \<Rightarrow> int" where
  "env_Int env key d =
     (let v = env key in
      if v = [] then d else case atoi v of None \<Rightarrow> d | Some n \<Rightarrow> n)"

definition env_Bool :: "environ \<Rightarrow> string \<Rightarrow> bool \<Rightarrow> bool" where
  "env_Bool env key d =
     (let v = env key in if v = [] then d else v = ''1'' \<or> to_lower v = ''true'')"

text \<open>\<^verbatim>\<open>time.Duration(n) * time.Second\<close>, in 64-bit arithmetic.\<close>

definition seconds :: "int \<Rightarrow> duration" where
  "seconds n = wrap64 (n * Second)"

section \<open>Database pools\<close>

record db_PoolConfig =
  pg_DSN :: string
  pg_MaxConns :: int
  pg_MinConns :: int
  pg_MaxConnLifetime :: duration
  pg_MaxConnIdleTime :: duration
  pg_HealthCheckPeriod :: duration

text \<open>The driver's configuration parsed from a DSN, with the values the code sets replaced.\<close>

definition pool_overrides :: "db_PoolConfig \<Rightarrow> db_PoolConfig \<Rightarrow> db_PoolConfig" where
  "pool_overrides cfg pc =
     pc\<lparr>pg_MaxConns := (if pg_MaxConns cfg > 0 then pg_MaxConns cfg else pg_MaxConns pc),
        pg_MinConns := (if pg_MinConns cfg > 0 then pg_MinConns cfg else pg_MinConns pc),
        pg_MaxConnLifetime := (if pg_MaxConnLifetime cfg > 0 then pg_MaxConnLifetime cfg else pg_MaxConnLifetime pc),
        pg_MaxConnIdleTime := (if pg_MaxConnIdleTime cfg > 0 then pg_MaxConnIdleTime cfg else pg_MaxConnIdleTime pc),
        pg_HealthCheckPeriod := (if pg_HealthCheckPeriod cfg > 0 then pg_HealthCheckPeriod cfg else pg_HealthCheckPeriod pc)\<rparr>"

record 'p pg_driver =
  drv_parse :: "string \<Rightarrow> go_error + db_PoolConfig"
  drv_open :: "db_PoolConfig \<Rightarrow> go_error + 'p"
  drv_ping :: "'p \<Rightarrow> go_error option"

definition db_NewPool :: "'p pg_driver \<Rightarrow> db_PoolConfig \<Rightarrow> go_error + 'p" where
  "db_NewPool drv cfg =
     (case drv_parse drv (pg_DSN cfg) of
        Inl err \<Rightarrow> Inl (wrap_err ''parse dsn: '' err)
      | Inr pc \<Rightarrow>
          (case drv_open drv (pool_overrides cfg pc) of
             Inl err \<Rightarrow> Inl (wrap_err ''open pool: '' err)
           | Inr pool \<Rightarrow>
               (case drv_ping drv pool of
                  Some err \<Rightarrow> Inl (wrap_err ''ping: '' err)
                | None \<Rightarrow> Inr pool)))"

record sourcedb_Config =
  sd_DSN :: string
  sd_MaxConns :: int
  sd_QueryTimeoutMs :: int

definition sourcedb_NewPool :: "'p pg_driver \<Rightarrow> sourcedb_Config \<Rightarrow> go_error + 'p \<times> duration" where
  "sourcedb_NewPool drv cfg =
     (let maxConns = (if sd_MaxConns cfg = 0 then 4 else sd_MaxConns cfg);
          timeout = (if sd_QueryTimeoutMs cfg = 0 then 30000 else sd_QueryTimeoutMs cfg) in
      case drv_parse drv (sd_DSN cfg) of
        Inl err \<Rightarrow> Inl (wrap_err ''parse dsn: '' err)
      | Inr pc \<Rightarrow>
          (case drv_open drv (pc\<lparr>pg_MaxConns := maxConns\<rparr>) of
             Inl err \<Rightarrow> Inl (wrap_err ''connect: '' err)
           | Inr pool \<Rightarrow>
               (case drv_ping drv pool of
                  Some err \<Rightarrow> Inl (wrap_err ''ping: '' err)
                | None \<Rightarrow> Inr (pool, wrap64 (timeout * Millisecond)))))"

section \<open>Sniffer command (cli/sniffer.go)\<close>

record cli_SnifferConfig =
  cc_SourceID :: string
  cc_SourceDSN :: string
  cc_ImgsyncDSN :: string
  cc_Table :: string
  cc_PKColumn :: string
  cc_TSColumn :: string
  cc_ExtraColumns :: "string list"
  cc_DstPattern :: string
  cc_SrcPattern :: string
  cc_SrcProtocol :: string
  cc_DstProtocol :: string
  cc_Shadow :: bool
  cc_BatchSize :: int
  cc_BiasDuration :: duration
  cc_IntervalSec :: int

text \<open>\<^verbatim>\<open>strings.TrimSpace\<close> on ASCII white space.\<close>

definition is_space :: "char \<Rightarrow> bool" where
  "is_space c \<longleftrightarrow> (let n = (of_char c :: nat) in n = 32 \<or> 9 \<le> n \<and> n \<le> 13)"

definition trim_space :: "string \<Rightarrow> string" where
  "trim_space s = rev (dropWhile is_space (rev (dropWhile is_space s)))"

definition extra_columns :: "string \<Rightarrow> string list" where
  "extra_columns s = (if s = [] then [] else filter (\<lambda>col. col \<noteq> []) (map trim_space (split_on (CHR '','') s)))"

definition required_env :: "string list" where
  "required_env =
     [''SNIFFER_SOURCE_ID'', ''SNIFFER_SOURCE_DSN'', ''SNIFFER_IMGSYNC_DSN'', ''SNIFFER_TABLE'', ''SNIFFER_PK_COLUMN'',
      ''SNIFFER_TS_COLUMN'', ''SNIFFER_DST_PATTERN'', ''SNIFFER_SRC_PATTERN'', ''SNIFFER_SRC_PROTOCOL'', ''SNIFFER_DST_PROTOCOL'']"

text \<open>
  Go ranges over the map of required variables in an unspecified order; \<open>order\<close> lists them in the
  order taken.
\<close>

definition ParseSnifferConfig :: "string list \<Rightarrow> environ \<Rightarrow> go_error + cli_SnifferConfig" where
  "ParseSnifferConfig order env =
     (let c = \<lparr>cc_SourceID = env ''SNIFFER_SOURCE_ID'', cc_SourceDSN = env ''SNIFFER_SOURCE_DSN'',
               cc_ImgsyncDSN = env ''SNIFFER_IMGSYNC_DSN'', cc_Table = env ''SNIFFER_TABLE'',
               cc_PKColumn = env ''SNIFFER_PK_COLUMN'', cc_TSColumn = env ''SNIFFER_TS_COLUMN'',
               cc_ExtraColumns = extra_columns (env ''SNIFFER_EXTRA_COLUMNS''),
               cc_DstPattern = env ''SNIFFER_DST_PATTERN'', cc_SrcPattern = env ''SNIFFER_SRC_PATTERN'',
               cc_SrcProtocol = env ''SNIFFER_SRC_PROTOCOL'', cc_DstProtocol = env ''SNIFFER_DST_PROTOCOL'',
               cc_Shadow = env_Bool env ''SNIFFER_SHADOW'' True, cc_BatchSize = env_Int env ''SNIFFER_BATCH_SIZE'' 500,
               cc_BiasDuration = seconds (env_Int env ''SNIFFER_BIAS_SEC'' 5),
               cc_IntervalSec = env_Int env ''SNIFFER_INTERVAL_SEC'' 60\<rparr> in
      case find (\<lambda>k. env k = []) order of
        Some k \<Rightarrow> Inl (PlainErr (''required env '' @ k @ '' missing''))
      | None \<Rightarrow>
          if cc_IntervalSec c \<le> 0 then
            Inl (PlainErr (''SNIFFER_INTERVAL_SEC must be > 0, got '' @ itoa (cc_IntervalSec c)))
          else if cc_BatchSize c \<le> 0 then
            Inl (PlainErr (''SNIFFER_BATCH_SIZE must be > 0, got '' @ itoa (cc_BatchSize c)))
          else Inr c)"

definition sniffer_of :: "'t engine \<Rightarrow> (timestamp \<Rightarrow> string) \<Rightarrow> cli_SnifferConfig \<Rightarrow> 't SnifferConfig" where
  "sniffer_of eng fmt cfg =
     \<lparr>sc_SourceID = cc_SourceID cfg,
      sc_Query = \<lparr>Table = cc_Table cfg, PKColumn = cc_PKColumn cfg, TSColumn = cc_TSColumn cfg,
                  ExtraColumns = cc_ExtraColumns cfg, BatchSize = cc_BatchSize cfg, BiasDuration = cc_BiasDuration cfg\<rparr>,
      sc_Dst = \<lparr>Pattern = cc_DstPattern cfg, Shadow = cc_Shadow cfg\<rparr>, sc_SrcPattern = cc_SrcPattern cfg,
      sc_SrcProtocol = cc_SrcProtocol cfg, sc_DstProtocol = cc_DstProtocol cfg, sc_engine = eng, sc_fmt_time = fmt\<rparr>"

text \<open>
  The polls of \<^verbatim>\<open>RunSniffer\<close>: one at once, then one for each tick until the context is done
  (\<open>tick_done\<close>). The result says whether the loop returned and lists the callbacks of the polls and,
  after a successful one, \<^verbatim>\<open>OnSnifferRun\<close> (\<open>None\<close>).
\<close>

record sniffer_tick =
  tick_done :: bool
  tick_env :: poll_env
  tick_source :: "source_row list"
  tick_others :: "state_table \<times> db \<Rightarrow> state_table \<times> db"

definition sniffer_poll ::
  "'t SnifferConfig \<Rightarrow> sniffer_tick \<Rightarrow> state_table \<times> db \<Rightarrow> sniff_callback option list \<times> state_table \<times> db"
where
  "sniffer_poll c t W =
     (case RunOnce (tick_env t) c (tick_source t) (tick_others t W) of
        ((_, Some _), cb, W') \<Rightarrow> ([Some cb], W')
      | ((_, None), cb, W') \<Rightarrow> ([Some cb, None], W'))"

fun sniffer_loop ::
  "'t SnifferConfig \<Rightarrow> sniffer_tick list \<Rightarrow> state_table \<times> db \<Rightarrow> bool \<times> sniff_callback option list \<times> state_table \<times> db"
where
  "sniffer_loop c [] W = (False, [], W)"
| "sniffer_loop c (t # ts) W =
     (if tick_done t then (True, [], W)
      else case sniffer_poll c t W of
        (acts, W') \<Rightarrow> (case sniffer_loop c ts W' of (r, acts', W'') \<Rightarrow> (r, acts @ acts', W'')))"

definition RunSniffer_polls ::
  "'t engine \<Rightarrow> (timestamp \<Rightarrow> string) \<Rightarrow> cli_SnifferConfig \<Rightarrow> sniffer_tick \<Rightarrow> sniffer_tick list \<Rightarrow> state_table \<times> db \<Rightarrow>
   (bool \<times> sniff_callback option list \<times> state_table \<times> db) go"
where
  "RunSniffer_polls eng fmt cfg first ts W =
     (if seconds (cc_IntervalSec cfg) \<le> 0 then Panic ''non-positive interval for NewTicker''
      else case sniffer_poll (sniffer_of eng fmt cfg) first W of
        (acts, W') \<Rightarrow>
          (case sniffer_loop (sniffer_of eng fmt cfg) ts W' of (r, acts', W'') \<Rightarrow> Ret (r, acts @ acts', W'')))"

text \<open>
  The whole command. \<open>img_pool\<close> opens the pool on the queue's database and \<open>listen\<close> the health address; both
  answer with an error or nothing.
\<close>

definition health_addr :: "string \<Rightarrow> string" where
  "health_addr v = (if v = [] then '':8080'' else v)"

definition RunSniffer ::
  "'p pg_driver \<Rightarrow> (string \<Rightarrow> go_error option) \<Rightarrow> (string \<Rightarrow> go_error option) \<Rightarrow> environ \<Rightarrow>
   't engine \<Rightarrow> (timestamp \<Rightarrow> string) \<Rightarrow> cli_SnifferConfig \<Rightarrow> sniffer_tick \<Rightarrow> sniffer_tick list \<Rightarrow> state_table \<times> db \<Rightarrow>
   (go_error + bool \<times> sniff_callback option list \<times> state_table \<times> db) go"
where
  "RunSniffer drv img_pool listen env eng fmt cfg first ts W =
     (case sourcedb_NewPool drv \<lparr>sd_DSN = cc_SourceDSN cfg, sd_MaxConns = 0, sd_QueryTimeoutMs = 30000\<rparr> of
        Inl err \<Rightarrow> Ret (Inl (wrap_err ''source pool: '' err))
      | Inr _ \<Rightarrow>
          (case img_pool (cc_ImgsyncDSN cfg) of
             Some err \<Rightarrow> Ret (Inl (wrap_err ''imgsync pool: '' err))
           | None \<Rightarrow>
               (case listen (health_addr (env ''SNIFFER_HEALTH_ADDR'')) of
                  Some err \<Rightarrow> Ret (Inl (wrap_err ''sniffer health listen: '' err))
                | None \<Rightarrow>
                    (case RunSniffer_polls eng fmt cfg first ts W of
                       Panic p \<Rightarrow> Panic p
                     | Ret r \<Rightarrow> Ret (Inr r)))))"

section \<open>Worker command (cmd/imgsync/worker.go)\<close>

text \<open>Everything the command derives from its environment before it starts its goroutines.\<close>

record worker_setup =
  ws_Workers :: int
  ws_PodName :: string
  ws_MaxConns :: int
  ws_ftp :: PoolConfig
  ws_hostcap :: hostcap_config
  ws_capConns :: int
  ws_idle :: idle_config
  ws_health :: string
  ws_liveness :: duration
  ws_sweep_threshold :: duration
  ws_sweep_interval :: duration
  ws_retention :: "(RetentionConfig \<times> duration) option"

text \<open>\<^verbatim>\<open>newHostcapTransport\<close>: the size of the dedicated pool.\<close>

definition hostcap_conns :: "hostcap_config \<Rightarrow> int" where
  "hostcap_conns cfg = (let cap = (if hc_Cap cfg \<le> 0 then 8 else hc_Cap cfg) in wrap32 (wrap32 cap + 2))"

definition retention_setup :: "environ \<Rightarrow> (RetentionConfig \<times> duration) option" where
  "retention_setup env =
     (let days = env_Int env ''IMGSYNC_RETENTION_DAYS'' 0 in
      if days > 0 then
        Some (\<lparr>rc_Window = wrap64 (wrap64 (days * 24) * Hour),
               rc_BatchSize = env_Int env ''IMGSYNC_RETENTION_BATCH'' 1000\<rparr>,
              seconds (env_Int env ''IMGSYNC_RETENTION_INTERVAL_SEC'' 3600))
      else None)"

definition worker_setup_of :: "environ \<Rightarrow> string \<Rightarrow> go_error + worker_setup" where
  "worker_setup_of env hostname =
     (if env ''IMGSYNC_DSN'' = [] then Inl (PlainErr ''IMGSYNC_DSN is required'')
      else
        let workers = env_Int env ''IMGSYNC_WORKERS'' 4;
            hostcap = \<lparr>hc_Cap = env_Int env ''IMGSYNC_FTP_HOST_CAP'' 8, hc_Host = [], hc_AcquireBackoff = 0\<rparr> in
        Inr \<lparr>ws_Workers = workers,
             ws_PodName = (if env ''IMGSYNC_POD_NAME'' = [] then hostname else env ''IMGSYNC_POD_NAME''),
             ws_MaxConns = wrap32 (wrap64 (2 + workers)),
             ws_ftp = NewPool_config
               \<lparr>MaxPerHost = env_Int env ''IMGSYNC_FTP_MAX_PER_HOST'' 4,
                IdleTTL = seconds (env_Int env ''IMGSYNC_FTP_IDLE_TTL_SEC'' 300),
                NoopAfter = seconds (env_Int env ''IMGSYNC_FTP_NOOP_AFTER_SEC'' 60),
                AuthUser = env ''IMGSYNC_FTP_USER'', AuthPassword = env ''IMGSYNC_FTP_PASSWORD'', DialTimeout = 0\<rparr>,
             ws_hostcap = Wrap_config hostcap,
             ws_capConns = hostcap_conns hostcap,
             ws_idle = \<lparr>BaseDelay = 50 * Millisecond, MaxDelay = 1 * Second\<rparr>,
             ws_health = health_addr (env ''IMGSYNC_HEALTH_ADDR''),
             ws_liveness = seconds (env_Int env ''IMGSYNC_LIVENESS_THRESHOLD_SEC'' 10),
             ws_sweep_threshold = 5 * Minute,
             ws_sweep_interval = 30 * Second,
             ws_retention = retention_setup env\<rparr>)"

text \<open>The protocols the command serves, for the given implementations.\<close>

definition protocol_for :: "'a \<Rightarrow> 'a \<Rightarrow> string \<Rightarrow> go_error + 'a" where
  "protocol_for localfs ftp proto =
     (if proto = ''localfs'' then Inr localfs else if proto = ''ftp'' then Inr ftp else Inl ErrUnknownProtocol)"

definition command_runner ::
  "worker_setup \<Rightarrow> ('w, 'b) Source \<Rightarrow> ('w, 'b) Source \<Rightarrow> ('w, 'b) Transport \<Rightarrow> ('w, 'b) Transport \<Rightarrow> ('w, 'b) Runner"
where
  "command_runner ws localSource ftpSrc localTransport ftpTr =
     \<lparr>Workers = ws_Workers ws, PodName = ws_PodName ws,
      SourceFor = protocol_for localSource ftpSrc, TransportFor = protocol_for localTransport ftpTr\<rparr>"

section \<open>Properties\<close>

lemma seconds_exact: "\<bar>n\<bar> \<le> 9223372036 \<Longrightarrow> seconds n = n * Second"
  unfolding seconds_def by (rule wrap64_id) (auto simp: abs_le_iff)

lemma env_Int_itoa:
  assumes "env key = itoa n" and "- (2 ^ 63) \<le> n" and "n < 2 ^ 63"
  shows "env_Int env key d = n"
  using assms atoi_itoa [of n] by (auto simp: env_Int_def atoi_def split: option.splits)



text \<open>
  The retention window is the configured one: for one up to 106751 days the worker deletes rows older than
  exactly that many days, and it deletes nothing unless the number of days is positive. (Beyond that the
  multiplication wraps around.)
\<close>
lemma retention_window_exact:
  assumes "env ''IMGSYNC_RETENTION_DAYS'' = itoa days" and "\<bar>days\<bar> \<le> 106751"
  shows "case retention_setup env of
      None \<Rightarrow> days \<le> 0
    | Some (cfg, _) \<Rightarrow> 0 < days \<and> rc_Window cfg = days * 86400 * Second \<and> int_seconds (rc_Window cfg) = days * 86400"
proof -
  have d: "env_Int env ''IMGSYNC_RETENTION_DAYS'' 0 = days"
    using assms by (intro env_Int_itoa) (auto simp: abs_le_iff)
  have w: "wrap64 (wrap64 (days * 24) * Hour) = days * 86400 * Second" if "0 < days"
  proof -
    have "wrap64 (days * 24) = days * 24" using assms(2) that by (intro wrap64_id) auto
    moreover have "wrap64 (days * 24 * Hour) = days * 24 * Hour" using assms(2) that by (intro wrap64_id) auto
    ultimately show ?thesis by simp
  qed
  have "int_seconds (days * 86400 * Second) = days * 86400" if "0 < days"
    using assms(2) that int_seconds_whole [of "days * 86400"] by simp
  with d w show ?thesis by (auto simp: retention_setup_def Let_def)
qed

text \<open>With 213504 days the window wraps around to less than half an hour.\<close>

lemma retention_window_wraps: "wrap64 (wrap64 (213504 * 24) * Hour) = 1526290448384"
  by (simp add: wrap64_def)

text \<open>
  Database connections are enough for the workers: for a positive number of workers the pool is two larger
  than the number of workers the runner starts, and the pool for host slots two larger than the cap.
\<close>
lemma worker_pool_sizes:
  assumes "env ''IMGSYNC_DSN'' \<noteq> []" and "env ''IMGSYNC_WORKERS'' = itoa n" and "0 < n" and "n < 2 ^ 31 - 2"
    and "env ''IMGSYNC_FTP_HOST_CAP'' = itoa cap" and "0 < cap" and "cap < 2 ^ 31 - 2"
  shows "\<exists>ws. worker_setup_of env hostname = Inr ws \<and>
    int (length (Run_identities (command_runner ws a b c d))) = n \<and> ws_MaxConns ws = n + 2 \<and>
    hc_Cap (ws_hostcap ws) = cap \<and> ws_capConns ws = cap + 2"
proof -
  have "env_Int env ''IMGSYNC_WORKERS'' 4 = n" "env_Int env ''IMGSYNC_FTP_HOST_CAP'' 8 = cap"
    using assms by (intro env_Int_itoa; simp)+
  then show ?thesis
    using assms by (simp add: worker_setup_of_def Let_def hostcap_conns_def Wrap_config_def command_runner_def
        Run_identities_def Run_config_def)
qed

text \<open>With no worker configured the pool has two connections, but the runner starts its default of four workers.\<close>

lemma zero_workers_starve:
  "\<exists>ws. worker_setup_of (\<lambda>k. if k = ''IMGSYNC_DSN'' then ''postgres:'' else if k = ''IMGSYNC_WORKERS'' then ''0'' else []) hostname = Inr ws \<and>
     ws_MaxConns ws = 2 \<and> length (Run_identities (command_runner ws a b c d)) = 4"
proof -
  have "atoi ''0'' = Some 0" by code_simp
  then show ?thesis
    by (simp add: worker_setup_of_def Let_def env_Int_def command_runner_def Run_identities_def Run_config_def)
qed

end
