(* ===== verification/Pipeline.thy ===== *)
theory Pipeline
  imports Worker_Progress Transfer_Localfs Transfer_Ftp Commands
begin

text \<open>
  Jobs end to end: the worker of \<^verbatim>\<open>internal/worker\<close> with the sources and transports the worker command registers,
  on a local file system and an FTP server. What the queue records as succeeded is what lies at the destination.

  The world of a worker is the local file system together with the state \<open>'w\<close> of the FTP connections and servers and
  with the advisory locks of the database, which the cap around the FTP transport takes.
\<close>

section \<open>The registered sources and transports\<close>

text \<open>\<^verbatim>\<open>ProcessJob\<close> wraps the body in a fresh counting reader and compares its count afterwards.\<close>

definition local_source :: "open_env \<Rightarrow> (fs \<times> 'w, body) Source" where
  "local_source oe =
     \<lparr>Open = (\<lambda>p (F, w). case localfs_Open oe p F of (r, F') \<Rightarrow> (Ret r, (F', w))),
      Close = (\<lambda>b W. (Ret (oe_close oe), W))\<rparr>"

definition local_transport :: "(string \<Rightarrow> string) \<Rightarrow> send_env \<Rightarrow> (fs \<times> 'w, body) Transport" where
  "local_transport sha se =
     \<lparr>Send = (\<lambda>dst b sz (F, w).
        case localfs_Send sha se dst \<lparr>ct_r = b, ct_n = 0\<rparr> sz F of
          (Inl e, c, F') \<Rightarrow> (Ret (Inl e), (F', w))
        | (Inr (n, h), c, F') \<Rightarrow> (Ret (Inr (n, h, ct_n c)), (F', w)))\<rparr>"

definition ftp_transport ::
  "(string \<Rightarrow> go_error + url) \<Rightarrow> (string \<Rightarrow> string) \<Rightarrow> ('w, 'c) ftp_client \<Rightarrow> (nat \<Rightarrow> read_env) \<Rightarrow> (fs \<times> 'w, body) Transport"
where
  "ftp_transport url_Parse sha cl re =
     \<lparr>Send = (\<lambda>dst b sz (F, w).
        case ftp_Send url_Parse sha cl re dst \<lparr>ct_r = b, ct_n = 0\<rparr> sz w of
          (Inl e, c, w') \<Rightarrow> (Ret (Inl e), (F, w'))
        | (Inr (n, h), c, w') \<Rightarrow> (Ret (Inr (n, h, ct_n c)), (F, w')))\<rparr>"

text \<open>
  The cap around a transport (\<^verbatim>\<open>hostcap.Wrap\<close>). What it meets: the hash of the database, out-of-range conversions, the
  pinned session, the rounds of probing, other sessions during the transfer and whether the unlock arrives. When the
  given rounds are over the context ends the wait with \<open>ce_done\<close>.
\<close>

record cap_env =
  ce_hashtext :: "string \<Rightarrow> int"
  ce_oor :: "rat \<Rightarrow> int"
  ce_conn :: "go_error + session"
  ce_rounds :: "round_env list"
  ce_done :: go_error
  ce_others :: "lock_table \<Rightarrow> lock_table"
  ce_unlocked :: bool

definition parsed_host :: "(string \<Rightarrow> go_error + url) \<Rightarrow> string \<Rightarrow> go_error + string" where
  "parsed_host url_Parse dst = (case url_Parse dst of Inl e \<Rightarrow> Inl e | Inr u \<Rightarrow> Inr (Host u))"

definition capped_transport ::
  "(string \<Rightarrow> go_error + url) \<Rightarrow> hostcap_config \<Rightarrow> cap_env \<Rightarrow> (fs \<times> 'w, body) Transport \<Rightarrow>
   (fs \<times> 'w \<times> lock_table, body) Transport"
where
  "capped_transport url_Parse cfg ce inner =
     \<lparr>Send = (\<lambda>dst b sz (F, w, L).
        case hostcap_Send (ce_hashtext ce) (ce_oor ce) (parsed_host url_Parse) cfg (ce_conn ce) (ce_rounds ce)
               (ce_others ce) (ce_unlocked ce) (Send inner dst b sz) dst (F, w) L of
          (Some (r, F', w'), L') \<Rightarrow> (r, F', w', L')
        | (None, L') \<Rightarrow> (Ret (Inl (ce_done ce)), F, w, L'))\<rparr>"

definition worker_runner ::
  "worker_setup \<Rightarrow> open_env \<Rightarrow> (fs \<times> 'w \<times> lock_table, body) Source \<Rightarrow> (string \<Rightarrow> string) \<Rightarrow> send_env \<Rightarrow>
   (string \<Rightarrow> go_error + url) \<Rightarrow> ('w, 'c) ftp_client \<Rightarrow> (nat \<Rightarrow> read_env) \<Rightarrow> cap_env \<Rightarrow>
   (fs \<times> 'w \<times> lock_table, body) Runner"
where
  "worker_runner ws oe ftpSrc sha se url_Parse cl re ce =
     command_runner ws (local_source oe) ftpSrc (local_transport sha se)
       (capped_transport url_Parse (ws_hostcap ws) ce (ftp_transport url_Parse sha cl re))"

text \<open>A capped transfer that succeeds ran inside a slot of its host and passed the inner result on.\<close>

definition slot_taken :: "cap_env \<Rightarrow> hostcap_config \<Rightarrow> string \<Rightarrow> string \<Rightarrow> lock_table \<Rightarrow> lock_table \<Rightarrow> bool" where
  "slot_taken ce cfg host dst L L' \<longleftrightarrow>
     (\<exists>s slot waits L1. ce_conn ce = Inr s \<and>
        acquireSlot (ce_hashtext ce) (ce_oor ce) s host dst (hc_Cap cfg) (hc_AcquireBackoff cfg) (ce_rounds ce) L =
          (Some (Inr slot), waits, L1) \<and>
        L' = (if ce_unlocked ce then advisory_unlock s (ce_hashtext ce (slotKey host slot)) (ce_others ce L1)
              else ce_others ce L1))"

lemma capped_Send_ok:
  assumes "Send (capped_transport url_Parse cfg ce inner) dst b sz (F, w, L) = (Ret (Inr x), F', w', L')"
  shows "Send inner dst b sz (F, w) = (Ret (Inr x), F', w')"
    and "slot_taken ce cfg (cap_host (parsed_host url_Parse) cfg dst) dst L L'"
proof -
  let ?host = "cap_host (parsed_host url_Parse) cfg dst"
  obtain s where s: "ce_conn ce = Inr s" "?host \<noteq> []" "\<not> slotHash_panics (hc_Cap cfg)" "\<not> slotHash_panics (wrap64 (hc_Cap cfg * 7 + 13))"
    using assms by (cases "ce_conn ce") (auto simp: capped_transport_def hostcap_Send_def Let_def split: if_splits)
  obtain res waits L1 where a: "acquireSlot (ce_hashtext ce) (ce_oor ce) s ?host dst (hc_Cap cfg) (hc_AcquireBackoff cfg)
      (ce_rounds ce) L = (res, waits, L1)" by (metis prod_cases3)
  obtain slot where r: "res = Some (Inr slot)"
    using assms s a by (cases res; cases "the res") (auto simp: capped_transport_def hostcap_Send_def Let_def)
  obtain q F1 w1 where i: "Send inner dst b sz (F, w) = (q, F1, w1)" by (metis prod_cases3)
  show "Send inner dst b sz (F, w) = (Ret (Inr x), F', w')"
    using assms s a r i by (simp add: capped_transport_def hostcap_Send_def Let_def)
  show "slot_taken ce cfg ?host dst L L'"
    using assms s a r i by (auto simp: slot_taken_def capped_transport_def hostcap_Send_def Let_def)
qed

text \<open>Reading a file to its end delivers its content; reading a directory fails.\<close>

definition reads_files :: "open_env \<Rightarrow> bool" where
  "reads_files oe \<longleftrightarrow>
     (\<forall>c. body_error (oe_reads oe (Ffile c)) = None \<longrightarrow> body_bytes (oe_reads oe (Ffile c)) = c) \<and>
     body_error (oe_reads oe Fdir) \<noteq> None"

lemma worker_runner_local:
  "SourceFor (worker_runner ws oe ftpSrc sha se url_Parse cl re ce) ''localfs'' = Inr (local_source oe)"
  "TransportFor (worker_runner ws oe ftpSrc sha se url_Parse cl re ce) ''localfs'' = Inr (local_transport sha se)"
  "TransportFor (worker_runner ws oe ftpSrc sha se url_Parse cl re ce) ''ftp'' =
     Inr (capped_transport url_Parse (ws_hostcap ws) ce (ftp_transport url_Parse sha cl re))"
  by (simp_all add: worker_runner_def command_runner_def protocol_for_def)

section \<open>What a success says\<close>

lemma retry_not_succeeded: "writeRetryOrDead v lb hook job det D \<noteq> ((''succeeded'', e), acts, D')"
  by (auto simp: writeRetryOrDead_def Let_def split: if_splits prod.splits option.splits sum.splits)

text \<open>A job reported succeeded was opened, sent, verified, closed and written as such.\<close>

lemma processOne_succeeded:
  assumes "processOne v vp r lb job W D = (acts @ [OnFinish ''succeeded''], W', D')"
    and "SourceFor r (SrcProtocol job) = Inr src" and "TransportFor r (DstProtocol job) = Inr tr"
  shows "\<exists>body srcSize Wa written h n Wb.
    Open src (Src job) W = (Ret (Inr (body, srcSize)), Wa) \<and>
    Send tr (Dst job) body srcSize Wa = (Ret (Inr (written, h, n)), Wb) \<and>
    (if 0 \<le> srcSize then written = srcSize else written = n) \<and>
    Close src body Wb = (Ret None, W') \<and> writeSuccess v lb job written h D = (None, D')"
proof -
  let ?d = "\<lparr>d_LockedBy = lb, d_Source = src, d_Transport = tr\<rparr>"
  obtain res acts1 W1 D1 where P: "ProcessJob v ?d job W D = (res, acts1, W1, D1)" by (metis prod.exhaust)
  obtain e where "res = Ret (''succeeded'', e)" and "W1 = W'" "D1 = D'"
    using assms P retry_not_succeeded by (cases res) (auto simp: processOne_def split: prod.splits)
  with P have "ProcessJob v ?d job W D = (Ret (''succeeded'', e), acts1, W', D')" by simp
  from succeeded_means_verified [OF this] show ?thesis by simp
qed

lemma localfs_Open_ok:
  assumes "localfs_Open oe p F = (Inr (b, n), F')"
  shows "F' = oe_others oe F \<and> (\<exists>c node. F p = Some (Ffile c) \<and> n = int (length c) \<and> F' p = Some node \<and> b = oe_reads oe node)"
  using assms
  by (auto simp: localfs_Open_def os_Stat_def os_Open_def Let_def split: option.splits sum.splits fnode.splits)

text \<open>The content a local source delivered, when its body had no read error.\<close>

lemma local_source_content:
  assumes "reads_files oe" and "localfs_Open oe p F = (Inr (b, n), F')" and "body_error b = None"
  shows "\<exists>c. oe_others oe F p = Some (Ffile c) \<and> body_bytes b = c"
proof -
  obtain node where node: "oe_others oe F p = Some node" "b = oe_reads oe node"
    using localfs_Open_ok [OF assms(2)] by auto
  with assms(1,3) show ?thesis by (cases node) (auto simp: reads_files_def)
qed

text \<open>The success event of a job, as \<^verbatim>\<open>writeSuccess\<close> appends it to a row still leased to the worker.\<close>

definition success_recorded :: "wenv \<Rightarrow> string \<Rightarrow> Job \<Rightarrow> string \<Rightarrow> string \<Rightarrow> db \<Rightarrow> db" where
  "success_recorded v lb job c h D =
     snd (guarded_write (w_now v) (ID job) lb (success_row (w_now v) (Attempts job)) Ev_success
       (JObj [(''size'', JInt (int (length c))), (''sha256'', JStr h), (''duration_ms'', JInt (w_elapsed v))]) D)"

lemma writeSuccess_recorded:
  assumes "writeSuccess v lb job (int (length c)) h D = (None, D')"
  shows "D' = success_recorded v lb job c h D"
  using assms by (cases "w_out v") (auto simp: writeSuccess_def exec_err_def success_recorded_def case_prod_unfold Let_def)

text \<open>What is known of every job from a local path that ended as succeeded.\<close>

lemma local_source_succeeded:
  assumes "processOne v vp (worker_runner ws oe ftpSrc sha se url_Parse cl re ce) lb job (F, w) D =
      (acts @ [OnFinish ''succeeded''], W', D')"
    and "SrcProtocol job = ''localfs''"
    and "TransportFor (worker_runner ws oe ftpSrc sha se url_Parse cl re ce) (DstProtocol job) = Inr tr"
  obtains body c0 h n where "F (Src job) = Some (Ffile c0)"
    and "localfs_Open oe (Src job) F = (Inr (body, int (length c0)), oe_others oe F)"
    and "Send tr (Dst job) body (int (length c0)) (oe_others oe F, w) = (Ret (Inr (int (length c0), h, n)), W')"
    and "writeSuccess v lb job (int (length c0)) h D = (None, D')"
proof -
  have src: "SourceFor (worker_runner ws oe ftpSrc sha se url_Parse cl re ce) (SrcProtocol job) = Inr (local_source oe)"
    by (simp add: assms(2) worker_runner_local)
  obtain body srcSize Wa written h n Wb where
    o: "Open (local_source oe) (Src job) (F, w) = (Ret (Inr (body, srcSize)), Wa)" and
    s: "Send tr (Dst job) body srcSize Wa = (Ret (Inr (written, h, n)), Wb)" and
    sz: "if 0 \<le> srcSize then written = srcSize else written = n" and
    cl: "Close (local_source oe) body Wb = (Ret None, W')" and
    wr: "writeSuccess v lb job written h D = (None, D')"
    using processOne_succeeded [OF assms(1) src assms(3)] by blast
  obtain F1 where lo: "localfs_Open oe (Src job) F = (Inr (body, srcSize), F1)" and Wa: "Wa = (F1, w)"
    using o by (auto simp: local_source_def split: prod.splits)
  obtain c0 where c0: "F (Src job) = Some (Ffile c0)" "srcSize = int (length c0)" and F1: "F1 = oe_others oe F"
    using localfs_Open_ok [OF lo] by auto
  have "Wb = W'" using cl by (simp add: local_source_def)
  moreover have "written = int (length c0)" using sz c0(2) by simp
  ultimately show thesis using that [of c0 body h n] lo s wr Wa c0 F1 by simp
qed

section \<open>What a calm environment gives\<close>

definition calm_open :: "open_env \<Rightarrow> bool" where
  "calm_open oe \<longleftrightarrow> oe_ctx oe = None \<and> oe_stat oe = None \<and> oe_open oe = None \<and> oe_close oe = None \<and> oe_others oe = id \<and>
     (\<forall>c. body_error (oe_reads oe (Ffile c)) = None)"

text \<open>
  A job that can be done is done. When the source is a file, the parent directory of the destination exists, the
  destination is not a directory, a temporary name is free, no call fails and the worker holds the lease, then
  processing the job returns, the destination holds the content of the source and nothing else changed on the file
  system, exactly that row becomes succeeded with one success event that carries size and digest, and the job is
  reported succeeded after its body was closed once.
\<close>

lemma calm_local_job:
  assumes "SrcProtocol job = ''localfs''" and "DstProtocol job = ''localfs''"
    and "calm_open oe" and "reads_files oe" and "calm_send se"
    and "F (Src job) = Some (Ffile c)" and "F (path_Dir (Dst job)) = Some Fdir" and "F (Dst job) \<noteq> Some Fdir"
    and "q \<in> set (take 10000 (se_rands se))" and "F (temp_path (path_Dir (Dst job)) q) = None"
    and "db_ok D" and "j \<in> set (transfer_jobs D)" and "holds_lease (ID job) lb j" and "w_out v = DB_Ok"
  shows "processOne v vp (worker_runner ws oe ftpSrc sha se url_Parse cl re ce) lb job (F, w) D =
    ([BodyClosed, OnFinish ''succeeded''], (F(Dst job \<mapsto> Ffile c), w),
     record_outcome (w_now v) j
       (\<lambda>k. k\<lparr>Status := Succeeded, LockedAt := None, LockedBy := None, UpdatedAt := w_now v\<rparr>) Ev_success
       (JObj [(''size'', JInt (int (length c))), (''sha256'', JStr (sha c)), (''duration_ms'', JInt (w_elapsed v))]) D)"
proof -
  let ?b = "oe_reads oe (Ffile c)" and ?n = "int (length c)"
  have b: "body_error ?b = None" "body_bytes ?b = c" using assms(3,4) by (auto simp: calm_open_def reads_files_def)
  have "localfs_Open oe (Src job) F = (Inr (?b, ?n), F)"
    using assms(3,6) by (simp add: localfs_Open_def os_Stat_def os_Open_def calm_open_def)
  then have o: "Open (local_source oe) (Src job) (F, w) = (Ret (Inr (?b, ?n)), (F, w))" by (simp add: local_source_def)
  obtain c' where ls: "localfs_Send sha se (Dst job) \<lparr>ct_r = ?b, ct_n = 0\<rparr> ?n F = (Inr (?n, sha c), c', F(Dst job \<mapsto> Ffile c))"
    using localfs_send_succeeds [of se F "Dst job" q "\<lparr>ct_r = ?b, ct_n = 0\<rparr>" sha ?n] assms(5,7-10) b by auto
  then have s: "Send (local_transport sha se) (Dst job) ?b ?n (F, w) =
      (Ret (Inr (?n, sha c, ct_n c')), (F(Dst job \<mapsto> Ffile c), w))"
    by (simp add: local_transport_def)
  have cl: "Close (local_source oe) ?b (F(Dst job \<mapsto> Ffile c), w) = (Ret None, (F(Dst job \<mapsto> Ffile c), w))"
    using assms(3) by (simp add: local_source_def calm_open_def)
  show ?thesis
    by (rule transfer_recorded [OF _ _ o s _ cl assms(11-14)]) (simp_all add: assms(1,2) worker_runner_local)
qed

section \<open>A concrete worker\<close>

definition ex_open :: open_env where
  "ex_open = \<lparr>oe_ctx = None, oe_stat = None, oe_others = id, oe_open = None,
     oe_reads = (\<lambda>n. case n of Fdir \<Rightarrow> [([], Some (RErr (PlainErr ''is a directory'')))] | Ffile c \<Rightarrow> [(c, Some Eof)]),
     oe_close = None\<rparr>"

definition ex_send :: send_env where
  "ex_send = \<lparr>se_ctx = None, se_create = None, se_rands = [''1''], se_read = (\<lambda>_. \<lparr>re_err = None, re_done = None\<rparr>),
     se_write = (\<lambda>_. None), se_sync = None, se_close = None, se_rename = None, se_removed = True\<rparr>"

definition ex_fs :: fs where
  "ex_fs = [''/'' \<mapsto> Fdir, ''/a'' \<mapsto> Ffile ''abc'']"

definition ex_setup :: worker_setup where
  "ex_setup =
     \<lparr>ws_Workers = 1, ws_PodName = ''w'', ws_MaxConns = 3,
      ws_ftp = \<lparr>MaxPerHost = 4, IdleTTL = 300 * Second, NoopAfter = 60 * Second, AuthUser = [], AuthPassword = [], DialTimeout = 10 * Second\<rparr>,
      ws_hostcap = \<lparr>hc_Cap = 1, hc_Host = [], hc_AcquireBackoff = 100 * Millisecond\<rparr>, ws_capConns = 3,
      ws_idle = \<lparr>BaseDelay = 50 * Millisecond, MaxDelay = 1 * Second\<rparr>, ws_health = '':8080'', ws_liveness = 10 * Second,
      ws_sweep_threshold = 5 * Minute, ws_sweep_interval = 30 * Second, ws_retention = None\<rparr>"

definition ex_no_source :: "(fs \<times> (string \<rightharpoonup> string) \<times> lock_table, body) Source" where
  "ex_no_source = \<lparr>Open = (\<lambda>_ W. (Ret (Inl ErrPermanent), W)), Close = (\<lambda>_ W. (Ret None, W))\<rparr>"

definition ex_cap :: cap_env where
  "ex_cap = \<lparr>ce_hashtext = (\<lambda>k. int (length k)), ce_oor = (\<lambda>_. 0), ce_conn = Inr 1,
     ce_rounds = [\<lparr>ro_probe = (\<lambda>_. \<lparr>pr_others = id, pr_err = None\<rparr>), ro_done = None\<rparr>], ce_done = ErrCanceled,
     ce_others = id, ce_unlocked = True\<rparr>"

definition ex_worker :: "(fs \<times> (string \<rightharpoonup> string) \<times> lock_table, body) Runner" where
  "ex_worker = worker_runner ex_setup ex_open ex_no_source (\<lambda>_. ''d'') ex_send plain_url memory_client
     (\<lambda>_. \<lparr>re_err = None, re_done = None\<rparr>) ex_cap"

definition ex_job :: Job where
  "ex_job = lease_row 1 ''w'' (ex_row 1 0)"

lemma ex_pipeline:
  "calm_open ex_open" "reads_files ex_open" "calm_send ex_send" "w_out ex_v = DB_Ok"
  "ex_job \<in> set (transfer_jobs ex_db)" "holds_lease (ID ex_job) ''w'' ex_job"
  by (auto simp: calm_open_def reads_files_def calm_send_def ex_open_def ex_send_def ex_v_def ex_job_def ex_db_def
      holds_lease_def lease_row_def)

lemma ex_quiet: "oe_others ex_open G = G"
  by (simp add: ex_open_def)

lemma ex_rands: "''1'' \<in> set (take 10000 (se_rands ex_send))"
  by (simp add: ex_send_def)

lemma ex_paths:
  "SrcProtocol ex_job = ''localfs''" "DstProtocol ex_job = ''localfs''" "Src ex_job = ''/a''" "Dst ex_job = ''/b''"
  "path_Dir ''/b'' = ''/''" "ex_fs (temp_path ''/'' ''1'') = None" "ex_fs ''/'' = Some Fdir" "ex_fs ''/b'' = None"
  "ex_fs ''/a'' = Some (Ffile ''abc'')"
  by (simp_all add: ex_job_def ex_row_def new_row_def lease_row_def path_Dir_def path_Clean_def temp_path_def has_suffix_def
      ex_fs_def)

lemma ex_run:
  "\<exists>D'. processOne ex_v ex_v ex_worker ''w'' ex_job (ex_fs, Map.empty, Map.empty) ex_db =
     ([BodyClosed, OnFinish ''succeeded''], (ex_fs(Dst ex_job \<mapsto> Ffile ''abc''), Map.empty, Map.empty), D')"
  unfolding ex_worker_def
  by (rule exI, rule calm_local_job [where q = "''1''" and j = ex_job, OF ex_paths(1,2) ex_pipeline(1-3)])
     (simp_all add: ex_paths ex_pipeline ex_db_ok ex_rands)

text \<open>The same job to an FTP server that keeps its files in memory.\<close>

definition ex_upload :: Job where
  "ex_upload = ex_job\<lparr>DstProtocol := ''ftp'', Dst := ''ftp://h/in/b''\<rparr>"

lemma ex_upload_dst: "ftp_dst plain_url (Dst ex_upload) ''in/b.imgsync.tmp'' ''in/b''"
  by (simp add: ex_upload_def ftp_dst_def plain_url_def trim_prefix_def)

lemma ex_upload_run:
  "\<exists>w' L' D'. processOne ex_v ex_v ex_worker ''w'' ex_upload (ex_fs, Map.empty, Map.empty) ex_db =
     ([BodyClosed, OnFinish ''succeeded''], (ex_fs, w', L'), D')"
proof -
  let ?re = "\<lambda>_. \<lparr>re_err = None, re_done = None\<rparr>" and ?b = "\<lparr>ct_r = [(''abc'', Some Eof)], ct_n = 0\<rparr>"
  obtain c' where "io_Copy ?re (\<lambda>_. None) 0 (NewCtxReader ?b) [] = (None, ''abc'', c')"
    using io_Copy_calm [of ?re "\<lambda>_. None" "NewCtxReader ?b" 0 "[]"] by (auto simp: NewCtxReader_def)
  then obtain c2 w' where "ftp_Send plain_url (\<lambda>_. ''d'') memory_client ?re (Dst ex_upload) ?b 3 Map.empty = (Inr (3, ''d''), c2, w')"
    by (auto simp: ftp_Send_def plain_url_def ex_upload_def memory_client_def Let_def)
  then have "Send (ftp_transport plain_url (\<lambda>_. ''d'') memory_client ?re) (Dst ex_upload) [(''abc'', Some Eof)] 3 (ex_fs, Map.empty) =
      (Ret (Inr (3, ''d'', ct_n c2)), (ex_fs, w'))"
    by (simp add: ftp_transport_def)
  then obtain L' where sc: "Send (capped_transport plain_url (ws_hostcap ex_setup) ex_cap (ftp_transport plain_url (\<lambda>_. ''d'') memory_client ?re))
      (Dst ex_upload) [(''abc'', Some Eof)] 3 (ex_fs, Map.empty, Map.empty) = (Ret (Inr (3, ''d'', ct_n c2)), ex_fs, w', L')"
    by (auto simp: capped_transport_def hostcap_Send_def cap_host_def parsed_host_def ex_setup_def ex_cap_def ex_upload_def plain_url_def
        slotHash_panics_dvd acquireSlot_def slotHash_def try_advisory_lock_def wrap64_def Let_def)
  have o: "Open (local_source ex_open) (Src ex_upload) (ex_fs, Map.empty, Map.empty) =
      (Ret (Inr ([(''abc'', Some Eof)], 3)), (ex_fs, Map.empty, Map.empty))"
    using ex_paths(3,9)
    by (simp add: ex_upload_def local_source_def localfs_Open_def os_Stat_def os_Open_def ex_open_def)
  have cl: "Close (local_source ex_open) [(''abc'', Some Eof)] (ex_fs, w', L') = (Ret None, (ex_fs, w', L'))"
    by (simp add: local_source_def ex_open_def)
  show ?thesis
    unfolding ex_worker_def
    by (rule exI, rule exI, rule exI, rule transfer_recorded [OF _ _ o sc _ cl ex_db_ok ex_pipeline(5)])
       (simp_all add: ex_upload_def ex_paths worker_runner_local ex_pipeline)
qed

section \<open>Properties\<close>

text \<open>
  C5. A local job recorded as succeeded is delivered. However the context, the system calls, the reads and the
  database behave and whatever other processes do to the file system between the worker's look at the source and its
  opening it: if the worker reports \<open>succeeded\<close> for a job from a local path to a local path, then the destination holds
  exactly the content the source had when it was opened, which has the size the source announced, nothing else on the
  file system was changed by the worker, and the success event carries that size and the digest of that content.
\<close>
theorem succeeded_is_delivered:
  assumes "processOne v vp (worker_runner ws oe ftpSrc sha se url_Parse cl re ce) lb job (F, w) D =
      (acts @ [OnFinish ''succeeded''], (F', w'), D')"
    and "SrcProtocol job = ''localfs''" and "DstProtocol job = ''localfs''" and "reads_files oe"
  shows "\<exists>c0 c. F (Src job) = Some (Ffile c0) \<and> oe_others oe F (Src job) = Some (Ffile c) \<and> length c = length c0 \<and>
    F' = (oe_others oe F)(Dst job \<mapsto> Ffile c) \<and> w' = w \<and> D' = success_recorded v lb job c (sha c) D"
proof -
  let ?tr = "local_transport sha se :: (fs \<times> 'a \<times> lock_table, body) Transport"
  have tr: "TransportFor (worker_runner ws oe ftpSrc sha se url_Parse cl re ce) (DstProtocol job) = Inr ?tr"
    by (simp add: assms(3) worker_runner_local)
  from assms(1,2) tr show ?thesis
  proof (rule local_source_succeeded)
    fix body c0 h n
    assume c0: "F (Src job) = Some (Ffile c0)"
      and lo: "localfs_Open oe (Src job) F = (Inr (body, int (length c0)), oe_others oe F)"
      and s: "Send ?tr (Dst job) body (int (length c0)) (oe_others oe F, w) = (Ret (Inr (int (length c0), h, n)), (F', w'))"
      and wr: "writeSuccess v lb job (int (length c0)) h D = (None, D')"
    obtain c' where "localfs_Send sha se (Dst job) \<lparr>ct_r = body, ct_n = 0\<rparr> (int (length c0)) (oe_others oe F) =
        (Inr (int (length c0), h), c', F')" and w': "w' = w"
      using s by (auto simp: local_transport_def split: prod.splits sum.splits)
    note S = localfs_Send_ok [OF this(1), simplified]
    obtain c where c: "oe_others oe F (Src job) = Some (Ffile c)" "body_bytes body = c"
      using local_source_content [OF assms(4) lo] S by auto
    have len: "length c0 = length c" and h: "h = sha c" using S c(2) by simp_all
    have "D' = success_recorded v lb job c (sha c) D" by (rule writeSuccess_recorded [OF wr [unfolded len h]])
    then show ?thesis using S c c0 w' len [symmetric] by blast
  qed
qed

theorem succeeded_is_delivered_witness:
  "case processOne ex_v ex_v ex_worker ''w'' ex_job (ex_fs, Map.empty, Map.empty) ex_db of
     (_, (F, _), _) \<Rightarrow> F = ex_fs(''/b'' \<mapsto> Ffile ''abc'')"
proof -
  obtain D' where P: "processOne ex_v ex_v ex_worker ''w'' ex_job (ex_fs, Map.empty, Map.empty) ex_db =
      ([BodyClosed] @ [OnFinish ''succeeded''], (ex_fs(Dst ex_job \<mapsto> Ffile ''abc''), Map.empty, Map.empty), D')"
    using ex_run by auto
  from succeeded_is_delivered [OF P [unfolded ex_worker_def] ex_paths(1,2) ex_pipeline(2)]
  obtain c where "ex_fs ''/a'' = Some (Ffile c)" and F: "ex_fs(Dst ex_job \<mapsto> Ffile ''abc'') = ex_fs(''/b'' \<mapsto> Ffile c)"
    unfolding ex_paths ex_quiet by blast
  then have "c = ''abc''" using ex_paths(9) by simp
  with F show ?thesis unfolding P by simp
qed



text \<open>
  C35. A missing source is skipped, not retried. When the source of a local job does not exist and the worker holds the
  lease, the job becomes skipped without an attempt charged, the event says that the source was not found, the file
  system and the servers are untouched, and nothing was opened that would have to be closed.
\<close>
theorem missing_source_skipped:
  assumes "SrcProtocol job = ''localfs''" and "DstProtocol job \<in> {''localfs'', ''ftp''}"
    and "oe_ctx oe = None" and "oe_stat oe = None" and "F (Src job) = None"
    and "db_ok D" and "j \<in> set (transfer_jobs D)" and "holds_lease (ID job) lb j" and "w_out v = DB_Ok"
  shows "processOne v vp (worker_runner ws oe ftpSrc sha se url_Parse cl re ce) lb job (F, w) D =
    ([OnFinish ''skipped''], (F, w),
     record_outcome (w_now v) j
       (\<lambda>k. k\<lparr>Status := Skipped, Attempts := Attempts job, LockedAt := None, LockedBy := None, UpdatedAt := w_now v\<rparr>) Ev_skip
       (JObj [(''error'', JStr (sanitizeErrMsg (''localfs: stat '' @ Src job @ '': '' @ err_text ErrSkippable))),
              (''stage'', JStr ''open''), (''reason'', JStr ''source_not_found'')]) D)"
proof -
  let ?e = "wrap_err (''localfs: stat '' @ Src job @ '': '') ErrSkippable"
  have src: "SourceFor (worker_runner ws oe ftpSrc sha se url_Parse cl re ce) (SrcProtocol job) = Inr (local_source oe)"
    by (simp add: assms(1) worker_runner_local)
  have "\<exists>tr. TransportFor (worker_runner ws oe ftpSrc sha se url_Parse cl re ce) (DstProtocol job) = Inr tr"
    using assms(2) by (auto simp: worker_runner_local)
  then obtain tr where tr: "TransportFor (worker_runner ws oe ftpSrc sha se url_Parse cl re ce) (DstProtocol job) = Inr tr" by blast
  have "localfs_Open oe (Src job) F = (Inl ?e, F)"
    using assms(3-5) by (simp add: localfs_Open_def os_Stat_def no_such_file_def)
  then have o: "Open (local_source oe) (Src job) (F, w) = (Ret (Inl ?e), (F, w))" by (simp add: local_source_def)
  have sk: "errors_is ?e ErrSkippable" by simp
  then have "outcome_spec v job ?e = (\<lambda>j. j\<lparr>Status := Skipped, Attempts := Attempts job, LockedAt := None, LockedBy := None,
      UpdatedAt := w_now v\<rparr>, Ev_skip, ''skipped'')" by (simp add: outcome_spec_def)
  with classify_held [OF assms(6-9), of ?e "openErrDetails ?e"] sk src tr o show ?thesis
    by (simp add: processOne_def ProcessJob_def returning_def openErrDetails_def wrap_err_def)
qed

theorem missing_source_skipped_witness:
  "case processOne ex_v ex_v ex_worker ''w'' ex_job (Map.empty, Map.empty, Map.empty) ex_db of
     (acts, (F, _), D') \<Rightarrow> acts = [OnFinish ''skipped''] \<and> F = Map.empty \<and>
       map Status (transfer_jobs D') = [Skipped, Pending, Pending]"
proof -
  have "\<exists>e. processOne ex_v ex_v ex_worker ''w'' ex_job (Map.empty, Map.empty, Map.empty) ex_db =
    ([OnFinish ''skipped''], (Map.empty, Map.empty, Map.empty),
     record_outcome (w_now ex_v) ex_job
       (\<lambda>k. k\<lparr>Status := Skipped, Attempts := Attempts ex_job, LockedAt := None, LockedBy := None, UpdatedAt := w_now ex_v\<rparr>)
       Ev_skip (JObj e) ex_db)"
    unfolding ex_worker_def
    by (rule exI, rule missing_source_skipped [OF ex_paths(1)])
       (simp_all add: ex_paths ex_pipeline ex_db_ok ex_open_def)
  then show ?thesis
    by (auto simp: record_outcome_def ex_db_def ex_job_def ex_row_def new_row_def lease_row_def)
qed

end
