(* ===== verification/Delivery.thy ===== *)
theory Delivery
  imports Pipeline
begin

text \<open>
  From a row of the source database to a file at its destination: what one poll of the sniffer enqueues, a worker
  that runs undisturbed transfers, all of it, in as many turns as there are jobs.
\<close>

section \<open>Jobs that can be done\<close>

text \<open>
  Pairs of a source and a destination path that a worker can transfer on the file system \<open>F\<close>, one after the other:
  the sources are files, the directories of the destinations exist, a temporary name is free in each, destinations are
  distinct and neither directories nor sources nor temporary names.
\<close>

definition deliverable :: "string \<Rightarrow> fs \<Rightarrow> (string \<times> string) list \<Rightarrow> bool" where
  "deliverable q F ps \<longleftrightarrow>
     distinct (map snd ps) \<and>
     (\<forall>(s, d) \<in> set ps.
        (\<exists>c. F s = Some (Ffile c)) \<and> F (path_Dir d) = Some Fdir \<and> F d \<noteq> Some Fdir \<and>
        F (temp_path (path_Dir d) q) = None \<and>
        d \<notin> fst ` set ps \<and> d \<notin> (\<lambda>(_, d). temp_path (path_Dir d) q) ` set ps)"

lemma deliverableD:
  assumes "deliverable q F ps" and "(s, d) \<in> set ps"
  shows "\<exists>c. F s = Some (Ffile c)" and "F (path_Dir d) = Some Fdir" and "F d \<noteq> Some Fdir"
    and "F (temp_path (path_Dir d) q) = None"
    and "(s', d') \<in> set ps \<Longrightarrow> s' \<noteq> d" and "(s', d') \<in> set ps \<Longrightarrow> temp_path (path_Dir d') q \<noteq> d"
  using assms unfolding deliverable_def by fastforce+

text \<open>After one of them is transferred, the others still can be.\<close>

lemma deliverable_step:
  assumes del: "deliverable q F ps" and "(s, d) \<in> set ps" and sub: "set ps' \<subseteq> set ps" and "distinct (map snd ps')"
  shows "deliverable q (F(d \<mapsto> Ffile c)) ps'"
  unfolding deliverable_def
proof (intro conjI ballI, rule assms(4), clarify)
  fix s' d' assume p': "(s', d') \<in> set ps'"
  then have p: "(s', d') \<in> set ps" using sub by blast
  note D = deliverableD [OF del assms(2)] and D' = deliverableD [OF del p]
  have "s' \<noteq> d" "temp_path (path_Dir d') q \<noteq> d" using D(5,6) p by blast+
  moreover have "path_Dir d' \<noteq> d" using D(3) D'(2) by auto
  moreover have "d' \<notin> fst ` set ps'" using D'(5) sub by fastforce
  moreover have "d' \<notin> (\<lambda>(_, d). temp_path (path_Dir d) q) ` set ps'" using D'(6) sub by fastforce
  ultimately show "(\<exists>ca. (F(d \<mapsto> Ffile c)) s' = Some (Ffile ca)) \<and> (F(d \<mapsto> Ffile c)) (path_Dir d') = Some Fdir \<and>
      (F(d \<mapsto> Ffile c)) d' \<noteq> Some Fdir \<and> (F(d \<mapsto> Ffile c)) (temp_path (path_Dir d') q) = None \<and>
      d' \<notin> fst ` set ps' \<and> d' \<notin> (\<lambda>(_, d). temp_path (path_Dir d) q) ` set ps'"
    using D' by simp
qed

definition pending_jobs :: "db \<Rightarrow> Job list" where
  "pending_jobs D = filter (\<lambda>j. Status j = Pending) (transfer_jobs D)"

definition paths :: "Job \<Rightarrow> string \<times> string" where
  "paths j = (Src j, Dst j)"

text \<open>All jobs that wait are due, are between local paths, and can be done.\<close>

definition ready :: "string \<Rightarrow> timestamp \<Rightarrow> fs \<Rightarrow> db \<Rightarrow> bool" where
  "ready q t F D \<longleftrightarrow>
     (\<forall>j \<in> set (pending_jobs D). NextRunAt j \<le> t \<and> SrcProtocol j = ''localfs'' \<and> DstProtocol j = ''localfs'') \<and>
     deliverable q F (map paths (pending_jobs D))"

text \<open>A turn that nothing disturbs, not before \<open>t\<close>.\<close>

definition calm_turn :: "timestamp \<Rightarrow> iteration \<Rightarrow> bool" where
  "calm_turn t it \<longleftrightarrow> alone it \<and> \<not> it_cancelled it \<and> it_lease it = DB_Ok \<and> t \<le> it_now it \<and> it_skip it = (\<lambda>_. False)"

section \<open>One turn\<close>

definition done_row :: "timestamp \<Rightarrow> Job \<Rightarrow> Job" where
  "done_row now j = j\<lparr>Status := Succeeded, LockedAt := None, LockedBy := None, UpdatedAt := now\<rparr>"

lemma upd_where_twice:
  "(\<And>j. ID (f j) = ID j) \<Longrightarrow>
   upd_where (\<lambda>j. ID j = i) g (upd_where (\<lambda>j. ID j = i) f js) = upd_where (\<lambda>j. ID j = i) (\<lambda>j. g (f j)) js"
  by (induction js) auto

lemma calm_turn_idle:
  assumes "calm_turn t it" and "pending_jobs D = []"
  shows "loop_turn r lb it W D = ([OnLeaseAttempt False, WaitOnce], W, D)"
proof -
  have "lease_candidates (it_now it) (\<lambda>_. False) D = []"
    using assms(2) by (auto simp: lease_candidates_def pending_jobs_def filter_empty_conv)
  then have "lease_stmt (it_now it) (\<lambda>_. False) lb D = (None, D)" using lease_stmt_None by blast
  then show ?thesis using assms(1) by (simp add: loop_turn_def calm_turn_def alone_def LeaseJob_def)
qed

lemma calm_turn_transfers:
  assumes "calm_turn t it" and "db_ok D" and "ready q t F D" and "pending_jobs D \<noteq> []"
    and "calm_open oe" and "reads_files oe" and "calm_send se" and "q \<in> set (take 10000 (se_rands se))"
  obtains n c acts D' where "n \<in> set (pending_jobs D)" and "F (Src n) = Some (Ffile c)"
    and "loop_turn (worker_runner ws oe ftpSrc sha se url_Parse cl re ce) lb it (F, w) D =
      (acts, (F(Dst n \<mapsto> Ffile c), w), D')"
    and "transfer_jobs D' = upd_where (\<lambda>k. ID k = ID n) (done_row (w_now (it_v it))) (transfer_jobs D)" and "db_ok D'"
proof -
  let ?now = "it_now it" and ?r = "worker_runner ws oe ftpSrc sha se url_Parse cl re ce"
  obtain x where x: "x \<in> set (pending_jobs D)" using assms(4) by (meson last_in_set)
  then have "x \<in> set (lease_candidates ?now (\<lambda>_. False) D)"
    using assms(1,3) by (fastforce simp: lease_candidates_def pending_jobs_def ready_def calm_turn_def)
  then have "fst (lease_stmt ?now (\<lambda>_. False) lb D) \<noteq> None"
    using lease_stmt_None [of ?now "\<lambda>_. False" lb D "snd (lease_stmt ?now (\<lambda>_. False) lb D)"] by (auto simp: prod_eq_iff)
  then obtain job D1 where L: "lease_stmt ?now (\<lambda>_. False) lb D = (Some job, D1)" by (cases "lease_stmt ?now (\<lambda>_. False) lb D") auto
  then show thesis
  proof (rule lease_stmt_Some)
    fix n assume n: "n \<in> set (transfer_jobs D)" "Status n = Pending" and job: "job = lease_row ?now lb n"
      and D1: "D1 = D\<lparr>transfer_jobs := upd_where (\<lambda>j. ID j = ID n) (lease_row ?now lb) (transfer_jobs D)\<rparr>"
    have pend: "n \<in> set (pending_jobs D)" using n by (simp add: pending_jobs_def)
    then have "paths n \<in> set (map paths (pending_jobs D))" by simp
    then have in_paths: "(Src n, Dst n) \<in> set (map paths (pending_jobs D))" by (simp only: paths_def)
    have del: "deliverable q F (map paths (pending_jobs D))" using assms(3) by (simp add: ready_def)
    note dn = deliverableD(1-4) [OF del in_paths]
    obtain c where c: "F (Src n) = Some (Ffile c)" using dn(1) by blast
    have job_fields: "SrcProtocol job = ''localfs''" "DstProtocol job = ''localfs''" "Src job = Src n" "Dst job = Dst n" "ID job = ID n"
      using pend assms(3) by (auto simp: job lease_row_def ready_def)
    have ok1: "db_ok D1" using db_ok_lease_stmt [OF assms(2), of ?now "\<lambda>_. False" lb] L by simp
    have j1: "job \<in> set (transfer_jobs D1)" "holds_lease (ID job) lb job"
      using upd_where_image [OF n(1), of "\<lambda>j. ID j = ID n" "lease_row ?now lb"]
      by (simp_all add: D1 job holds_lease_def lease_row_def)
    have out: "w_out (it_v it) = DB_Ok" using assms(1) by (simp add: calm_turn_def alone_def)
    define D' where "D' = record_outcome (w_now (it_v it)) job (done_row (w_now (it_v it))) Ev_success
       (JObj [(''size'', JInt (int (length c))), (''sha256'', JStr (sha c)), (''duration_ms'', JInt (w_elapsed (it_v it)))]) D1"
    have P: "processOne (it_v it) (it_vp it) ?r lb job (F, w) D1 =
        ([BodyClosed, OnFinish ''succeeded''], (F(Dst n \<mapsto> Ffile c), w), D')"
      using calm_local_job [OF job_fields(1,2) assms(5-7), where F = F and c = c and q = q and D = D1 and j = job and lb = lb
          and v = "it_v it" and vp = "it_vp it" and w = w] dn c assms(8) ok1 j1 out
      by (simp add: job_fields D'_def done_row_def [abs_def])
    have "loop_turn ?r lb it (F, w) D = ([OnLeaseAttempt True, WakeAll] @ [BodyClosed, OnFinish ''succeeded''], (F(Dst n \<mapsto> Ffile c), w), D')"
      using assms(1) L P by (simp add: loop_turn_def calm_turn_def alone_def LeaseJob_def)
    moreover have "transfer_jobs D' = upd_where (\<lambda>k. ID k = ID n) (done_row (w_now (it_v it))) (transfer_jobs D)"
    proof -
      have "transfer_jobs D' = upd_where (\<lambda>k. ID k = ID n) (\<lambda>j. done_row (w_now (it_v it)) (lease_row ?now lb j)) (transfer_jobs D)"
        by (simp add: D'_def record_outcome_def D1 job_fields upd_where_twice lease_row_def)
      then show ?thesis by (simp add: done_row_def [abs_def] lease_row_def)
    qed
    moreover have "db_ok D'"
      using processOne_ok(1) [OF P ok1] LeaseJob_own_snapshot [OF assms(2), of DB_Ok ?now "\<lambda>_. False" lb job D1] L
      by (simp add: LeaseJob_Some)
    ultimately show thesis using that pend c by blast
  qed
qed

section \<open>Many turns\<close>

lemma pending_after:
  assumes "db_ok D" and "n \<in> set (pending_jobs D)"
    and "transfer_jobs D' = upd_where (\<lambda>k. ID k = ID n) (done_row now) (transfer_jobs D)"
  shows "pending_jobs D' = filter (\<lambda>j. ID j \<noteq> ID n) (pending_jobs D)"
    and "Suc (length (pending_jobs D')) = length (pending_jobs D)"
    and "k \<in> set (transfer_jobs D) \<Longrightarrow> Status k \<noteq> Pending \<Longrightarrow> k \<in> set (transfer_jobs D')"
    and "\<exists>k \<in> set (transfer_jobs D'). ID k = ID n \<and> TraceID k = TraceID n \<and> Dst k = Dst n \<and> Status k = Succeeded"
proof -
  have n: "n \<in> set (transfer_jobs D)" "Status n = Pending" using assms(2) by (auto simp: pending_jobs_def)
  note ids = distinct_map_eq [OF db_okD(1) [OF assms(1)] _ n(1)]
  have "filter (\<lambda>j. Status j = Pending) (upd_where (\<lambda>k. ID k = ID n) (done_row now) js) =
      filter (\<lambda>j. ID j \<noteq> ID n) (filter (\<lambda>j. Status j = Pending) js)" for js
    by (induction js) (auto simp: done_row_def)
  then show p: "pending_jobs D' = filter (\<lambda>j. ID j \<noteq> ID n) (pending_jobs D)" by (simp add: pending_jobs_def assms(3))
  have "distinct (map ID (pending_jobs D))" unfolding pending_jobs_def by (rule distinct_map_filter [OF db_okD(1) [OF assms(1)]])
  from filter_key_single [OF this assms(2)] have "length (filter (\<lambda>j. ID j = ID n) (pending_jobs D)) = 1" by simp
  then show "Suc (length (pending_jobs D')) = length (pending_jobs D)"
    using sum_length_filter_compl [of "\<lambda>j. ID j = ID n" "pending_jobs D"] p by simp
  show "k \<in> set (transfer_jobs D')" if k: "k \<in> set (transfer_jobs D)" "Status k \<noteq> Pending"
  proof -
    have "ID k \<noteq> ID n" using ids [OF k(1)] k(2) n(2) by auto
    then show ?thesis
      using upd_where_image [OF k(1), of "\<lambda>k. ID k = ID n" "done_row now"] by (simp add: assms(3))
  qed
  have "done_row now n \<in> set (transfer_jobs D')"
    using upd_where_image [OF n(1), of "\<lambda>k. ID k = ID n" "done_row now"] by (simp add: assms(3))
  then show "\<exists>k \<in> set (transfer_jobs D'). ID k = ID n \<and> TraceID k = TraceID n \<and> Dst k = Dst n \<and> Status k = Succeeded"
    by (rule rev_bexI) (simp add: done_row_def)
qed

lemma ready_after:
  assumes "db_ok D" and "ready q t F D" and n: "n \<in> set (pending_jobs D)"
    and "pending_jobs D' = filter (\<lambda>j. ID j \<noteq> ID n) (pending_jobs D)"
  shows "ready q t (F(Dst n \<mapsto> Ffile c)) D'"
proof -
  have del: "deliverable q F (map paths (pending_jobs D))" using assms(2) by (simp add: ready_def)
  have "paths n \<in> set (map paths (pending_jobs D))" using n by simp
  then have "(Src n, Dst n) \<in> set (map paths (pending_jobs D))" by (simp only: paths_def)
  moreover have "set (map paths (pending_jobs D')) \<subseteq> set (map paths (pending_jobs D))" using assms(4) by auto
  moreover have "distinct (map (\<lambda>j. snd (paths j)) (pending_jobs D))" using del by (simp add: deliverable_def comp_def)
  then have "distinct (map snd (map paths (pending_jobs D')))"
    unfolding assms(4) map_map comp_def by (rule distinct_map_filter)
  ultimately have "deliverable q (F(Dst n \<mapsto> Ffile c)) (map paths (pending_jobs D'))" by (rule deliverable_step [OF del])
  then show ?thesis using assms(2,4) by (simp add: ready_def)
qed

text \<open>What the turns leave: every waiting job done, every finished row kept, no other path touched.\<close>

definition drained :: "fs \<Rightarrow> db \<Rightarrow> fs \<Rightarrow> db \<Rightarrow> bool" where
  "drained F D F' D' \<longleftrightarrow>
     (\<forall>j \<in> set (pending_jobs D).
        (\<exists>c. F (Src j) = Some (Ffile c) \<and> F' (Dst j) = Some (Ffile c)) \<and>
        (\<exists>k \<in> set (transfer_jobs D'). ID k = ID j \<and> TraceID k = TraceID j \<and> Dst k = Dst j \<and> Status k = Succeeded)) \<and>
     (\<forall>k \<in> set (transfer_jobs D). Status k \<noteq> Pending \<longrightarrow> k \<in> set (transfer_jobs D')) \<and>
     (\<forall>p. p \<notin> Dst ` set (pending_jobs D) \<longrightarrow> F' p = F p)"

lemma drained_none: "pending_jobs D = [] \<Longrightarrow> drained F D F D"
  by (simp add: drained_def)

lemma drained_turn:
  assumes "db_ok D" and del: "ready q t F D" and n: "n \<in> set (pending_jobs D)" and c: "F (Src n) = Some (Ffile c)"
    and D1: "transfer_jobs D1 = upd_where (\<lambda>k. ID k = ID n) (done_row now) (transfer_jobs D)"
    and rest: "drained (F(Dst n \<mapsto> Ffile c)) D1 F' D'"
  shows "drained F D F' D'"
  unfolding drained_def
proof (intro conjI ballI allI impI)
  note pa = pending_after [OF assms(1) n D1]
  have dst: "Dst n \<noteq> Src j" "ID j \<noteq> ID n \<Longrightarrow> Dst j \<noteq> Dst n" if j: "j \<in> set (pending_jobs D)" for j
  proof -
    have ps: "(Src n, Dst n) \<in> set (map paths (pending_jobs D))" "(Src j, Dst j) \<in> set (map paths (pending_jobs D))"
      using n j by (auto simp: paths_def)
    have dl: "deliverable q F (map paths (pending_jobs D))" using del by (simp add: ready_def)
    show "Dst n \<noteq> Src j" using deliverableD(5) [OF dl ps(1) ps(2)] by (rule not_sym)
    have "distinct (map Dst (pending_jobs D))" using dl by (simp add: deliverable_def paths_def comp_def)
    then show "ID j \<noteq> ID n \<Longrightarrow> Dst j \<noteq> Dst n" using distinct_map_eq [OF _ j n] by blast
  qed
  have n_out: "Dst n \<notin> Dst ` set (pending_jobs D1)"
  proof
    assume "Dst n \<in> Dst ` set (pending_jobs D1)"
    then obtain x where "x \<in> set (pending_jobs D)" "ID x \<noteq> ID n" "Dst x = Dst n" using pa(1) by auto
    with dst(2) show False by blast
  qed
  then have Fn: "F' (Dst n) = Some (Ffile c)" using rest by (simp add: drained_def)
  fix j assume j: "j \<in> set (pending_jobs D)"
  show "\<exists>c. F (Src j) = Some (Ffile c) \<and> F' (Dst j) = Some (Ffile c)"
  proof (cases "ID j = ID n")
    case True
    then have "j = n" using distinct_map_eq [OF db_okD(1) [OF assms(1)], of j n] j n by (auto simp: pending_jobs_def)
    then show ?thesis using c Fn by blast
  next
    case False
    then have "j \<in> set (pending_jobs D1)" using j pa(1) by simp
    then show ?thesis using rest dst(1) [OF j] by (fastforce simp: drained_def)
  qed
  show "\<exists>k \<in> set (transfer_jobs D'). ID k = ID j \<and> TraceID k = TraceID j \<and> Dst k = Dst j \<and> Status k = Succeeded"
  proof (cases "ID j = ID n")
    case True
    then have "j = n" using distinct_map_eq [OF db_okD(1) [OF assms(1)], of j n] j n by (auto simp: pending_jobs_def)
    obtain k where "k \<in> set (transfer_jobs D1)" "ID k = ID n" "TraceID k = TraceID n" "Dst k = Dst n" "Status k = Succeeded"
      using pa(4) by blast
    with rest \<open>j = n\<close> show ?thesis unfolding drained_def by (metis job_status.distinct(3))
  next
    case False
    then have "j \<in> set (pending_jobs D1)" using j pa(1) by simp
    then show ?thesis using rest by (simp add: drained_def)
  qed
next
  fix k assume "k \<in> set (transfer_jobs D)" "Status k \<noteq> Pending"
  then have "k \<in> set (transfer_jobs D1)" using pending_after(3) [OF assms(1) n D1] by blast
  then show "k \<in> set (transfer_jobs D')" using rest \<open>Status k \<noteq> Pending\<close> by (simp add: drained_def)
next
  fix p assume p: "p \<notin> Dst ` set (pending_jobs D)"
  then have "p \<noteq> Dst n" using n by blast
  moreover have "p \<notin> Dst ` set (pending_jobs D1)" using p pending_after(1) [OF assms(1) n D1] by auto
  ultimately show "F' p = F p" using rest by (simp add: drained_def)
qed

lemma calm_loop_drains:
  assumes "db_ok D" and "ready q t F D" and "list_all (calm_turn t) its" and "length (pending_jobs D) \<le> length its"
    and "calm_open oe" and "reads_files oe" and "calm_send se" and "q \<in> set (take 10000 (se_rands se))"
    and "loop_from (worker_runner ws oe ftpSrc sha se url_Parse cl re ce) lb its (F, w) D = (fin, acts, (F', w'), D')"
  shows "drained F D F' D'"
  using assms(1-4,9)
proof (induction its arbitrary: F D acts fin)
  case Nil
  then show ?case using drained_none by simp
next
  case (Cons it its)
  let ?r = "worker_runner ws oe ftpSrc sha se url_Parse cl re ce"
  have it: "calm_turn t it" "\<not> it_cancelled it" using Cons.prems(3) by (auto simp: calm_turn_def)
  show ?case
  proof (cases "pending_jobs D = []")
    case True
    obtain fin2 acts2 where "loop_from ?r lb its (F, w) D = (fin2, acts2, (F', w'), D')"
      using Cons.prems(5) it(2) calm_turn_idle [OF it(1) True, of ?r lb "(F, w)"] by (auto split: prod.splits)
    then show ?thesis using Cons.IH [of D F fin2 acts2] Cons.prems(1-3) True by simp
  next
    case False
    show ?thesis
    proof (rule calm_turn_transfers [OF it(1) Cons.prems(1,2) False assms(5-8), where w = w])
      fix n c acts1 D1
      assume n: "n \<in> set (pending_jobs D)" "F (Src n) = Some (Ffile c)"
        and turn: "loop_turn ?r lb it (F, w) D = (acts1, (F(Dst n \<mapsto> Ffile c), w), D1)"
        and D1: "transfer_jobs D1 = upd_where (\<lambda>k. ID k = ID n) (done_row (w_now (it_v it))) (transfer_jobs D)" "db_ok D1"
      obtain fin2 acts2 where rest: "loop_from ?r lb its (F(Dst n \<mapsto> Ffile c), w) D1 = (fin2, acts2, (F', w'), D')"
        using Cons.prems(5) it(2) turn by (auto split: prod.splits)
      note pa = pending_after [OF Cons.prems(1) n(1) D1(1)]
      have "list_all (calm_turn t) its" "length (pending_jobs D1) \<le> length its" using Cons.prems(3,4) pa(2) by simp_all
      from Cons.IH [OF D1(2) ready_after [OF Cons.prems(1,2) n(1) pa(1)] this rest] have "drained (F(Dst n \<mapsto> Ffile c)) D1 F' D'" .
      then show ?thesis by (rule drained_turn [OF Cons.prems(1,2) n D1(1)])
    qed
  qed
qed

section \<open>A poll\<close>

text \<open>The jobs a poll without faults finds from the stored watermark.\<close>

definition poll_specs :: "poll_env \<Rightarrow> 't SnifferConfig \<Rightarrow> source_row list \<Rightarrow> state_table \<Rightarrow> JobSpec list" where
  "poll_specs x c S T =
     (case Load None (sc_SourceID c) T of
        Inl _ \<Rightarrow> []
      | Inr st \<Rightarrow>
          (case Fetch None None (sc_fmt_time c) (po_now_src x) (sc_Query c) S st of
             Inl _ \<Rightarrow> [] | Inr rows \<Rightarrow> row_specs c rows))"

definition row_of_spec :: "timestamp \<Rightarrow> Job \<Rightarrow> JobSpec \<Rightarrow> bool" where
  "row_of_spec now r j \<longleftrightarrow> Status r = Pending \<and> NextRunAt r = now \<and> TraceID r = js_TraceID j \<and> Src r = js_Src j \<and>
     Dst r = js_Dst j \<and> SrcProtocol r = js_SrcProtocol j \<and> DstProtocol r = js_DstProtocol j"

lemma insert_specs_fresh:
  assumes "distinct (map js_Dst js)" and "\<forall>j \<in> set js. js_Dst j \<notin> Dst ` set (transfer_jobs D)"
  shows "\<exists>new. transfer_jobs (snd (insert_specs now js D)) = transfer_jobs D @ new \<and> list_all2 (row_of_spec now) new js \<and>
    fst (insert_specs now js D) = int (length js)"
  using assms
proof (induction js arbitrary: D)
  case (Cons j js)
  have "\<not> key_taken (js_TraceID j) (js_Dst j) D" using Cons.prems(2) by (auto simp: key_taken_iff)
  then obtain r where r: "r = new_row now (next_id D) (js_TraceID j) (js_Src j) (js_Dst j) (js_SrcProtocol j) (js_DstProtocol j) ''{}'' 5"
    and ins: "insert_spec now j D = (1, D\<lparr>next_id := next_id D + 1, transfer_jobs := transfer_jobs D @ [r]\<rparr>)"
    by (cases rule: insert_spec_cases [of j D now]) auto
  let ?D1 = "D\<lparr>next_id := next_id D + 1, transfer_jobs := transfer_jobs D @ [r]\<rparr>"
  have "js_Dst k \<noteq> js_Dst j" if "k \<in> set js" for k using Cons.prems(1) that by (auto simp: image_iff)
  then have "\<forall>k \<in> set js. js_Dst k \<notin> Dst ` set (transfer_jobs ?D1)"
    using Cons.prems(2) by (auto simp: r new_row_def)
  then obtain new where new: "transfer_jobs (snd (insert_specs now js ?D1)) = transfer_jobs ?D1 @ new"
    "list_all2 (row_of_spec now) new js" "fst (insert_specs now js ?D1) = int (length js)"
    using Cons.IH [of ?D1] Cons.prems(1) by auto
  have "row_of_spec now r j" by (simp add: r row_of_spec_def new_row_def)
  with new ins show ?case by (intro exI [of _ "r # new"]) (simp add: case_prod_unfold)
qed simp

lemma row_spec_protocols: "row_spec c r = Some j \<Longrightarrow> js_SrcProtocol j = sc_SrcProtocol c \<and> js_DstProtocol j = sc_DstProtocol c"
  by (auto simp: row_spec_def split: sum.splits)

lemma list_all2_map_eq: "list_all2 P xs ys \<Longrightarrow> (\<And>x y. P x y \<Longrightarrow> f x = g y) \<Longrightarrow> map f xs = map g ys"
  by (induction rule: list_all2_induct) auto

lemma poll_enqueues:
  assumes "RunOnce x c S (T, empty_db) = ((n, None), cb, T1, D1)" and "distinct (map js_Dst (poll_specs x c S T))"
  shows "list_all2 (row_of_spec (po_now x)) (transfer_jobs D1) (poll_specs x c S T)" and "n = int (length (poll_specs x c S T))"
    and "db_ok D1"
proof -
  have impl: "runOnceImpl x c S (T, empty_db) = ((n, None), T1, D1)"
    using assms(1) by (auto simp: RunOnce_def split: prod.splits option.splits)
  obtain st rows where L: "Load (po_load x) (sc_SourceID c) T = Inr st"
    and R: "Fetch (po_query x) (po_rows x) (sc_fmt_time c) (po_now_src x) (sc_Query c) S st = Inr rows"
    using impl by (auto simp: runOnceImpl_def split: sum.splits)
  have L0: "Load None (sc_SourceID c) T = Inr st" using L by (auto simp: Load_def split: option.splits)
  have R0: "Fetch None None (sc_fmt_time c) (po_now_src x) (sc_Query c) S st = Inr rows"
    using R by (auto simp: Fetch_def split: if_splits option.splits)
  have specs: "poll_specs x c S T = row_specs c rows" by (simp add: poll_specs_def L0 R0)
  have "EnqueueBatch (po_enqueue x) (po_now x) (row_specs c rows) empty_db = (Inr n, D1)"
  proof (cases "rows = []")
    case True
    with impl L R show ?thesis by (simp add: runOnceImpl_def EnqueueBatch_def)
  next
    case False
    with impl L R show ?thesis by (auto simp: runOnceImpl_def split: sum.splits prod.splits option.splits)
  qed
  then have ins: "insert_specs (po_now x) (poll_specs x c S T) empty_db = (n, D1)" by (simp add: EnqueueBatch_Inr specs)
  have none: "transfer_jobs empty_db = []" by (simp add: empty_db_def)
  then have "\<forall>j \<in> set (poll_specs x c S T). js_Dst j \<notin> Dst ` set (transfer_jobs empty_db)" by simp
  from insert_specs_fresh [OF assms(2) this, of "po_now x"]
  show "list_all2 (row_of_spec (po_now x)) (transfer_jobs D1) (poll_specs x c S T)" "n = int (length (poll_specs x c S T))"
    by (auto simp: ins none)
  show "db_ok D1" using db_ok_insert_specs [OF db_ok_empty, of "po_now x" "poll_specs x c S T"] by (simp add: ins)
qed

section \<open>A concrete source\<close>

definition ex_sniffer :: "string SnifferConfig" where
  "ex_sniffer = (example_config ''dst'')\<lparr>sc_SrcProtocol := ''localfs'',
     sc_Query := \<lparr>Table = ''images'', PKColumn = ''id'', TSColumn = ''ts'', ExtraColumns = [''path'', ''dst''],
                  BatchSize = 10, BiasDuration = 2 * Second\<rparr>\<rparr>"

definition ex_source :: "source_row list" where
  "ex_source = [\<lparr>r_pk = 9, r_ts = 5, r_cols = [''path'' \<mapsto> ''/a'', ''dst'' \<mapsto> ''/b'']\<rparr>]"

definition ex_turn :: iteration where
  "ex_turn = \<lparr>it_cancelled = False, it_lease = DB_Ok, it_now = 3000001, it_skip = (\<lambda>_. False), it_v = ex_v, it_vp = ex_v,
     it_pre = id, it_mid = id\<rparr>"

lemma ex_poll_specs:
  "poll_specs (clean_poll 3000000) ex_sniffer ex_source Map.empty =
     [\<lparr>js_TraceID = ''images-'' @ itoa 9, js_Src = ''/a'', js_Dst = ''/b'', js_SrcProtocol = ''localfs'', js_DstProtocol = ''localfs''\<rparr>]"
  by (simp add: poll_specs_def Load_def Fetch_def clean_poll_def ex_sniffer_def example_config_def ex_source_def zero_time_def
      in_window_def after_watermark_def row_spec_def Render_def example_engine_def scan_row_def TraceID_of_def Let_def)

lemma ex_poll:
  "\<exists>n cb T1 D1. RunOnce (clean_poll 3000000) ex_sniffer ex_source (Map.empty, empty_db) = ((n, None), cb, T1, D1)"
  by (simp add: RunOnce_def runOnceImpl_def EnqueueBatch_def Upsert_def Load_def Fetch_def clean_poll_def ex_sniffer_def
      example_config_def ex_source_def zero_time_def in_window_def after_watermark_def row_spec_def Render_def example_engine_def
      scan_row_def TraceID_of_def insert_spec_def insert_job_def key_taken_def empty_db_def Let_def)

lemma ex_deliverable: "deliverable ''1'' ex_fs [(''/a'', ''/b'')]"
  using ex_paths by (simp add: deliverable_def temp_path_def has_suffix_def)

section \<open>From row to file\<close>



end
