(* ===== verification/Metrics_Registry.thy ===== *)
theory Metrics_Registry
  imports Observability
begin

text \<open>
  Which metric families \<^verbatim>\<open>internal/metrics\<close> registers, with their labels, and in which order the two commands register
  them. The registry is the Prometheus library's: \<open>must_register\<close> is a parameter, with its documented behaviour as the
  hypothesis \<open>registry_laws\<close>.
\<close>

section \<open>Families\<close>

datatype metric_kind = Counter | Gauge | Histogram "rat list"

record metric_desc =
  md_name :: string
  md_labels :: "string list"
  md_kind :: metric_kind

definition defaultDurationBuckets :: "rat list" where
  "defaultDurationBuckets = [1 / 10, 1 / 2, 1, 2, 5, 10, 30, 60, 300, 1800]"

definition newSnifferLagCollector :: metric_desc where
  "newSnifferLagCollector = \<lparr>md_name = ''imgsync_sniffer_watermark_lag_seconds'', md_labels = [''source''], md_kind = Gauge\<rparr>"

definition newQueueDepthCollector :: metric_desc where
  "newQueueDepthCollector = \<lparr>md_name = ''imgsync_jobs_in_status'', md_labels = [''status''], md_kind = Gauge\<rparr>"

definition newDBPoolCollector :: metric_desc where
  "newDBPoolCollector = \<lparr>md_name = ''imgsync_db_pool_conns'', md_labels = [''state''], md_kind = Gauge\<rparr>"

definition newLeaseLockAge :: metric_desc where
  "newLeaseLockAge = \<lparr>md_name = ''imgsync_lease_lock_age_seconds'', md_labels = [], md_kind = Gauge\<rparr>"

definition newOldestPendingAge :: metric_desc where
  "newOldestPendingAge = \<lparr>md_name = ''imgsync_oldest_pending_age_seconds'', md_labels = [], md_kind = Gauge\<rparr>"

definition New_families :: "metric_desc list" where
  "New_families =
     [\<lparr>md_name = ''imgsync_lease_attempts_total'', md_labels = [''result''], md_kind = Counter\<rparr>,
      \<lparr>md_name = ''imgsync_jobs_processed_total'', md_labels = [''src'', ''dst'', ''result''], md_kind = Counter\<rparr>,
      \<lparr>md_name = ''imgsync_job_retries_total'', md_labels = [''src'', ''dst'', ''stage''], md_kind = Counter\<rparr>,
      \<lparr>md_name = ''imgsync_job_duration_seconds'', md_labels = [''src'', ''dst'', ''result''],
       md_kind = Histogram defaultDurationBuckets\<rparr>,
      \<lparr>md_name = ''imgsync_sweep_cycles_total'', md_labels = [], md_kind = Counter\<rparr>,
      \<lparr>md_name = ''imgsync_retention_rows_deleted_total'', md_labels = [], md_kind = Counter\<rparr>,
      \<lparr>md_name = ''imgsync_ftp_pool_size'', md_labels = [''host'', ''state''], md_kind = Gauge\<rparr>,
      \<lparr>md_name = ''imgsync_sniffer_enqueue_total'', md_labels = [''source''], md_kind = Counter\<rparr>,
      \<lparr>md_name = ''imgsync_sniffer_run_errors_total'', md_labels = [''source''], md_kind = Counter\<rparr>,
      \<lparr>md_name = ''imgsync_sniffer_last_run_timestamp'', md_labels = [''source''], md_kind = Gauge\<rparr>,
      \<lparr>md_name = ''imgsync_workers_active'', md_labels = [''pod''], md_kind = Gauge\<rparr>,
      newSnifferLagCollector]"

section \<open>Registering\<close>

definition New_registry :: "(metric_desc list \<Rightarrow> 'g \<Rightarrow> 'g go) \<Rightarrow> 'g \<Rightarrow> 'g go" where
  "New_registry must_register g = must_register New_families g"

definition AttachQueueDepth :: "(metric_desc list \<Rightarrow> 'g \<Rightarrow> 'g go) \<Rightarrow> 'g \<Rightarrow> 'g go" where
  "AttachQueueDepth must_register g = must_register [newQueueDepthCollector] g"

definition AttachDBPool :: "(metric_desc list \<Rightarrow> 'g \<Rightarrow> 'g go) \<Rightarrow> 'g \<Rightarrow> 'g go" where
  "AttachDBPool must_register g = must_register [newDBPoolCollector] g"

definition AttachLeaseLockAge :: "(metric_desc list \<Rightarrow> 'g \<Rightarrow> 'g go) \<Rightarrow> 'g \<Rightarrow> 'g go" where
  "AttachLeaseLockAge must_register g = must_register [newLeaseLockAge] g"

definition AttachOldestPending :: "(metric_desc list \<Rightarrow> 'g \<Rightarrow> 'g go) \<Rightarrow> 'g \<Rightarrow> 'g go" where
  "AttachOldestPending must_register g = must_register [newOldestPendingAge] g"

fun then_go :: "'a go \<Rightarrow> ('a \<Rightarrow> 'b go) \<Rightarrow> 'b go" where
  "then_go (Ret x) f = f x"
| "then_go (Panic p) f = Panic p"

definition worker_registers :: "(metric_desc list \<Rightarrow> 'g \<Rightarrow> 'g go) \<Rightarrow> 'g \<Rightarrow> 'g go" where
  "worker_registers mr g =
     then_go (then_go (then_go (then_go (New_registry mr g) (AttachQueueDepth mr)) (AttachDBPool mr)) (AttachLeaseLockAge mr))
       (AttachOldestPending mr)"

definition sniffer_registers :: "(metric_desc list \<Rightarrow> 'g \<Rightarrow> 'g go) \<Rightarrow> 'g \<Rightarrow> 'g go" where
  "sniffer_registers mr g = then_go (then_go (New_registry mr g) (AttachQueueDepth mr)) (AttachDBPool mr)"

text \<open>
  \<^verbatim>\<open>MustRegister\<close> adds the families in order and panics at the first whose name is taken; \<open>names\<close> are the names a
  registry has.
\<close>

definition registry_laws :: "(metric_desc list \<Rightarrow> 'g \<Rightarrow> 'g go) \<Rightarrow> ('g \<Rightarrow> string list) \<Rightarrow> bool" where
  "registry_laws must_register names \<longleftrightarrow>
     (\<forall>ds g. if distinct (names g @ map md_name ds)
        then \<exists>g'. must_register ds g = Ret g' \<and> names g' = names g @ map md_name ds
        else \<exists>p. must_register ds g = Panic p)"

section \<open>What the registrations give\<close>

lemma registers:
  assumes "registry_laws mr names" and "names g = ns" and "distinct (ns @ map md_name ds)"
  obtains g' where "mr ds g = Ret g'" "names g' = ns @ map md_name ds"
  using assms unfolding registry_laws_def by metis

lemmas family_defs = New_families_def newSnifferLagCollector_def newQueueDepthCollector_def newDBPoolCollector_def
  newLeaseLockAge_def newOldestPendingAge_def

lemma worker_family_names:
  "distinct (map md_name New_families @ map md_name [newQueueDepthCollector, newDBPoolCollector, newLeaseLockAge, newOldestPendingAge])"
  by code_simp

text \<open>
  Both commands register all their families without a panic, starting from an empty registry; a collector that is
  attached a second time panics, whatever pool it reads.
\<close>

lemma commands_register:
  assumes laws: "registry_laws mr names" and "names g = []"
  shows "\<exists>g'. worker_registers mr g = Ret g'" and "\<exists>g'. sniffer_registers mr g = Ret g'"
proof -
  let ?n = "map md_name New_families"
  have d: "distinct ([] @ ?n)" "distinct (?n @ map md_name [newQueueDepthCollector])"
    "distinct ((?n @ map md_name [newQueueDepthCollector]) @ map md_name [newDBPoolCollector])"
    "distinct (((?n @ map md_name [newQueueDepthCollector]) @ map md_name [newDBPoolCollector]) @ map md_name [newLeaseLockAge])"
    "distinct ((((?n @ map md_name [newQueueDepthCollector]) @ map md_name [newDBPoolCollector]) @ map md_name [newLeaseLockAge]) @
      map md_name [newOldestPendingAge])"
    using worker_family_names by simp_all
  obtain g1 where g1: "mr New_families g = Ret g1" "names g1 = [] @ ?n" by (rule registers [OF assms d(1)])
  obtain g2 where g2: "mr [newQueueDepthCollector] g1 = Ret g2" "names g2 = ?n @ map md_name [newQueueDepthCollector]"
    by (rule registers [OF laws g1(2) [unfolded append_Nil] d(2)])
  note r3 = registers [OF laws g2(2) d(3)]
  obtain g3 where g3: "mr [newDBPoolCollector] g2 = Ret g3"
    "names g3 = (?n @ map md_name [newQueueDepthCollector]) @ map md_name [newDBPoolCollector]" by (rule r3)
  obtain g4 where g4: "mr [newLeaseLockAge] g3 = Ret g4"
    "names g4 = ((?n @ map md_name [newQueueDepthCollector]) @ map md_name [newDBPoolCollector]) @ map md_name [newLeaseLockAge]"
    by (rule registers [OF laws g3(2) d(4)])
  obtain g5 where "mr [newOldestPendingAge] g4 = Ret g5" by (rule registers [OF laws g4(2) d(5)])
  then show "\<exists>g'. worker_registers mr g = Ret g'" and "\<exists>g'. sniffer_registers mr g = Ret g'"
    using g1(1) g2(1) g3(1) g4(1)
    by (simp_all add: worker_registers_def sniffer_registers_def New_registry_def AttachQueueDepth_def AttachDBPool_def
        AttachLeaseLockAge_def AttachOldestPending_def)
qed

lemma attach_twice_panics:
  assumes "registry_laws mr names" and "AttachQueueDepth mr g = Ret g'"
  shows "\<exists>p. AttachQueueDepth mr g' = Panic p"
proof -
  let ?ds = "[newQueueDepthCollector]"
  have law: "if distinct (names g @ map md_name ?ds)
      then \<exists>g'. mr ?ds g = Ret g' \<and> names g' = names g @ map md_name ?ds else \<exists>p. mr ?ds g = Panic p" for g
    using assms(1) unfolding registry_laws_def by blast
  have m: "mr ?ds g = Ret g'" using assms(2) by (simp add: AttachQueueDepth_def)
  then have "names g' = names g @ map md_name ?ds" using law [of g] by (auto split: if_splits)
  then have "\<not> distinct (names g' @ map md_name ?ds)" by simp
  then show ?thesis using law [of g'] by (simp add: AttachQueueDepth_def)
qed

lemma duration_buckets_increase: "sorted_wrt (<) defaultDurationBuckets"
  by (simp add: defaultDurationBuckets_def)

text \<open>The laws can hold: a registry that is the list of its names.\<close>

definition name_registry :: "metric_desc list \<Rightarrow> string list \<Rightarrow> string list go" where
  "name_registry ds g =
     (if distinct (g @ map md_name ds) then Ret (g @ map md_name ds) else Panic ''duplicate metrics collector registration attempted'')"

lemma name_registry_laws: "registry_laws name_registry (\<lambda>g. g)"
  by (simp add: registry_laws_def name_registry_def)

end
