(* ===== verification/Migrate.thy ===== *)
theory Migrate
  imports Queue_DB "HOL-Library.List_Lexorder" "HOL-Library.Char_ord"
begin

text \<open>
  \<^verbatim>\<open>internal/db/migrate.go\<close> and the scripts of \<^verbatim>\<open>migrations/\<close>. A script is the list of its data definition
  statements; the schema is the set of names it has created and the recorded versions.
\<close>

section \<open>Schemas and scripts\<close>

record db_schema =
  sch_types :: "string set"
  sch_tables :: "string set"
  sch_indexes :: "(string \<times> string) set"
  sch_versions :: "string set"

datatype ddl =
    CreateType string
  | CreateTable string
  | CreateIndex string string
  | DropIndexIfExists string
  | DropTableIfExists string
  | CommentOn string
  | RecordVersion string
  | DeleteVersion string

text \<open>An index is given with its table; dropping a table drops its indexes.\<close>

fun run_ddl :: "ddl \<Rightarrow> db_schema \<Rightarrow> go_error + db_schema" where
  "run_ddl (CreateType t) S =
     (if t \<in> sch_types S then Inl (PlainErr ''type already exists'') else Inr (S\<lparr>sch_types := insert t (sch_types S)\<rparr>))"
| "run_ddl (CreateTable t) S =
     (if t \<in> sch_tables S then Inl (PlainErr ''relation already exists'') else Inr (S\<lparr>sch_tables := insert t (sch_tables S)\<rparr>))"
| "run_ddl (CreateIndex i t) S =
     (if t \<notin> sch_tables S then Inl (PlainErr ''relation does not exist'')
      else if i \<in> fst ` sch_indexes S then Inl (PlainErr ''relation already exists'')
      else Inr (S\<lparr>sch_indexes := insert (i, t) (sch_indexes S)\<rparr>))"
| "run_ddl (DropIndexIfExists i) S = Inr (S\<lparr>sch_indexes := {x \<in> sch_indexes S. fst x \<noteq> i}\<rparr>)"
| "run_ddl (DropTableIfExists t) S =
     Inr (S\<lparr>sch_tables := sch_tables S - {t}, sch_indexes := {x \<in> sch_indexes S. snd x \<noteq> t}\<rparr>)"
| "run_ddl (CommentOn t) S = (if t \<notin> sch_tables S then Inl (PlainErr ''relation does not exist'') else Inr S)"
| "run_ddl (RecordVersion v) S =
     (if ''schema_migrations'' \<notin> sch_tables S then Inl (PlainErr ''relation does not exist'')
      else if v \<in> sch_versions S then Inl (PlainErr ''duplicate key value'')
      else Inr (S\<lparr>sch_versions := insert v (sch_versions S)\<rparr>))"
| "run_ddl (DeleteVersion v) S =
     (if ''schema_migrations'' \<notin> sch_tables S then Inl (PlainErr ''relation does not exist'')
      else Inr (S\<lparr>sch_versions := sch_versions S - {v}\<rparr>))"

text \<open>A script runs in one transaction (\<^verbatim>\<open>BEGIN ... COMMIT\<close>, or implicitly): all of it or nothing.\<close>

fun run_script :: "ddl list \<Rightarrow> db_schema \<Rightarrow> go_error + db_schema" where
  "run_script [] S = Inr S"
| "run_script (d # ds) S = (case run_ddl d S of Inl e \<Rightarrow> Inl e | Inr S' \<Rightarrow> run_script ds S')"

definition initial_up :: "ddl list" where
  "initial_up =
     [CreateType ''job_status'', CreateTable ''transfer_jobs'',
      CreateIndex ''transfer_jobs_pending_idx'' ''transfer_jobs'', CreateIndex ''transfer_jobs_leased_idx'' ''transfer_jobs'',
      CreateIndex ''transfer_jobs_trace_id_idx'' ''transfer_jobs'', CreateTable ''transfer_events'',
      CreateIndex ''transfer_events_job_id_idx'' ''transfer_events'', CreateIndex ''transfer_events_trace_id_ts_idx'' ''transfer_events'',
      CreateTable ''schema_migrations'', RecordVersion ''0001_initial'']"

definition sniffer_state_up :: "ddl list" where
  "sniffer_state_up =
     [CreateTable ''sniffer_state'', CommentOn ''sniffer_state'', CommentOn ''sniffer_state'', RecordVersion ''0002_sniffer_state'']"

definition sniffer_state_down :: "ddl list" where
  "sniffer_state_down = [DropTableIfExists ''sniffer_state'', DeleteVersion ''0002_sniffer_state'']"

definition jobs_status_index_up :: "ddl list" where
  "jobs_status_index_up = [CreateIndex ''transfer_jobs_status_idx'' ''transfer_jobs'', RecordVersion ''0003_jobs_status_index'']"

definition jobs_status_index_down :: "ddl list" where
  "jobs_status_index_down = [DropIndexIfExists ''transfer_jobs_status_idx'', DeleteVersion ''0003_jobs_status_index'']"

definition drop_trace_id_index_up :: "ddl list" where
  "drop_trace_id_index_up = [DropIndexIfExists ''transfer_jobs_trace_id_idx'', RecordVersion ''0004_drop_trace_id_index'']"

definition drop_trace_id_index_down :: "ddl list" where
  "drop_trace_id_index_down = [CreateIndex ''transfer_jobs_trace_id_idx'' ''transfer_jobs'', DeleteVersion ''0004_drop_trace_id_index'']"

section \<open>Applying migrations\<close>

text \<open>
  What a run meets: the directory (names, and whether each is a directory), the connection, the advisory lock, the
  two look-ups, the files, and how the server answers each script.
\<close>

record migrate_env =
  mg_dir :: "go_error + (string \<times> bool) list"
  mg_connect :: "go_error option"
  mg_lock :: "go_error option"
  mg_exists :: "go_error option"
  mg_rows :: "go_error option"
  mg_read :: "string \<Rightarrow> go_error + ddl list"
  mg_exec :: "string \<Rightarrow> db_outcome"

definition hasTable :: "go_error option \<Rightarrow> string \<Rightarrow> db_schema \<Rightarrow> go_error + bool" where
  "hasTable e name S = (case e of Some err \<Rightarrow> Inl err | None \<Rightarrow> Inr (name \<in> sch_tables S))"

fun exec_script :: "db_outcome \<Rightarrow> ddl list \<Rightarrow> db_schema \<Rightarrow> go_error option \<times> db_schema" where
  "exec_script (DB_Fail e) body S = (Some e, S)"
| "exec_script (DB_Lost e) body S = (case run_script body S of Inl _ \<Rightarrow> (Some e, S) | Inr S' \<Rightarrow> (Some e, S'))"
| "exec_script DB_Ok body S = (case run_script body S of Inl e \<Rightarrow> (Some e, S) | Inr S' \<Rightarrow> (None, S'))"

fun apply_files :: "migrate_env \<Rightarrow> string set \<Rightarrow> string list \<Rightarrow> db_schema \<Rightarrow> go_error option \<times> db_schema" where
  "apply_files x applied [] S = (None, S)"
| "apply_files x applied (f # fs) S =
     (if trim_suffix f ''.up.sql'' \<in> applied then apply_files x applied fs S
      else case mg_read x f of
        Inl err \<Rightarrow> (Some (wrap_err (''read '' @ f @ '': '') err), S)
      | Inr body \<Rightarrow>
          (case exec_script (mg_exec x f) body S of
             (Some err, S') \<Rightarrow> (Some (wrap_err (''apply '' @ f @ '': '') err), S')
           | (None, S') \<Rightarrow> apply_files x applied fs S'))"

definition migration_files :: "(string \<times> bool) list \<Rightarrow> string list" where
  "migration_files entries = sort (map fst (filter (\<lambda>e. \<not> snd e \<and> has_suffix (fst e) ''.up.sql'') entries))"

definition ApplyMigrations :: "migrate_env \<Rightarrow> db_schema \<Rightarrow> go_error option \<times> db_schema" where
  "ApplyMigrations x S =
     (case mg_dir x of
        Inl err \<Rightarrow> (Some (wrap_err ''read migrations dir: '' err), S)
      | Inr entries \<Rightarrow>
     (case mg_connect x of
        Some err \<Rightarrow> (Some (wrap_err ''connect: '' err), S)
      | None \<Rightarrow>
     (case mg_lock x of
        Some err \<Rightarrow> (Some (wrap_err ''acquire migration advisory lock: '' err), S)
      | None \<Rightarrow>
     (case hasTable (mg_exists x) ''schema_migrations'' S of
        Inl err \<Rightarrow> (Some (wrap_err ''check schema_migrations existence: '' err), S)
      | Inr exists \<Rightarrow>
          if exists then
            (case mg_rows x of
               Some err \<Rightarrow> (Some (wrap_err ''read schema_migrations: '' err), S)
             | None \<Rightarrow> apply_files x (sch_versions S) (migration_files entries) S)
          else apply_files x {} (migration_files entries) S))))"

section \<open>The shipped migrations\<close>

definition shipped_dir :: "(string \<times> bool) list" where
  "shipped_dir =
     [(''0001_initial.up.sql'', False), (''0002_sniffer_state.down.sql'', False), (''0002_sniffer_state.up.sql'', False),
      (''0003_jobs_status_index.down.sql'', False), (''0003_jobs_status_index.up.sql'', False),
      (''0004_drop_trace_id_index.down.sql'', False), (''0004_drop_trace_id_index.up.sql'', False)]"

definition shipped_script :: "string \<Rightarrow> ddl list option" where
  "shipped_script = map_of
     [(''0001_initial.up.sql'', initial_up), (''0002_sniffer_state.up.sql'', sniffer_state_up),
      (''0003_jobs_status_index.up.sql'', jobs_status_index_up), (''0004_drop_trace_id_index.up.sql'', drop_trace_id_index_up)]"

definition no_schema :: db_schema where
  "no_schema = \<lparr>sch_types = {}, sch_tables = {}, sch_indexes = {}, sch_versions = {}\<rparr>"

text \<open>The schema after the first \<open>k\<close> scripts.\<close>

definition schema_at :: "nat \<Rightarrow> db_schema" where
  "schema_at k =
     \<lparr>sch_types = (if 1 \<le> k then {''job_status''} else {}),
      sch_tables = (if 1 \<le> k then {''transfer_jobs'', ''transfer_events'', ''schema_migrations''} else {}) \<union>
        (if 2 \<le> k then {''sniffer_state''} else {}),
      sch_indexes =
        (if 1 \<le> k then {(''transfer_jobs_pending_idx'', ''transfer_jobs''), (''transfer_jobs_leased_idx'', ''transfer_jobs''),
           (''transfer_events_job_id_idx'', ''transfer_events''), (''transfer_events_trace_id_ts_idx'', ''transfer_events'')} else {}) \<union>
        (if 1 \<le> k \<and> k < 4 then {(''transfer_jobs_trace_id_idx'', ''transfer_jobs'')} else {}) \<union>
        (if 3 \<le> k then {(''transfer_jobs_status_idx'', ''transfer_jobs'')} else {}),
      sch_versions = set (take k [''0001_initial'', ''0002_sniffer_state'', ''0003_jobs_status_index'', ''0004_drop_trace_id_index''])\<rparr>"

definition shipped_versions :: "string list" where
  "shipped_versions = [''0001_initial'', ''0002_sniffer_state'', ''0003_jobs_status_index'', ''0004_drop_trace_id_index'']"

definition shipped_ups :: "string list" where
  "shipped_ups =
     [''0001_initial.up.sql'', ''0002_sniffer_state.up.sql'', ''0003_jobs_status_index.up.sql'', ''0004_drop_trace_id_index.up.sql'']"

lemma shipped_files: "migration_files shipped_dir = shipped_ups"
proof -
  have "map fst (filter (\<lambda>e. \<not> snd e \<and> has_suffix (fst e) ''.up.sql'') shipped_dir) = shipped_ups"
    by (simp add: shipped_dir_def has_suffix_def shipped_ups_def)
  moreover have "sorted shipped_ups" by (simp add: shipped_ups_def less_char_def)
  ultimately show ?thesis by (simp add: migration_files_def sorted_sort_id)
qed

lemma less_4_cases: "j < (4::nat) \<Longrightarrow> j = 0 \<or> j = 1 \<or> j = 2 \<or> j = 3"
  by auto

lemma drop_one: "fst t = i \<Longrightarrow> \<forall>x \<in> A. fst x \<noteq> i \<Longrightarrow> {x \<in> insert t A. fst x \<noteq> i} = A"
  by auto

lemma dropped_index:
  "{x \<in> sch_indexes (schema_at 3). fst x \<noteq> ''transfer_jobs_trace_id_idx''} = sch_indexes (schema_at 4)"
proof -
  have ins: "sch_indexes (schema_at 3) = insert (''transfer_jobs_trace_id_idx'', ''transfer_jobs'') (sch_indexes (schema_at 4))"
    by (simp add: schema_at_def insert_commute)
  have "\<forall>x \<in> sch_indexes (schema_at 4). fst x \<noteq> ''transfer_jobs_trace_id_idx''"
    by (simp add: schema_at_def)
  then show ?thesis unfolding ins by (intro drop_one) simp
qed

lemma run_shipped:
  assumes "j < 4"
  shows "\<exists>body. shipped_script (shipped_ups ! j) = Some body \<and> run_script body (schema_at j) = Inr (schema_at (Suc j))"
proof -
  have 0: "run_script initial_up (schema_at 0) = Inr (schema_at 1)"
    by (simp add: schema_at_def initial_up_def insert_commute)
  have 1: "run_script sniffer_state_up (schema_at 1) = Inr (schema_at 2)"
    by (simp add: schema_at_def sniffer_state_up_def insert_commute numeral_2_eq_2)
  have 2: "run_script jobs_status_index_up (schema_at 2) = Inr (schema_at 3)"
    by (simp add: schema_at_def jobs_status_index_up_def insert_commute numeral_3_eq_3 numeral_2_eq_2)
  have 3: "run_script drop_trace_id_index_up (schema_at 3) = Inr (schema_at 4)"
    by (simp add: drop_trace_id_index_up_def dropped_index) (simp add: schema_at_def insert_commute numeral_3_eq_3)
  from less_4_cases [OF assms] show ?thesis
    by (elim disjE) (use 0 1 2 3 in \<open>simp_all add: shipped_script_def shipped_ups_def eval_nat_numeral\<close>)
qed

lemma shipped_version:
  assumes "j < 4"
  shows "trim_suffix (shipped_ups ! j) ''.up.sql'' = shipped_versions ! j"
  using less_4_cases [OF assms]
  by (elim disjE) (simp_all add: shipped_ups_def shipped_versions_def trim_suffix_def has_suffix_def numeral_3_eq_3 numeral_2_eq_2)

lemma version_applied:
  assumes "j < 4"
  shows "shipped_versions ! j \<in> sch_versions (schema_at k) \<longleftrightarrow> j < k"
proof -
  have d: "distinct shipped_versions" "length shipped_versions = 4" by (simp_all add: shipped_versions_def)
  have "sch_versions (schema_at k) = set (take k shipped_versions)" by (simp add: schema_at_def shipped_versions_def)
  then show ?thesis
    using d assms by (auto simp: in_set_conv_nth nth_eq_iff_index_eq)
qed

text \<open>A run that reads the shipped files, from any point of the sequence: it stops at a later point or finishes.\<close>

definition reads_shipped :: "migrate_env \<Rightarrow> bool" where
  "reads_shipped x \<longleftrightarrow> mg_dir x = Inr shipped_dir \<and> (\<forall>f body. mg_read x f = Inr body \<longrightarrow> shipped_script f = Some body)"

definition no_migrate_faults :: "migrate_env \<Rightarrow> bool" where
  "no_migrate_faults x \<longleftrightarrow> mg_connect x = None \<and> mg_lock x = None \<and> mg_exists x = None \<and> mg_rows x = None \<and>
     (\<forall>f \<in> set shipped_ups. mg_read x f = Inr (the (shipped_script f)) \<and> mg_exec x f = DB_Ok)"

lemma apply_shipped:
  assumes "reads_shipped x" and "k \<le> 4" and "j \<le> 4"
  shows "\<exists>m err. apply_files x (sch_versions (schema_at k)) (drop j shipped_ups) (schema_at (max k j)) = (err, schema_at m) \<and>
    max k j \<le> m \<and> m \<le> 4 \<and> (err = None \<longrightarrow> m = 4) \<and> (no_migrate_faults x \<longrightarrow> err = None)"
  using assms(3)
proof (induction "4 - j" arbitrary: j)
  case 0
  then have "j = 4" by simp
  then show ?case using assms(2) by (simp add: shipped_ups_def)
next
  case (Suc n)
  then have j: "j < 4" by simp
  then have d: "drop j shipped_ups = shipped_ups ! j # drop (Suc j) shipped_ups"
    by (intro Cons_nth_drop_Suc [symmetric]) (simp add: shipped_ups_def)
  have IH: "\<exists>m err. apply_files x (sch_versions (schema_at k)) (drop (Suc j) shipped_ups) (schema_at (max k (Suc j))) = (err, schema_at m) \<and>
      max k (Suc j) \<le> m \<and> m \<le> 4 \<and> (err = None \<longrightarrow> m = 4) \<and> (no_migrate_faults x \<longrightarrow> err = None)"
    using Suc.hyps(1) [of "Suc j"] Suc.hyps(2) j by simp
  show ?case
  proof (cases "j < k")
    case True
    then have "max k j = k" "max k (Suc j) = k" by simp_all
    with True IH show ?thesis by (simp add: d shipped_version [OF j] version_applied [OF j])
  next
    case False
    then have m: "max k j = j" "max k (Suc j) = Suc j" by simp_all
    obtain body where body: "shipped_script (shipped_ups ! j) = Some body" "run_script body (schema_at j) = Inr (schema_at (Suc j))"
      using run_shipped [OF j] by blast
    have in_ups: "shipped_ups ! j \<in> set shipped_ups" using j by (intro nth_mem) (simp add: shipped_ups_def)
    have clean: "mg_exec x (shipped_ups ! j) = DB_Ok \<and> (\<forall>e. mg_read x (shipped_ups ! j) \<noteq> Inl e)" if "no_migrate_faults x"
      using that in_ups by (auto simp: no_migrate_faults_def)
    note step = d shipped_version [OF j] version_applied [OF j] m False
    show ?thesis
    proof (cases "mg_read x (shipped_ups ! j)")
      case (Inl err)
      with clean j show ?thesis by (auto simp: step)
    next
      case (Inr b)
      with assms(1) body have b: "b = body" by (auto simp: reads_shipped_def)
      show ?thesis
      proof (cases "mg_exec x (shipped_ups ! j)")
        case DB_Ok
        with IH Inr b body show ?thesis unfolding m by (auto simp: step intro: Suc_leD)
      next
        case (DB_Fail e)
        with Inr clean j show ?thesis by (intro exI [of _ j]) (auto simp: step)
      next
        case (DB_Lost e)
        with Inr clean j b body show ?thesis by (intro exI [of _ "Suc j"]) (auto simp: step)
      qed
    qed
  qed
qed

lemma migrate_from:
  assumes "reads_shipped x" and "k \<le> 4"
  shows "\<exists>m err. ApplyMigrations x (schema_at k) = (err, schema_at m) \<and> k \<le> m \<and> m \<le> 4 \<and>
    (err = None \<longrightarrow> m = 4) \<and> (no_migrate_faults x \<longrightarrow> err = None)"
proof -
  have t: "''schema_migrations'' \<in> sch_tables (schema_at n) \<longleftrightarrow> n \<noteq> 0" for n by (auto simp: schema_at_def)
  have v: "sch_versions (schema_at 0) = {}" by (simp add: schema_at_def)
  have dir: "mg_dir x = Inr shipped_dir" using assms(1) by (simp add: reads_shipped_def)
  note run = ApplyMigrations_def dir shipped_files hasTable_def t
  show ?thesis
  proof (cases "mg_connect x = None \<and> mg_lock x = None \<and> mg_exists x = None \<and> (k = 0 \<or> mg_rows x = None)")
    case True
    then have "ApplyMigrations x (schema_at k) = apply_files x (sch_versions (schema_at k)) shipped_ups (schema_at k)"
      by (cases "k = 0") (simp_all add: run v)
    then show ?thesis using apply_shipped [OF assms, of 0] by simp
  next
    case False
    then have "\<exists>e. ApplyMigrations x (schema_at k) = (Some e, schema_at k)"
      by (simp add: run split: option.splits) auto
    moreover have "\<not> no_migrate_faults x" using False by (auto simp: no_migrate_faults_def)
    ultimately show ?thesis using assms(2) by auto
  qed
qed

text \<open>
  C36. Migrations can be resumed. On a database in the state after any number of the shipped scripts, a run of
  \<^verbatim>\<open>ApplyMigrations\<close>, whatever fails in it and even if the reply to a script is lost, leaves the state after the same
  or more of them and never one in between; and a run in which nothing fails then succeeds and completes the schema.
\<close>
theorem migrations_resumable:
  assumes "reads_shipped x" and "reads_shipped y" and "no_migrate_faults y" and "k \<le> 4"
  shows "\<exists>m. snd (ApplyMigrations x (schema_at k)) = schema_at m \<and> k \<le> m \<and> m \<le> 4 \<and>
    ApplyMigrations y (snd (ApplyMigrations x (schema_at k))) = (None, schema_at 4)"
proof -
  obtain m where m: "snd (ApplyMigrations x (schema_at k)) = schema_at m" "k \<le> m" "m \<le> 4"
    using migrate_from [OF assms(1,4)] by force
  moreover have "ApplyMigrations y (schema_at m) = (None, schema_at 4)"
    using migrate_from [OF assms(2) m(3)] assms(3) by force
  ultimately show ?thesis by auto
qed

definition clean_migrate :: migrate_env where
  "clean_migrate = \<lparr>mg_dir = Inr shipped_dir, mg_connect = None, mg_lock = None, mg_exists = None, mg_rows = None,
     mg_read = (\<lambda>f. case shipped_script f of None \<Rightarrow> Inl ErrNotExist | Some b \<Rightarrow> Inr b), mg_exec = (\<lambda>_. DB_Ok)\<rparr>"

lemma clean_migrate_ok: "reads_shipped clean_migrate" "no_migrate_faults clean_migrate"
  by (auto simp: clean_migrate_def reads_shipped_def no_migrate_faults_def shipped_script_def shipped_ups_def split: option.splits)

lemma no_schema_at_0: "schema_at 0 = no_schema"
  by (simp add: schema_at_def no_schema_def)

theorem migrations_resumable_witness:
  "let x = clean_migrate\<lparr>mg_exec := (\<lambda>f. if f = ''0003_jobs_status_index.up.sql'' then DB_Lost ErrDeadlineExceeded else DB_Ok)\<rparr>
   in ApplyMigrations clean_migrate (snd (ApplyMigrations x no_schema)) = (None, schema_at 4)"
proof -
  let ?x = "clean_migrate\<lparr>mg_exec := (\<lambda>f. if f = ''0003_jobs_status_index.up.sql'' then DB_Lost ErrDeadlineExceeded else DB_Ok)\<rparr>"
  have "reads_shipped ?x" using clean_migrate_ok(1) by (simp add: reads_shipped_def)
  from migrations_resumable [OF this clean_migrate_ok, of 0] show ?thesis by (auto simp: no_schema_at_0)
qed

text \<open>
  Migrating is idempotent: once the schema is complete, a further run executes no script and changes nothing,
  whatever the server would have answered.
\<close>
lemma migrations_idempotent:
  assumes "reads_shipped x" and "mg_connect x = None" "mg_lock x = None" "mg_exists x = None" "mg_rows x = None"
  shows "ApplyMigrations x (schema_at 4) = (None, schema_at 4)"
proof -
  have "apply_files x (sch_versions (schema_at 4)) (drop j shipped_ups) S = (None, S)" if "j \<le> 4" for j S
    using that
  proof (induction "4 - j" arbitrary: j)
    case (Suc n)
    then have j: "j < 4" by simp
    then have "drop j shipped_ups = shipped_ups ! j # drop (Suc j) shipped_ups"
      by (intro Cons_nth_drop_Suc [symmetric]) (simp add: shipped_ups_def)
    with Suc j show ?case by (simp add: shipped_version version_applied)
  qed (simp add: shipped_ups_def)
  from this [of 0] assms show ?thesis
    by (simp add: ApplyMigrations_def reads_shipped_def shipped_files hasTable_def) (simp add: schema_at_def)
qed

text \<open>
  The down scripts undo the up scripts: run on the schema after the second, third or fourth migration,
  the matching down script restores exactly the schema before it, recorded version included.
\<close>
lemma migrations_down_roundtrip:
  "run_script drop_trace_id_index_down (schema_at 4) = Inr (schema_at 3) \<and>
   run_script jobs_status_index_down (schema_at 3) = Inr (schema_at 2) \<and>
   run_script sniffer_state_down (schema_at 2) = Inr (schema_at 1)"
proof (intro conjI)
  show "run_script drop_trace_id_index_down (schema_at 4) = Inr (schema_at 3)"
    by (simp add: drop_trace_id_index_down_def schema_at_def insert_commute insert_Diff_if eval_nat_numeral)
  have "{x \<in> sch_indexes (schema_at 3). fst x \<noteq> ''transfer_jobs_status_idx''} = sch_indexes (schema_at 2)"
  proof -
    have ins: "sch_indexes (schema_at 3) = insert (''transfer_jobs_status_idx'', ''transfer_jobs'') (sch_indexes (schema_at 2))"
      by (simp add: schema_at_def insert_commute)
    have "\<forall>x \<in> sch_indexes (schema_at 2). fst x \<noteq> ''transfer_jobs_status_idx''" by (simp add: schema_at_def)
    then show ?thesis unfolding ins by (intro drop_one) simp
  qed
  then show "run_script jobs_status_index_down (schema_at 3) = Inr (schema_at 2)"
    by (simp add: jobs_status_index_down_def) (simp add: schema_at_def insert_commute insert_Diff_if eval_nat_numeral)
  have "{x \<in> sch_indexes (schema_at 2). snd x \<noteq> ''sniffer_state''} = sch_indexes (schema_at 2)"
  proof -
    have "\<forall>x \<in> sch_indexes (schema_at 2). snd x \<noteq> ''sniffer_state''" by (simp add: schema_at_def)
    then show ?thesis by blast
  qed
  then show "run_script sniffer_state_down (schema_at 2) = Inr (schema_at 1)"
    by (simp add: sniffer_state_down_def) (simp add: schema_at_def insert_commute insert_Diff_if eval_nat_numeral)
qed

end
