(* ===== verification/Cli.thy ===== *)
theory Cli
  imports Jobs Commands Migrate
begin

text \<open>
  The four commands of \<^verbatim>\<open>cmd/imgsync\<close> and its \<^verbatim>\<open>main\<close>: what each does with its environment and its flags, which
  error it returns, what it prints and with which code the process ends. The flags are given as the command line
  library has parsed them.
\<close>

definition nl :: string where
  "nl = [char_of (10 :: nat)]"

definition dsn_required :: go_error where
  "dsn_required = PlainErr ''IMGSYNC_DSN is required''"

section \<open>enqueue\<close>

record enqueue_flags =
  fl_traceID :: string
  fl_src :: string
  fl_dst :: string
  fl_srcProto :: string
  fl_dstProto :: string
  fl_maxAttempts :: int

text \<open>The values of the flags before the command line is read; all but the last must then be given.\<close>

definition enqueue_defaults :: enqueue_flags where
  "enqueue_defaults =
     \<lparr>fl_traceID = [], fl_src = [], fl_dst = [], fl_srcProto = [], fl_dstProto = [], fl_maxAttempts = 5\<rparr>"

definition enqueue_args :: "enqueue_flags \<Rightarrow> EnqueueArgs" where
  "enqueue_args f =
     \<lparr>a_TraceID = fl_traceID f, a_Src = fl_src f, a_Dst = fl_dst f, a_SrcProtocol = fl_srcProto f,
      a_DstProtocol = fl_dstProto f, a_Payload = [], a_MaxAttempts = fl_maxAttempts f\<rparr>"

definition no_pool_options :: "string \<Rightarrow> int \<Rightarrow> db_PoolConfig" where
  "no_pool_options dsn maxConns =
     \<lparr>pg_DSN = dsn, pg_MaxConns = maxConns, pg_MinConns = 0, pg_MaxConnLifetime = 0, pg_MaxConnIdleTime = 0,
      pg_HealthCheckPeriod = 0\<rparr>"

definition enqueue_RunE ::
  "'p pg_driver \<Rightarrow> environ \<Rightarrow> tx_env \<Rightarrow> enqueue_flags \<Rightarrow> db \<Rightarrow> (go_error option \<times> string) \<times> db"
where
  "enqueue_RunE drv env x f D =
     (if env ''IMGSYNC_DSN'' = [] then ((Some dsn_required, []), D)
      else case db_NewPool drv (no_pool_options (env ''IMGSYNC_DSN'') 4) of
        Inl err \<Rightarrow> ((Some err, []), D)
      | Inr _ \<Rightarrow>
          (case Enqueue x (enqueue_args f) D of
             (Inl err, D') \<Rightarrow> ((Some err, []), D')
           | (Inr (i, inserted), D') \<Rightarrow>
               ((None,
                 if inserted then ''enqueued id='' @ itoa i @ '' trace_id='' @ fl_traceID f @ nl
                 else ''exists id='' @ itoa i @ '' trace_id='' @ fl_traceID f @ '' (no-op)'' @ nl), D')))"

section \<open>migrate\<close>

definition migrate_default_dir :: "environ \<Rightarrow> string" where
  "migrate_default_dir env =
     (let d = env ''IMGSYNC_MIGRATIONS_DIR'' in if d = [] then ''/etc/imgsync/migrations'' else d)"

text \<open>\<open>open_dir\<close> gives the run of \<^verbatim>\<open>ApplyMigrations\<close> for a directory; the flag \<^verbatim>\<open>--dir\<close> is \<open>None\<close> when absent.\<close>

definition migrate_RunE ::
  "environ \<Rightarrow> string option \<Rightarrow> (string \<Rightarrow> migrate_env) \<Rightarrow> db_schema \<Rightarrow> (go_error option \<times> string) \<times> db_schema"
where
  "migrate_RunE env flag open_dir S =
     (let dir = (case flag of None \<Rightarrow> migrate_default_dir env | Some d \<Rightarrow> d) in
      if env ''IMGSYNC_DSN'' = [] then ((Some dsn_required, []), S)
      else case ApplyMigrations (open_dir dir) S of
        (Some err, S') \<Rightarrow> ((Some err, []), S')
      | (None, S') \<Rightarrow> ((None, ''migrations applied'' @ nl), S'))"

section \<open>sniffer\<close>

definition sniffer_RunE ::
  "string list \<Rightarrow> 'p pg_driver \<Rightarrow> (string \<Rightarrow> go_error option) \<Rightarrow> (string \<Rightarrow> go_error option) \<Rightarrow> environ \<Rightarrow>
   't engine \<Rightarrow> (timestamp \<Rightarrow> string) \<Rightarrow> sniffer_tick \<Rightarrow> sniffer_tick list \<Rightarrow> state_table \<times> db \<Rightarrow>
   (go_error + bool \<times> sniff_callback option list \<times> state_table \<times> db) go"
where
  "sniffer_RunE order drv img_pool listen env eng fmt first ts W =
     (case ParseSnifferConfig order env of
        Inl err \<Rightarrow> Ret (Inl err)
      | Inr cfg \<Rightarrow> RunSniffer drv img_pool listen env eng fmt cfg first ts W)"

section \<open>worker\<close>

text \<open>The start of the worker command, up to the point where \<^verbatim>\<open>Run\<close> is called: the driver
  as the queue's pool meets it, then as the pool of \<^verbatim>\<open>newHostcapTransport\<close> meets it. The text is the line it prints.\<close>

definition worker_RunE ::
  "'p pg_driver \<Rightarrow> 'p pg_driver \<Rightarrow> (string \<Rightarrow> go_error option) \<Rightarrow> environ \<Rightarrow> string \<Rightarrow> go_error + worker_setup \<times> string"
where
  "worker_RunE drv cap_drv listen env hostname =
     (case worker_setup_of env hostname of
        Inl err \<Rightarrow> Inl err
      | Inr ws \<Rightarrow>
          (case db_NewPool drv (no_pool_options (env ''IMGSYNC_DSN'') (ws_MaxConns ws)) of
             Inl err \<Rightarrow> Inl err
           | Inr _ \<Rightarrow>
               (case db_NewPool cap_drv (no_pool_options (env ''IMGSYNC_DSN'') (ws_capConns ws)) of
                  Inl err \<Rightarrow> Inl err
                | Inr _ \<Rightarrow>
                    (case listen (ws_health ws) of
                       Some err \<Rightarrow> Inl err
                     | None \<Rightarrow>
                         Inr (ws, ''imgsync worker starting: pod='' @ ws_PodName ws @ '' workers='' @ itoa (ws_Workers ws) @ nl)))))"

section \<open>main\<close>

definition main_exit :: "go_error option \<Rightarrow> int \<times> string" where
  "main_exit err = (case err of None \<Rightarrow> (0, []) | Some e \<Rightarrow> (1, err_text e @ nl))"

section \<open>What the commands promise\<close>

text \<open>
  The enqueue command can be repeated: after a run that succeeded, a run with the same trace id and destination and no
  faults ends with code 0, says that the job exists, with the id the first run printed, and changes no row and no event.
\<close>

lemma enqueue_command_repeatable:
  assumes "db_ok D" and "enqueue_RunE drv env x f D = ((None, out), D1)"
    and "fl_traceID g = fl_traceID f" "fl_dst g = fl_dst f" "args_ok (enqueue_args g)"
  shows "\<exists>i. out \<in> {''enqueued id='' @ itoa i @ '' trace_id='' @ fl_traceID f @ nl,
      ''exists id='' @ itoa i @ '' trace_id='' @ fl_traceID f @ '' (no-op)'' @ nl} \<and>
    enqueue_RunE drv env (no_faults now) g D1 =
      ((None, ''exists id='' @ itoa i @ '' trace_id='' @ fl_traceID f @ '' (no-op)'' @ nl), D1\<lparr>next_id := next_id D1 + 1\<rparr>)"
proof -
  obtain p where env: "env ''IMGSYNC_DSN'' \<noteq> []" "db_NewPool drv (no_pool_options (env ''IMGSYNC_DSN'') 4) = Inr p"
    using assms(2) by (auto simp: enqueue_RunE_def split: if_splits sum.splits)
  obtain i ins where E: "Enqueue x (enqueue_args f) D = (Inr (i, ins), D1)"
    and out: "out = (if ins then ''enqueued id='' @ itoa i @ '' trace_id='' @ fl_traceID f @ nl
      else ''exists id='' @ itoa i @ '' trace_id='' @ fl_traceID f @ '' (no-op)'' @ nl)"
    using assms(2) env by (auto simp: enqueue_RunE_def split: sum.splits prod.splits)
  have "Enqueue (no_faults now) (enqueue_args g) D1 = (Inr (i, False), D1\<lparr>next_id := next_id D1 + 1\<rparr>)"
    by (rule Enqueue_again [OF assms(1) E assms(5)]) (simp_all add: enqueue_args_def assms(3,4))
  then show ?thesis using env out assms(3) by (intro exI [of _ i]) (simp add: enqueue_RunE_def)
qed

text \<open>A command whose DSN is missing fails before it touches anything, and the process ends with code 1.\<close>

lemma commands_need_dsn:
  assumes "env ''IMGSYNC_DSN'' = []"
  shows "enqueue_RunE drv env x f D = ((Some dsn_required, []), D)"
    and "migrate_RunE env flag open_dir S = ((Some dsn_required, []), S)"
    and "worker_RunE drv cap_drv listen env hostname = Inl dsn_required"
    and "main_exit (Some dsn_required) = (1, ''IMGSYNC_DSN is required'' @ nl)"
  using assms by (simp_all add: enqueue_RunE_def migrate_RunE_def worker_RunE_def worker_setup_of_def dsn_required_def main_exit_def)

end
