(* ===== verification/Spec2Isabelle.thy ===== *)
theory Spec2Isabelle
  imports Queue_Refinement Hostcap Pool_Gauge Ftp_Server Delivery Metrics_Registry Cli
begin

text \<open>
  A verification of imgsync, a queue of file transfers on PostgreSQL.

  \<^bold>\<open>The program.\<close> A job is a row of the table \<^verbatim>\<open>transfer_jobs\<close>: copy \<^verbatim>\<open>src\<close> to \<^verbatim>\<open>dst\<close>, each with a protocol. Jobs come from
  the command \<^verbatim>\<open>imgsync enqueue\<close> and from sniffers, which poll a table of another database and enqueue its new rows.
  Worker pods lease due rows, open the source, stream the body to the destination and record the outcome under a guard
  on the lease. The enqueue command, every outcome and every expired lease also insert a row into
  \<^verbatim>\<open>transfer_events\<close>, in the same statement or transaction; leasing, draining and the sniffer insert none.
  A sweeper returns expired leases to the queue; retention deletes old finished rows. FTP connections come from a pool
  with a limit per host in each process, and a cap made of advisory locks limits transfers per host over all pods. Idle
  workers share a backoff. Health endpoints and metrics observe all this through callbacks.

  \<^bold>\<open>The theories,\<close> with the files under \<^verbatim>\<open>src/\<close> they model.

  \<^item> Prelude: reachable states, the locales \<open>inductive_invariant\<close> and \<open>step_monotone\<close>, list lemmas. Go_Lib: wrapping
    integers, binary64 arithmetic, decimal text, error values and panics, as the sources use them.
  \<^item> Queue_DB: the two tables of \<^verbatim>\<open>migrations/0001_initial.up.sql\<close> as the record \<open>db\<close>, the statements on them, the table
    invariant \<open>db_ok\<close>, and the locale \<open>lease_outcome\<close> for the guarded writes that end a lease.
  \<^item> Jobs: \<^verbatim>\<open>internal/jobs/enqueue.go\<close>.
  \<^item> Errdetail, Worker, Worker_Props, Worker_Progress: \<^verbatim>\<open>internal/worker\<close>. \<open>LeaseJob\<close>, \<open>ProcessJob\<close>, \<open>classifyAndWrite\<close>,
    \<open>processOne\<close>, \<open>drainLease\<close> and \<open>loop\<close> are the functions of these names; \<open>loop_from\<close> runs the turns of the loop.
  \<^item> Sweeper, Retention, Sniffer: \<^verbatim>\<open>internal/sweeper\<close>, \<^verbatim>\<open>internal/retention\<close>, \<^verbatim>\<open>internal/sniffer\<close>.
  \<^item> Queue_Machine: all processes on the shared tables as the step relation \<open>qstep\<close>, one rule for each call.
    Queue_Refinement: the abstract life cycle \<open>life_step\<close> of one job, which \<open>qstep\<close> implements.
  \<^item> Idle_Backoff, Hostcap, Ftp_Pool, Ftp_Pool_Hosts: \<^verbatim>\<open>internal/backoff\<close>, \<^verbatim>\<open>internal/hostcap\<close> and
    \<^verbatim>\<open>internal/transports/ftp/pool.go\<close>. Critical sections are functions, goroutines interleave them. Pool_Gauge: the pool
    together with the gauge its reports go to.
  \<^item> Transfer_Stream, Transfer_Localfs, Transfer_Ftp: \<^verbatim>\<open>internal/transfer\<close>, \<^verbatim>\<open>internal/sources\<close> and \<^verbatim>\<open>internal/transports\<close>.
  \<^item> Commands, Cli: \<^verbatim>\<open>internal/env\<close>, \<^verbatim>\<open>internal/db/pool.go\<close>, \<^verbatim>\<open>internal/sourcedb\<close>, \<^verbatim>\<open>internal/cli\<close> and \<^verbatim>\<open>cmd/imgsync\<close>.
    Migrate: \<^verbatim>\<open>internal/db/migrate.go\<close> and \<^verbatim>\<open>migrations/\<close>. Observability, Metrics_Registry: \<^verbatim>\<open>internal/health\<close> and
    \<^verbatim>\<open>internal/metrics\<close>. Ftp_Server: \<^verbatim>\<open>internal/ftpserver\<close>, the server of the integration tests.
  \<^item> Pipeline, Delivery: the worker with the sources and transports the command registers, the FTP transport inside the
    cap on its host, and the sniffer in front.

  \<^bold>\<open>Faults.\<close> Definitions take what the outside world answers as an argument: the clock, the random draws, the error of each
  statement or system call, and whether a commit whose reply was lost took effect (\<open>DB_Lost\<close>). Theorems without a
  hypothesis on these arguments hold for all of them. Other processes act between calls as steps of \<open>qstep\<close>, and inside
  a file operation as a function that changes the file system.

  \<^bold>\<open>What is shown.\<close>

  \<^item> The queue, for every interleaving and fault: the tables stay consistent, the event log has exactly the terminal
    and failure events the rows call for, a finished row never changes until retention deletes it, each id follows the
    life cycle, and a snapshot of a held lease is not stale.
  \<^item> The worker: a lost lease writes nothing, each error class writes its outcome, a panic costs an attempt, a body is
    closed once, the oldest due row is leased, a stopped loop returns its leases, a worker alone on a queue leases only
    finitely often, and its queue drains when its turns come after the retry delays.
  \<^item> Producers and maintenance: enqueueing is idempotent and atomic, the batched insert equals single inserts, the
    sniffer passes no row by and catches up, the sweeper recovers exactly the expired leases, retention deletes exactly
    the old finished rows.
  \<^item> Limits: the cap over all pods, the limit per host of the pool, connections with one owner, no stranded waiter while
    the pool is open, hosts that do not influence each other, no lost wake-up in the idle backoff;
    the gauge of the pool stays within the limit and is exact while reports do not overlap.
  \<^item> Transfers: a send leaves the complete content or no change of the destination, connections are released once, what
    is recorded as succeeded lies at the destination (an upload ran in a slot of its host), and, when no call fails, what a poll finds is delivered.
  \<^item> Commands, migrations, observers: an accepted configuration is well-formed, an interrupted migration can be resumed,
    counters count the callbacks, all metric families can be registered, the enqueue command can be repeated, and a client
    of the test server stays below its root.

  \<^bold>\<open>Bounds.\<close> No definition uses fuel. \<open>io_Copy\<close>, \<open>delete_batches\<close> and \<open>scrub\<close> are recursive functions with
  termination proofs. Loops that end only with the process (worker, sniffer, sweeper, retention, the rounds of the host
  cap) run over a given list of turns or ticks, of any length. The 10000 tries for a temporary name are the limit of
  \<^verbatim>\<open>os.CreateTemp\<close>. Integers wrap at the width the source has (\<open>wrap64\<close>, \<open>wrap32\<close>) where the source does arithmetic on
  unchecked values.

  \<^bold>\<open>Parameters.\<close> Third-party code appears as arguments: the PostgreSQL driver, the FTP client, the template engine, the
  printing of timestamps, \<^verbatim>\<open>url.Parse\<close>, SHA-256, the database's \<^verbatim>\<open>hashtext\<close>
  and the metrics registry. What a theorem needs of them is a hypothesis.

  \<^bold>\<open>Not modelled.\<close> Parsing of the command line (cobra), HTTP, the FTP protocol, the Prometheus text format and the counting
  into histogram buckets, which are the libraries' own; columns and data in the schema of the migrations, beyond the queue tables; file
  permissions, links, and a crash of the machine in the middle of a system call; the recovery of a panic in the
  ticker loops, whose bodies do not panic in the model; \<^verbatim>\<open>e2e\<close> and the tests, which are no part of the program.
\<close>

end
